(* ===== verification/Prelude.thy ===== *)
theory Prelude
  imports Main "HOL-Library.Word" "HOL-Library.Monad_Syntax"
begin

unbundle bit_operations_syntax

section \<open>Machine types, slices of words and the interface of a union\<close>

text \<open>
  The machine types of the program (the target is a 64-bit ARM Linux, little endian), the
  little-endian field view that the unions \<open>UWORD\<close>, \<open>ULONG\<close> and \<open>PROCBUFFER\<close> of
  \<open>include/rpi_base/rpi_base.h\<close> give of a block of memory, and the interface locale of such a
  view with the lemma on loops that fill a union field by field.
  A union is modelled by the word that its bytes make up: \<open>UWORD\<close> is \<open>16 word\<close>, \<open>ULONG\<close> is
  \<open>32 word\<close> and the 32 bytes of \<open>PROCBUFFER\<close> are a \<open>256 word\<close>.
\<close>

type_synonym u8 = "8 word"
type_synonym u16 = "16 word"
type_synonym u32 = "32 word"
type_synonym u64 = "64 word"

text \<open>Shared rewrite collections: effects on the event log, and what an operation leaves alone.\<close>

named_theorems log_simps "how the operations extend the event log"
named_theorems frame_simps "the fields that an operation leaves unchanged"

subsection \<open>Fields of a word\<close>

definition slice_get :: "'a::len word \<Rightarrow> nat \<Rightarrow> 'b::len word" where
  "slice_get w i = ucast (drop_bit (LENGTH('b) * i) w)"

definition slice_put :: "'a::len word \<Rightarrow> nat \<Rightarrow> 'b::len word \<Rightarrow> 'a word" where
  "slice_put w i v =
     (w AND NOT (push_bit (LENGTH('b) * i) (mask LENGTH('b)))) OR push_bit (LENGTH('b) * i) (ucast v)"

lemma bit_slice_get:
  fixes w :: "'a::len word"
  shows "bit (slice_get w i :: 'b::len word) k \<longleftrightarrow> k < LENGTH('b) \<and> bit w (LENGTH('b) * i + k)"
  by (auto simp: slice_get_def bit_simps ac_simps)

lemma bit_slice_put:
  fixes w :: "'a::len word" and v :: "'b::len word"
  shows "bit (slice_put w i v) k \<longleftrightarrow>
    k < LENGTH('a) \<and> (if LENGTH('b) * i \<le> k \<and> k < LENGTH('b) * i + LENGTH('b)
                      then bit v (k - LENGTH('b) * i) else bit w k)"
proof -
  have "bit v (k - LENGTH('b) * i) \<Longrightarrow> k - LENGTH('b) * i < LENGTH('b)"
    by (rule bit_imp_le_length)
  then show ?thesis
    by (auto simp: slice_put_def bit_simps dest: bit_imp_le_length)
qed

lemma slice_get_put_same:
  fixes w :: "'a::len word" and v :: "'b::len word"
  assumes "LENGTH('b) * Suc i \<le> LENGTH('a)"
  shows "slice_get (slice_put w i v) i = v"
  using assms by (intro bit_word_eqI) (auto simp: bit_slice_get bit_slice_put)

lemma slice_fields_disjoint:
  assumes "i \<noteq> j" and "k < (n::nat)"
  shows "\<not> (n * i \<le> n * j + k \<and> n * j + k < n * i + n)"
proof (cases "i < j")
  case True
  then have "n * Suc i \<le> n * j" by (intro mult_le_mono2) simp
  then show ?thesis by simp
next
  case False
  with assms(1) have "n * Suc j \<le> n * i" by (intro mult_le_mono2) simp
  with assms(2) show ?thesis by simp
qed

lemma slice_get_put_other:
  fixes w :: "'a::len word" and v :: "'b::len word"
  assumes "i \<noteq> j"
  shows "(slice_get (slice_put w i v) j :: 'b word) = slice_get w j"
  using slice_fields_disjoint [OF assms]
  by (intro bit_word_eqI) (auto simp: bit_slice_get bit_slice_put dest: bit_imp_le_length)

lemma slice_ext:
  fixes w v :: "'a::len word"
  assumes n: "LENGTH('a) = LENGTH('b::len) * n"
    and eq: "\<And>i. i < n \<Longrightarrow> (slice_get w i :: 'b word) = slice_get v i"
  shows "w = v"
proof (rule bit_word_eqI)
  fix k assume k: "k < LENGTH('a)"
  let ?i = "k div LENGTH('b)"
  let ?r = "k mod LENGTH('b)"
  from k n have i: "?i < n" by (simp add: less_mult_imp_div_less mult.commute)
  have r: "?r < LENGTH('b)" by simp
  have split: "LENGTH('b) * ?i + ?r = k" by simp
  from eq [OF i] have "bit (slice_get w ?i :: 'b word) ?r = bit (slice_get v ?i :: 'b word) ?r"
    by simp
  with r split show "bit w k = bit v k" by (simp add: bit_slice_get)
qed

subsection \<open>The interface of a union\<close>

text \<open>
  What the code relies on when it writes a block of memory through one array member of a union
  and reads it back: the members are independent cells, and together they are the whole block.
\<close>

locale union_view =
  fixes get :: "'s \<Rightarrow> nat \<Rightarrow> 'c"
    and put :: "'s \<Rightarrow> nat \<Rightarrow> 'c \<Rightarrow> 's"
    and cells :: nat
  assumes get_put_same: "i < cells \<Longrightarrow> get (put s i c) i = c"
    and get_put_other: "i \<noteq> j \<Longrightarrow> get (put s i c) j = get s j"
    and view_ext: "(\<And>i. i < cells \<Longrightarrow> get s i = get t i) \<Longrightarrow> s = t"
begin

text \<open>A loop that stores consecutive values into consecutive cells, from cell \<open>k\<close> on.\<close>

lemma get_fill:
  "k + length cs \<le> cells \<Longrightarrow>
   get (fold (\<lambda>(i, c) s. put s i c) (enumerate k cs) s) j =
     (if k \<le> j \<and> j < k + length cs then cs ! (j - k) else get s j)"
proof (induction cs arbitrary: k s)
  case Nil
  then show ?case by auto
next
  case (Cons c cs)
  from Cons.prems have "Suc k + length cs \<le> cells" by simp
  note IH = Cons.IH [OF this, of "put s k c"]
  consider "j = k" | "j < k" | "k < j" by linarith
  then show ?case
  proof cases
    case 1
    with Cons.prems IH show ?thesis by (simp add: get_put_same)
  next
    case 2
    with IH show ?thesis by (simp add: get_put_other)
  next
    case 3
    then have "j - k = Suc (j - Suc k)" by simp
    with 3 IH show ?thesis by (simp add: get_put_other)
  qed
qed

text \<open>Filling every cell determines the block, whatever it held before.\<close>

lemma fill_all_determined:
  assumes "length cs = cells"
  shows "fold (\<lambda>(i, c) s. put s i c) (enumerate 0 cs) s =
         fold (\<lambda>(i, c) s. put s i c) (enumerate 0 cs) t"
  by (rule view_ext) (simp add: get_fill assms)

lemma fill_all_unique:
  assumes "length cs = cells" and "\<And>i. i < cells \<Longrightarrow> get t i = cs ! i"
  shows "fold (\<lambda>(i, c) s. put s i c) (enumerate 0 cs) s = t"
  by (rule view_ext) (simp add: get_fill assms)

end

text \<open>Every splitting of a word into equal fields is such a view; the four unions are instances.\<close>

lemma union_view_slices:
  assumes n: "LENGTH('a::len) = LENGTH('b::len) * n"
  shows "union_view (slice_get :: 'a word \<Rightarrow> nat \<Rightarrow> 'b word) slice_put n"
proof
  fix i :: nat and s :: "'a word" and c :: "'b word"
  assume "i < n"
  then have "LENGTH('b) * Suc i \<le> LENGTH('b) * n" by (intro mult_le_mono2) simp
  with n show "slice_get (slice_put s i c) i = c"
    by (simp add: slice_get_put_same del: mult_Suc_right)
next
  fix i j :: nat and s :: "'a word" and c :: "'b word"
  assume "i \<noteq> j"
  then show "(slice_get (slice_put s i c) j :: 'b word) = slice_get s j"
    by (rule slice_get_put_other)
next
  fix s t :: "'a word"
  assume "\<And>i. i < n \<Longrightarrow> (slice_get s i :: 'b word) = slice_get t i"
  with n show "s = t" by (rule slice_ext)
qed

interpretation word_bytes: union_view "slice_get :: u16 \<Rightarrow> nat \<Rightarrow> u8" slice_put 2
  by (rule union_view_slices) simp

interpretation long_bytes: union_view "slice_get :: u32 \<Rightarrow> nat \<Rightarrow> u8" slice_put 4
  by (rule union_view_slices) simp

interpretation buf_bytes: union_view "slice_get :: 256 word \<Rightarrow> nat \<Rightarrow> u8" slice_put 32
  by (rule union_view_slices) simp

interpretation buf_uls: union_view "slice_get :: 256 word \<Rightarrow> nat \<Rightarrow> u64" slice_put 4
  by (rule union_view_slices) simp

text \<open>An unsigned word below the sign bit is the same number when it is read as signed.\<close>

lemma sint_small:
  fixes w :: u32
  assumes "unat w < 2 ^ 31"
  shows "sint w = int (unat w)"
proof -
  have "int (unat w) < int (2 ^ 31)" using assms by (simp only: of_nat_less_iff)
  then have "uint w < 2 ^ 31" by (simp only: uint_nat of_nat_power of_nat_numeral)
  then show ?thesis
    unfolding sint_uint
    by (subst signed_take_bit_int_eq_self) (simp_all add: order_trans [OF _ unsigned_greater_eq])
qed

subsection \<open>Lists and options\<close>

lemma bind_Some_iff: "Option.bind x f = Some y \<longleftrightarrow> (\<exists>a. x = Some a \<and> f a = Some y)"
  by (cases x) auto

lemma Some_bind_iff: "Some y = Option.bind x f \<longleftrightarrow> (\<exists>a. x = Some a \<and> f a = Some y)"
  by (cases x) auto

lemma ucast_down_up [simp]:
  "LENGTH('a) \<le> LENGTH('b) \<Longrightarrow> (ucast (ucast (w :: 'a::len word) :: 'b::len word) :: 'a word) = w"
  by (rule bit_word_eqI) (auto simp: bit_simps)

lemma unat_ucast_up:
  assumes "LENGTH('a) \<le> LENGTH('b)"
  shows "unat (ucast (w :: 'a::len word) :: 'b::len word) = unat w"
proof -
  have "unat w < 2 ^ LENGTH('a)" by (rule unsigned_less)
  also have "\<dots> \<le> 2 ^ LENGTH('b)" using assms by (intro power_increasing) simp_all
  finally show ?thesis by (simp add: unsigned_ucast_eq take_bit_nat_eq_self)
qed

lemma upt_4: "[0..<4] = [0, 1, 2, 3]"
  by (simp add: upt_rec)

text \<open>Running an operation that may fail over a list of arguments.\<close>

fun fold_option :: "('v \<Rightarrow> 's \<Rightarrow> 's option) \<Rightarrow> 'v list \<Rightarrow> 's \<Rightarrow> 's option" where
  "fold_option f [] s = Some s"
| "fold_option f (v # vs) s = do { s \<leftarrow> f v s; fold_option f vs s }"

lemma fold_option_append:
  "fold_option f (xs @ ys) s = do { s \<leftarrow> fold_option f xs s; fold_option f ys s }"
proof (induction xs arbitrary: s)
  case Nil
  show ?case by simp
next
  case (Cons x xs)
  then show ?case by (cases "f x s") simp_all
qed

subsection \<open>The interface of a ring of snapshots\<close>

text \<open>
  A producer publishes values of which the last \<open>depth\<close> stay readable: \<open>past 0\<close> is the newest
  one. \<open>img\<close> is the stored form of a published value.
\<close>

locale snapshot_ring =
  fixes publish :: "'v \<Rightarrow> 's \<Rightarrow> 's option"
    and past :: "nat \<Rightarrow> 's \<Rightarrow> 'b option"
    and inv :: "'s \<Rightarrow> bool"
    and ok :: "'v \<Rightarrow> bool"
    and img :: "'v \<Rightarrow> 'b"
    and depth :: nat
  assumes publish_newest: "inv s \<Longrightarrow> ok v \<Longrightarrow>
      \<exists>s'. publish v s = Some s' \<and> inv s' \<and> past 0 s' = Some (img v)"
    and publish_shifts: "inv s \<Longrightarrow> ok v \<Longrightarrow> publish v s = Some s' \<Longrightarrow> Suc k < depth \<Longrightarrow>
      past (Suc k) s' = past k s"
begin

lemma publish_all_inv:
  "inv s \<Longrightarrow> \<forall>v \<in> set vs. ok v \<Longrightarrow> \<exists>s'. fold_option publish vs s = Some s' \<and> inv s'"
proof (induction vs arbitrary: s)
  case Nil
  then show ?case by simp
next
  case (Cons v vs)
  then obtain s1 where "publish v s = Some s1" "inv s1"
    using publish_newest [of s v] by auto
  with Cons.IH [of s1] Cons.prems(2) show ?case by simp
qed

text \<open>After any series the last values are still there, newest first.\<close>

lemma publish_all_past:
  "inv s \<Longrightarrow> \<forall>v \<in> set vs. ok v \<Longrightarrow> fold_option publish vs s = Some s' \<Longrightarrow>
   k < length vs \<Longrightarrow> k < depth \<Longrightarrow> past k s' = Some (img (rev vs ! k))"
proof (induction vs arbitrary: k s' rule: rev_induct)
  case Nil
  then show ?case by simp
next
  case (snoc v vs)
  from snoc.prems(3) obtain s1 where s1: "fold_option publish vs s = Some s1"
    "publish v s1 = Some s'"
    by (auto simp: fold_option_append bind_Some_iff)
  from publish_all_inv [OF snoc.prems(1), of vs] snoc.prems(2) s1(1) have "inv s1" by auto
  show ?case
  proof (cases k)
    case 0
    with publish_newest [OF \<open>inv s1\<close>, of v] s1(2) snoc.prems(2) show ?thesis by simp
  next
    case (Suc j)
    with publish_shifts [OF \<open>inv s1\<close> _ s1(2), of j] snoc.prems have "past k s' = past j s1"
      by simp
    also have "\<dots> = Some (img (rev vs ! j))"
      using snoc.IH [of s1 j] snoc.prems Suc s1(1) by simp
    finally show ?thesis using Suc by simp
  qed
qed

text \<open>What was readable before a series has moved back by its length.\<close>

lemma publish_all_shift:
  "inv s \<Longrightarrow> \<forall>v \<in> set vs. ok v \<Longrightarrow> fold_option publish vs s = Some s' \<Longrightarrow>
   length vs + k < depth \<Longrightarrow> past (length vs + k) s' = past k s"
proof (induction vs arbitrary: s' rule: rev_induct)
  case Nil
  then show ?case by simp
next
  case (snoc v vs)
  from snoc.prems(3) obtain s1 where s1: "fold_option publish vs s = Some s1"
    "publish v s1 = Some s'"
    by (auto simp: fold_option_append bind_Some_iff)
  from publish_all_inv [OF snoc.prems(1), of vs] snoc.prems(2) s1(1) have "inv s1" by auto
  with publish_shifts [OF _ _ s1(2), of "length vs + k"] snoc s1(1) show ?case by simp
qed

end

subsection \<open>The interface of an invariant of a step relation\<close>

inductive reach :: "('s \<Rightarrow> bool) \<Rightarrow> ('s \<Rightarrow> 's \<Rightarrow> bool) \<Rightarrow> 's \<Rightarrow> bool" for init step where
  reach_init: "init s \<Longrightarrow> reach init step s"
| reach_step: "reach init step s \<Longrightarrow> step s t \<Longrightarrow> reach init step t"

lemma reach_steps: "step\<^sup>*\<^sup>* s t \<Longrightarrow> reach init step s \<Longrightarrow> reach init step t"
  by (induction rule: rtranclp_induct) (auto intro: reach_step)

locale step_invariant =
  fixes init :: "'s \<Rightarrow> bool" and step :: "'s \<Rightarrow> 's \<Rightarrow> bool" and Inv :: "'s \<Rightarrow> bool"
  assumes Inv_init: "init s \<Longrightarrow> Inv s"
    and Inv_step: "Inv s \<Longrightarrow> step s t \<Longrightarrow> Inv t"
begin

lemma reach_Inv: "reach init step s \<Longrightarrow> Inv s"
  by (induction rule: reach.induct) (auto intro: Inv_init Inv_step)

lemma steps_Inv: "step\<^sup>*\<^sup>* s t \<Longrightarrow> Inv s \<Longrightarrow> Inv t"
  by (induction rule: rtranclp_induct) (auto intro: Inv_step)

end

text \<open>The states of a run given as a list, for executions written out.\<close>

fun run_from :: "('s \<Rightarrow> 's \<Rightarrow> bool) \<Rightarrow> 's \<Rightarrow> 's list \<Rightarrow> bool" where
  "run_from step s [] = True"
| "run_from step s (t # ts) \<longleftrightarrow> step s t \<and> run_from step t ts"

lemma reach_run_from:
  "reach init step s \<Longrightarrow> run_from step s ts \<Longrightarrow> reach init step (last (s # ts))"
proof (induction ts arbitrary: s)
  case Nil
  then show ?case by simp
next
  case (Cons t ts)
  then have "step s t" "run_from step t ts" by simp_all
  with Cons.IH [OF reach_step [OF Cons.prems(1)]] show ?case by simp
qed

subsection \<open>Simulation\<close>

text \<open>Steps that are named and that can be observed, and the runs over a list of names.\<close>

fun steps :: "('t \<Rightarrow> 's \<Rightarrow> 'o list \<Rightarrow> 's \<Rightarrow> bool) \<Rightarrow> 't list \<Rightarrow> 's \<Rightarrow> 'o list \<Rightarrow> 's \<Rightarrow> bool" where
  "steps r [] s os s' \<longleftrightarrow> os = [] \<and> s' = s"
| "steps r (t # ts) s os s' \<longleftrightarrow>
     (\<exists>os1 s1 os2. r t s os1 s1 \<and> steps r ts s1 os2 s' \<and> os = os1 @ os2)"

lemma steps_append:
  "steps r (ts @ us) s os s' \<longleftrightarrow>
   (\<exists>os1 s1 os2. steps r ts s os1 s1 \<and> steps r us s1 os2 s' \<and> os = os1 @ os2)"
proof (induction ts arbitrary: s os)
  case Nil
  show ?case by simp
next
  case (Cons t ts)
  show ?case unfolding append_Cons steps.simps Cons.IH by (metis append.assoc)
qed

text \<open>Every step of the program is one step of the specification with the same observations.\<close>

locale simulation =
  fixes step :: "'t \<Rightarrow> 's \<Rightarrow> 'o list \<Rightarrow> 's \<Rightarrow> bool"
    and spec :: "'t \<Rightarrow> 'a \<Rightarrow> 'o list \<Rightarrow> 'a \<Rightarrow> bool"
    and models :: "'s \<Rightarrow> 'a \<Rightarrow> bool"
  assumes step_sim: "models s a \<Longrightarrow> step t s os s' \<Longrightarrow> \<exists>a'. spec t a os a' \<and> models s' a'"
begin

lemma steps_sim: "models s a \<Longrightarrow> steps step ts s os s' \<Longrightarrow> \<exists>a'. steps spec ts a os a' \<and> models s' a'"
proof (induction ts arbitrary: s a os)
  case Nil
  then show ?case by auto
next
  case (Cons t ts)
  from Cons.prems(2) obtain os1 s1 os2 where
    s1: "step t s os1 s1" "steps step ts s1 os2 s'" "os = os1 @ os2" by auto
  from step_sim [OF Cons.prems(1) s1(1)] obtain a1 where "spec t a os1 a1" "models s1 a1" by blast
  with Cons.IH [OF _ s1(2)] s1(3) show ?case by fastforce
qed

end

end
