(* ===== verification/Platform.thy ===== *)
theory Platform
  imports Prelude
begin

section \<open>The platform: external calls, the event log and the bus protocol\<close>

text \<open>
  Everything the program calls that is not its own code (the bcm2835 library, the C library,
  the kernel, the clock) is a parameter: a record of functions on a world of arbitrary type.
  A machine is a world together with the log of the external calls made so far, in order; the
  log is a history variable that no program definition reads.
  The second half of the theory says what the log means on the SPI bus: chip-select frames and
  the register accesses they carry, as the comments of \<open>Read_Reg\<close> and \<open>Write_Reg\<close> in
  \<open>rpi_base/src/rpi_base.cpp\<close> describe them.
\<close>

subsection \<open>External calls\<close>

datatype level = LOW | HIGH

datatype pin = PIN | OUT

text \<open>
  The calls that return an \<open>int\<close>, a pointer or nothing (then the reply is not used). The
  arguments are the ones the program passes. The mutex of the calls is the start mutex of the
  thread object at hand; the reply of \<open>Pthread_create\<close> is the handle that it leaves in the cleared
  memory, 0 when it could not create a thread.
\<close>

datatype call =
    Bcm2835_init
  | Bcm2835_spi_begin
  | Bcm2835_spi_end
  | Bcm2835_close
  | Spi_setBitOrder_MSBFIRST
  | Spi_setDataMode_MODE0
  | Spi_setClockDivider nat
  | Spi_chipSelect_CS_NONE
  | Spi_setChipSelectPolarity_CS0 level
  | Gpio_fsel_OUTP pin
  | Gpio_write pin level
  | Gpio_set pin
  | Gpio_clr pin
  | Usleep nat
  | Nanosleep int int
  | Open_RDWR string
  | Close int
  | Ioctl int u32 u32
  | Fopen_rb string
  | Fclose
  | Mlockall_current_future
  | Malloc nat
  | Free
  | Sysconf_nprocessors
  | Mutex_init
  | Mutex_lock
  | Mutex_unlock
  | Mutex_destroy
  | Attr_init
  | Attr_setstacksize nat
  | Attr_setschedpolicy_FIFO
  | Attr_setschedparam
  | Attr_destroy
  | Pthread_create
  | Sched_setaffinity int int
  | Pthread_setaffinity_self int
  | Pthread_setname int string
  | Pthread_setcancelstate_ENABLE
  | Pthread_setcanceltype_ASYNCHRONOUS
  | Pthread_cancel int
  | Pthread_join int

text \<open>
  \<open>xcall\<close> answers those calls, \<open>xfer\<close> is \<open>bcm2835_spi_transfer\<close> (one byte out, one byte in),
  \<open>clock\<close> is \<open>clock_gettime(CLOCK_MONOTONIC)\<close> (seconds and nanoseconds), \<open>fread\<close> is \<open>read\<close> on the
  file opened last, for at most so many bytes (\<open>None\<close> for an error), and \<open>indet\<close> is the
  content of an automatic variable that the program reads before it has written all of it.
\<close>

record 'w platform =
  xcall :: "call \<Rightarrow> 'w \<Rightarrow> int \<times> 'w"
  xfer :: "u8 \<Rightarrow> 'w \<Rightarrow> u8 \<times> 'w"
  clock :: "'w \<Rightarrow> (int \<times> int) \<times> 'w"
  fread :: "nat \<Rightarrow> 'w \<Rightarrow> string option \<times> 'w"
  indet :: "'w \<Rightarrow> u32"

datatype event = Call call int | Xfer u8 u8 | Time int int | File nat "string option"

record 'w machine =
  env :: 'w
  trace :: "event list"

definition ext_call :: "'w platform \<Rightarrow> call \<Rightarrow> 'w machine \<Rightarrow> int \<times> 'w machine" where
  "ext_call E c m =
     (let (r, w) = xcall E c (env m) in (r, m\<lparr>env := w, trace := trace m @ [Call c r]\<rparr>))"

definition ext_do :: "'w platform \<Rightarrow> call \<Rightarrow> 'w machine \<Rightarrow> 'w machine" where
  "ext_do E c m = snd (ext_call E c m)"

lemma ext_do_env: "env (ext_do E c m) = snd (xcall E c (env m))"
  by (simp add: ext_do_def ext_call_def split: prod.split)

definition bcm2835_spi_transfer :: "'w platform \<Rightarrow> u8 \<Rightarrow> 'w machine \<Rightarrow> u8 \<times> 'w machine" where
  "bcm2835_spi_transfer E b m =
     (let (r, w) = xfer E b (env m) in (r, m\<lparr>env := w, trace := trace m @ [Xfer b r]\<rparr>))"

definition clock_gettime :: "'w platform \<Rightarrow> 'w machine \<Rightarrow> (int \<times> int) \<times> 'w machine" where
  "clock_gettime E m =
     (let ((s, n), w) = clock E (env m) in ((s, n), m\<lparr>env := w, trace := trace m @ [Time s n]\<rparr>))"

text \<open>\<open>read\<close> never returns more bytes than it was asked for.\<close>

definition file_read :: "'w platform \<Rightarrow> nat \<Rightarrow> 'w machine \<Rightarrow> string option \<times> 'w machine" where
  "file_read E n m =
     (let (d, w) = fread E n (env m); d = map_option (take n) d
      in (d, m\<lparr>env := w, trace := trace m @ [File n d]\<rparr>))"

lemma log_ext_call [log_simps]: "trace (snd (ext_call E c m)) = trace m @ [Call c (fst (ext_call E c m))]"
  by (simp add: ext_call_def split: prod.split)

lemma log_ext_do [log_simps]: "trace (ext_do E c m) = trace m @ [Call c (fst (ext_call E c m))]"
  by (simp add: ext_do_def log_simps)

lemma log_spi_transfer [log_simps]:
  "trace (snd (bcm2835_spi_transfer E b m)) = trace m @ [Xfer b (fst (bcm2835_spi_transfer E b m))]"
  by (simp add: bcm2835_spi_transfer_def split: prod.split)

lemma log_clock_gettime [log_simps]:
  "trace (snd (clock_gettime E m)) =
     trace m @ [Time (fst (fst (clock_gettime E m))) (snd (fst (clock_gettime E m)))]"
  by (simp add: clock_gettime_def split: prod.split)

lemma log_file_read [log_simps]:
  "trace (snd (file_read E n m)) = trace m @ [File n (fst (file_read E n m))]"
  by (simp add: file_read_def Let_def split: prod.split)

lemma file_read_length: "fst (file_read E n m) = Some d \<Longrightarrow> length d \<le> n"
  by (auto simp: file_read_def Let_def split: prod.splits)

subsection \<open>What a log means: register accesses\<close>

text \<open>
  One action is a register access over the bus, an external call, a reading of the clock or of a
  file. The
  bytes of an access are in the order they cross the bus, which is least significant first.
\<close>

datatype action =
    Reg_read u16 "u8 list"
  | Reg_write u16 "u8 list"
  | Ext call int
  | Clock int int
  | File_data nat "string option"

text \<open>
  A frame is the list of the bytes sent and received while the chip is selected: a command
  byte, the register address with its most significant byte first, then data.
\<close>

fun decode_frame :: "(u8 \<times> u8) list \<Rightarrow> action option" where
  "decode_frame ((c, _) # (h, _) # (l, _) # ds) =
     (let a = slice_put (slice_put 0 1 h) 0 l
      in if c = 3 then Some (Reg_read a (map snd ds))
         else if c = 2 then Some (Reg_write a (map fst ds))
         else None)"
| "decode_frame _ = None"

text \<open>
  The actions of a log. The state is the frame being received, if the chip is selected. A log
  that transfers bytes outside a frame, selects the chip twice, makes another call inside a
  frame, ends inside a frame or carries an unknown command has no meaning.
\<close>

fun actions :: "event list \<Rightarrow> (u8 \<times> u8) list option \<Rightarrow> action list option" where
  "actions [] None = Some []"
| "actions [] (Some fr) = None"
| "actions (Xfer b r # es) None = None"
| "actions (Xfer b r # es) (Some fr) = actions es (Some (fr @ [(b, r)]))"
| "actions (Call c r # es) st =
     (if c = Gpio_write PIN LOW then
        (if st = None then actions es (Some []) else None)
      else if c = Gpio_write PIN HIGH then
        (case st of None \<Rightarrow> None
         | Some fr \<Rightarrow>
             (case decode_frame fr of None \<Rightarrow> None
              | Some a \<Rightarrow> map_option (Cons a) (actions es None)))
      else (if st = None then map_option (Cons (Ext c r)) (actions es None) else None))"
| "actions (Time s n # es) st =
     (if st = None then map_option (Cons (Clock s n)) (actions es None) else None)"
| "actions (File k d # es) st =
     (if st = None then map_option (Cons (File_data k d)) (actions es None) else None)"

lemma map_option_append_Nil [simp]: "map_option ((@) []) x = x"
  by (cases x) simp_all

lemma actions_append:
  "actions xs st = Some as \<Longrightarrow> actions (xs @ ys) st = map_option ((@) as) (actions ys None)"
proof (induction xs st arbitrary: as rule: actions.induct)
  case (5 c r es st)
  then show ?case
    by (cases "actions ys None") (auto split: if_splits option.splits)
next
  case (6 s n es st)
  then show ?case by (cases "actions ys None") (auto split: if_splits)
next
  case (7 k d es st)
  then show ?case by (cases "actions ys None") (auto split: if_splits)
qed auto

lemma actions_xfers:
  "actions (map (\<lambda>(b, r). Xfer b r) brs @ es) (Some fr) = actions es (Some (fr @ brs))"
  by (induction brs arbitrary: fr) auto

text \<open>
  \<open>emits m m' as\<close>: from \<open>m\<close> to \<open>m'\<close> the log has grown by a complete sequence of frames and
  calls that mean \<open>as\<close>.
\<close>

definition emits :: "'w machine \<Rightarrow> 'w machine \<Rightarrow> action list \<Rightarrow> bool" where
  "emits m m' as \<longleftrightarrow> (\<exists>evs. trace m' = trace m @ evs \<and> actions evs None = Some as)"

lemma emits_refl [simp, intro]: "emits m m []"
  by (simp add: emits_def)

lemma emits_trans:
  assumes "emits m m' as" and "emits m' m'' bs"
  shows "emits m m'' (as @ bs)"
proof -
  from assms obtain xs ys where "trace m' = trace m @ xs" "actions xs None = Some as"
    "trace m'' = trace m' @ ys" "actions ys None = Some bs"
    by (auto simp: emits_def)
  then have "trace m'' = trace m @ (xs @ ys)" "actions (xs @ ys) None = Some (as @ bs)"
    by (simp_all add: actions_append)
  then show ?thesis unfolding emits_def by blast
qed

lemma emits_Cons:
  assumes "emits m m' [a]" and "emits m' m'' as"
  shows "emits m m'' (a # as)"
  using emits_trans [OF assms] by simp

lemma emits_unique: "emits m m' as \<Longrightarrow> emits m m' bs \<Longrightarrow> as = bs"
  by (auto simp: emits_def)

lemma emits_ext_call:
  assumes "c \<noteq> Gpio_write PIN LOW" and "c \<noteq> Gpio_write PIN HIGH"
  shows "emits m (snd (ext_call E c m)) [Ext c (fst (ext_call E c m))]"
  using assms by (simp add: emits_def log_simps)

lemma emits_ext_do:
  assumes "c \<noteq> Gpio_write PIN LOW" and "c \<noteq> Gpio_write PIN HIGH"
  shows "emits m (ext_do E c m) [Ext c (fst (ext_call E c m))]"
  using assms by (simp add: emits_def log_simps)

lemma emits_clock:
  "emits m (snd (clock_gettime E m))
     [Clock (fst (fst (clock_gettime E m))) (snd (fst (clock_gettime E m)))]"
  by (simp add: emits_def log_simps)

lemma emits_file_read:
  "emits m (snd (file_read E n m)) [File_data n (fst (file_read E n m))]"
  by (simp add: emits_def log_simps)

text \<open>One frame: select, transfer, deselect.\<close>

lemma emits_frame:
  assumes "trace m' = trace m @ Call (Gpio_write PIN LOW) r #
             map (\<lambda>(b, r). Xfer b r) brs @ [Call (Gpio_write PIN HIGH) r']"
    and "decode_frame brs = Some a"
  shows "emits m m' [a]"
  using assms by (simp add: emits_def actions_xfers)

end
