(* ===== verification/Bench.thy ===== *)
theory Bench
  imports Platform
begin

section \<open>Concrete platforms\<close>

text \<open>
  Three platforms on which the properties are applied to concrete inputs. \<open>bench\<close> answers the byte
  at position \<open>n\<close> of every frame with \<open>f n\<close>; its world is the position. \<open>script\<close> answers the
  transfers with the bytes of a list, then with zeros; its world is the rest of the list. \<open>regs\<close>
  is a chip with registers \<open>rf\<close> and core registers \<open>cf\<close> that do not change: it answers a read frame
  with the bytes of the addressed register, where the CSR data register gives the core register
  that the last command named; its world is the bytes received in the frame and the address in
  the last command. Calls are answered by a function \<open>R\<close>.
\<close>

definition bench :: "(call \<Rightarrow> int) \<Rightarrow> (nat \<Rightarrow> u8) \<Rightarrow> nat platform" where
  "bench R f = \<lparr>xcall = (\<lambda>c n. (R c, if c = Gpio_write PIN LOW then 0 else n)),
     xfer = (\<lambda>b n. (f n, Suc n)), clock = (\<lambda>n. ((0, 0), n)), fread = (\<lambda>k n. (None, n)),
     indet = (\<lambda>n. 0)\<rparr>"

definition script :: "(call \<Rightarrow> int) \<Rightarrow> u8 list platform" where
  "script R = \<lparr>xcall = (\<lambda>c bs. (R c, bs)),
     xfer = (\<lambda>b bs. case bs of [] \<Rightarrow> (0, []) | r # bs \<Rightarrow> (r, bs)),
     clock = (\<lambda>bs. ((0, 0), bs)), fread = (\<lambda>k bs. (None, bs)), indet = (\<lambda>bs. 0)\<rparr>"

abbreviation start :: "'w \<Rightarrow> 'w machine" where
  "start w \<equiv> \<lparr>env = w, trace = []\<rparr>"

lemma bench_simps [simp]:
  "xcall (bench R f) c n = (R c, if c = Gpio_write PIN LOW then 0 else n)"
  "xfer (bench R f) b n = (f n, Suc n)"
  "indet (bench R f) n = 0"
  by (simp_all add: bench_def)

lemma script_simps [simp]:
  "xcall (script R) c bs = (R c, bs)"
  "xfer (script R) b [] = (0, [])"
  "xfer (script R) b (r # bs) = (r, bs)"
  "indet (script R) bs = 0"
  by (simp_all add: script_def)

definition frame_address :: "u8 list \<Rightarrow> u16" where
  "frame_address bs = slice_put (slice_put 0 1 (bs ! 1)) 0 (bs ! 2)"

definition regs :: "(call \<Rightarrow> int) \<Rightarrow> (u16 \<Rightarrow> u32) \<Rightarrow> (u16 \<Rightarrow> u32) \<Rightarrow> (u8 list \<times> u16) platform" where
  "regs R rf cf = \<lparr>
     xcall = (\<lambda>c (bs, a). (R c, if c = Gpio_write PIN LOW then [] else bs, a)),
     xfer = (\<lambda>b (bs, a).
       (if 3 \<le> length bs \<and> hd bs = 3
        then slice_get (if frame_address bs = 0x0300 then cf a else rf (frame_address bs)) (length bs - 3)
        else 0,
        bs @ [b],
        if 3 \<le> length bs \<and> length bs < 5 \<and> hd bs = 2 \<and> frame_address bs = 0x0304
        then slice_put a (length bs - 3) b else a)),
     clock = (\<lambda>w. ((1, 5), w)), fread = (\<lambda>k w. (None, w)), indet = (\<lambda>w. 0)\<rparr>"

lemma regs_simps [simp]:
  "xcall (regs R rf cf) c (bs, a) = (R c, if c = Gpio_write PIN LOW then [] else bs, a)"
  "xfer (regs R rf cf) b (bs, a) =
     (if 3 \<le> length bs \<and> hd bs = 3
      then slice_get (if frame_address bs = 0x0300 then cf a else rf (frame_address bs)) (length bs - 3)
      else 0,
      bs @ [b],
      if 3 \<le> length bs \<and> length bs < 5 \<and> hd bs = 2 \<and> frame_address bs = 0x0304
      then slice_put a (length bs - 3) b else a)"
  "indet (regs R rf cf) w = 0"
  by (simp_all add: regs_def)

lemma ext_call_regs [simp]: "fst (ext_call (regs R rf cf) c m) = R c"
  by (cases "env m") (simp add: ext_call_def regs_def)

lemma ext_call_regsD: "ext_call (regs R rf cf) c m = (r, m') \<Longrightarrow> r = R c"
  using ext_call_regs [of R rf cf c m] by simp

end
