(* ===== verification/Spi_Regs.thy ===== *)
theory Spi_Regs
  imports Bench
begin

section \<open>Register access over SPI\<close>

text \<open>
  The register constants of \<open>include/rpi_base/rpi_base.h\<close>, the unions \<open>UWORD\<close> and \<open>ULONG\<close>, and
  the access functions of class \<open>rpi_base\<close> in \<open>rpi_base/src/rpi_base.cpp\<close>: \<open>SPI_Write\<close>,
  \<open>SPI_Read\<close>, \<open>Read_Reg\<close>, \<open>Write_Reg\<close> (directly addressable registers), \<open>Read_Reg_Wait\<close> and
  \<open>Write_Reg_Wait\<close> (the EtherCAT core registers behind the CSR interface).
  A result \<open>None\<close> stands for a run that has no result: a polling loop that never ends, or a store
  outside an array.
\<close>

subsection \<open>Constants\<close>

abbreviation (input) RESET_CTL :: u16 where "RESET_CTL \<equiv> 0x01F8"
abbreviation (input) ECAT_CSR_DATA :: u16 where "ECAT_CSR_DATA \<equiv> 0x0300"
abbreviation (input) ECAT_CSR_CMD :: u16 where "ECAT_CSR_CMD \<equiv> 0x0304"
abbreviation (input) ECAT_PRAM_RD_ADDR_LEN :: u16 where "ECAT_PRAM_RD_ADDR_LEN \<equiv> 0x0308"
abbreviation (input) ECAT_PRAM_RD_CMD :: u16 where "ECAT_PRAM_RD_CMD \<equiv> 0x030C"
abbreviation (input) ECAT_PRAM_WR_ADDR_LEN :: u16 where "ECAT_PRAM_WR_ADDR_LEN \<equiv> 0x0310"
abbreviation (input) ECAT_PRAM_WR_CMD :: u16 where "ECAT_PRAM_WR_CMD \<equiv> 0x0314"
abbreviation (input) ECAT_PRAM_RD_DATA :: u16 where "ECAT_PRAM_RD_DATA \<equiv> 0x0000"
abbreviation (input) ECAT_PRAM_WR_DATA :: u16 where "ECAT_PRAM_WR_DATA \<equiv> 0x0020"
abbreviation (input) IRQ_CFG :: u16 where "IRQ_CFG \<equiv> 0x0054"
abbreviation (input) INT_EN :: u16 where "INT_EN \<equiv> 0x005C"
abbreviation (input) BYTE_TEST :: u16 where "BYTE_TEST \<equiv> 0x0064"
abbreviation (input) HW_CFG :: u16 where "HW_CFG \<equiv> 0x0074"

abbreviation (input) AL_STATUS_REG_0 :: u16 where "AL_STATUS_REG_0 \<equiv> 0x0130"
abbreviation (input) AL_EVENT_MASK_REG_0 :: u16 where "AL_EVENT_MASK_REG_0 \<equiv> 0x0204"
abbreviation (input) WDOG_STATUS :: u16 where "WDOG_STATUS \<equiv> 0x0440"

abbreviation (input) ECAT_CSR_BUSY :: u8 where "ECAT_CSR_BUSY \<equiv> 0x80"
abbreviation (input) PRAM_READ_AVAIL :: u8 where "PRAM_READ_AVAIL \<equiv> 0x01"
abbreviation (input) PRAM_WRITE_AVAIL :: u8 where "PRAM_WRITE_AVAIL \<equiv> 0x01"
abbreviation (input) READY :: u32 where "READY \<equiv> 0x08000000"
abbreviation (input) DIGITAL_RST :: u64 where "DIGITAL_RST \<equiv> 0x00000001"

abbreviation (input) ESM_INIT :: u8 where "ESM_INIT \<equiv> 0x01"
abbreviation (input) ESM_PREOP :: u8 where "ESM_PREOP \<equiv> 0x02"
abbreviation (input) ESM_BOOT :: u8 where "ESM_BOOT \<equiv> 0x03"
abbreviation (input) ESM_SAFEOP :: u8 where "ESM_SAFEOP \<equiv> 0x04"
abbreviation (input) ESM_OP :: u8 where "ESM_OP \<equiv> 0x08"

abbreviation (input) ESC_WRITE :: u8 where "ESC_WRITE \<equiv> 0x80"
abbreviation (input) ESC_READ :: u8 where "ESC_READ \<equiv> 0xC0"

abbreviation (input) COMM_SPI_READ :: u8 where "COMM_SPI_READ \<equiv> 0x03"
abbreviation (input) COMM_SPI_WRITE :: u8 where "COMM_SPI_WRITE \<equiv> 0x02"
abbreviation (input) DUMMY_BYTE :: u8 where "DUMMY_BYTE \<equiv> 0xFF"

subsection \<open>The unions\<close>

text \<open>\<open>UWORD\<close> and \<open>ULONG\<close>: the member \<open>Word\<close> or \<open>Long\<close> is the word itself, \<open>Byte[i]\<close> a slice.\<close>

type_synonym UWORD = u16
type_synonym ULONG = u32

abbreviation Byte :: "'a::len word \<Rightarrow> nat \<Rightarrow> u8" where
  "Byte u i \<equiv> slice_get u i"

abbreviation set_Byte :: "'a::len word \<Rightarrow> nat \<Rightarrow> u8 \<Rightarrow> 'a word" where
  "set_Byte u i b \<equiv> slice_put u i b"

text \<open>The first \<open>n\<close> bytes of a word, least significant first.\<close>

definition le_bytes :: "nat \<Rightarrow> 'a::len word \<Rightarrow> u8 list" where
  "le_bytes n w = map (Byte w) [0..<n]"

lemma length_le_bytes [simp]: "length (le_bytes n w) = n"
  by (simp add: le_bytes_def)

lemma nth_le_bytes [simp]: "i < n \<Longrightarrow> le_bytes n w ! i = Byte w i"
  by (simp add: le_bytes_def)

lemma le_bytes_append_last: "le_bytes (Suc n) w = le_bytes n w @ [Byte w n]"
  by (simp add: le_bytes_def)

lemma le_bytes_eqI: "length bs = n \<Longrightarrow> (\<And>i. i < n \<Longrightarrow> Byte w i = bs ! i) \<Longrightarrow> le_bytes n w = bs"
  by (rule nth_equalityI) simp_all

lemma le_bytes_inject32: "le_bytes 4 (v::u32) = le_bytes 4 w \<longleftrightarrow> v = w"
proof
  assume eq: "le_bytes 4 v = le_bytes 4 w"
  show "v = w"
  proof (rule long_bytes.view_ext)
    fix i :: nat assume "i < 4"
    then show "Byte v i = Byte w i" using arg_cong [OF eq, of "\<lambda>bs. bs ! i"] by simp
  qed
qed simp

lemma uword_of_bytes: "set_Byte (set_Byte 0 1 (Byte (a::u16) 1)) 0 (Byte a 0) = a"
proof (rule word_bytes.view_ext)
  fix i :: nat assume "i < 2"
  then have "i = 0 \<or> i = 1" by auto
  then show "Byte (set_Byte (set_Byte (0::u16) 1 (Byte a 1)) 0 (Byte a 0)) i = Byte a i"
    by (auto simp: word_bytes.get_put_same word_bytes.get_put_other)
qed

subsection \<open>Byte transfers and chip select\<close>

definition SCS_Low_macro :: "'w platform \<Rightarrow> 'w machine \<Rightarrow> 'w machine" where
  "SCS_Low_macro E m = ext_do E (Gpio_write PIN LOW) m"

definition SCS_High_macro :: "'w platform \<Rightarrow> 'w machine \<Rightarrow> 'w machine" where
  "SCS_High_macro E m = ext_do E (Gpio_write PIN HIGH) m"

definition SPI_Write :: "'w platform \<Rightarrow> u8 \<Rightarrow> 'w machine \<Rightarrow> 'w machine" where
  "SPI_Write E Data m = snd (bcm2835_spi_transfer E Data m)"

definition SPI_Read :: "'w platform \<Rightarrow> u8 \<Rightarrow> 'w machine \<Rightarrow> u8 \<times> 'w machine" where
  "SPI_Read E Data m = bcm2835_spi_transfer E Data m"

text \<open>
  The loop \<open>for (i = ...) u.Byte[i] = SPI_Read(DUMMY_BYTE)\<close> with \<open>n\<close> rounds to go, over a union
  of any size.
\<close>

fun read_loop :: "'w platform \<Rightarrow> nat \<Rightarrow> nat \<Rightarrow> 'a::len word \<Rightarrow> 'w machine \<Rightarrow> 'a word \<times> 'w machine" where
  "read_loop E i 0 u m = (u, m)"
| "read_loop E i (Suc n) u m =
     (let (b, m) = SPI_Read E DUMMY_BYTE m in read_loop E (Suc i) n (set_Byte u i b) m)"

text \<open>The loop \<open>for (i = ...) SPI_Write(u.Byte[i])\<close> with \<open>n\<close> rounds to go.\<close>

fun write_loop :: "'w platform \<Rightarrow> nat \<Rightarrow> nat \<Rightarrow> 'a::len word \<Rightarrow> 'w machine \<Rightarrow> 'w machine" where
  "write_loop E i 0 u m = m"
| "write_loop E i (Suc n) u m = write_loop E (Suc i) n u (SPI_Write E (Byte u i) m)"

lemma log_SCS_Low:
  "\<exists>r. trace (SCS_Low_macro E m) = trace m @ [Call (Gpio_write PIN LOW) r]"
  by (simp add: SCS_Low_macro_def log_simps)

lemma log_SCS_High:
  "\<exists>r. trace (SCS_High_macro E m) = trace m @ [Call (Gpio_write PIN HIGH) r]"
  by (simp add: SCS_High_macro_def log_simps)

lemma log_SPI_Write: "\<exists>r. trace (SPI_Write E b m) = trace m @ [Xfer b r]"
  by (simp add: SPI_Write_def log_simps)

lemma log_read_loop:
  "read_loop E i n u m = (u', m') \<Longrightarrow>
   \<exists>bs. length bs = n \<and> trace m' = trace m @ map (\<lambda>(b, r). Xfer b r) (map (Pair DUMMY_BYTE) bs) \<and>
        u' = fold (\<lambda>(i, c) s. set_Byte s i c) (enumerate i bs) u"
proof (induction n arbitrary: i u m)
  case 0
  then show ?case by simp
next
  case (Suc n)
  obtain b m1 where b: "SPI_Read E DUMMY_BYTE m = (b, m1)" by fastforce
  then have log1: "trace m1 = trace m @ [Xfer DUMMY_BYTE b]"
    using log_spi_transfer [of E DUMMY_BYTE m] by (simp add: SPI_Read_def)
  from Suc.prems b have "read_loop E (Suc i) n (set_Byte u i b) m1 = (u', m')" by simp
  from Suc.IH [OF this] obtain bs where "length bs = n"
    "trace m' = trace m1 @ map (\<lambda>(b, r). Xfer b r) (map (Pair DUMMY_BYTE) bs)"
    "u' = fold (\<lambda>(i, c) s. set_Byte s i c) (enumerate (Suc i) bs) (set_Byte u i b)"
    by blast
  with log1 show ?case by (intro exI [of _ "b # bs"]) simp
qed

lemma log_write_loop:
  "\<exists>rs. length rs = n \<and>
     trace (write_loop E i n u m) =
       trace m @ map (\<lambda>(b, r). Xfer b r) (zip (map (Byte u) [i..<i + n]) rs)"
proof (induction n arbitrary: i m)
  case 0
  then show ?case by simp
next
  case (Suc n)
  obtain r where r: "trace (SPI_Write E (Byte u i) m) = trace m @ [Xfer (Byte u i) r]"
    using log_SPI_Write by blast
  obtain rs where rs: "length rs = n"
    "trace (write_loop E (Suc i) n u (SPI_Write E (Byte u i) m)) =
       trace (SPI_Write E (Byte u i) m) @
       map (\<lambda>(b, r). Xfer b r) (zip (map (Byte u) [Suc i..<Suc i + n]) rs)"
    using Suc.IH by blast
  have "[i..<i + Suc n] = i # [Suc i..<Suc i + n]" by (simp add: upt_rec)
  with r rs show ?case by (intro exI [of _ "r # rs"]) simp
qed

subsection \<open>Directly addressable registers\<close>

definition Read_Reg ::
  "'w platform \<Rightarrow> u16 \<Rightarrow> u8 \<Rightarrow> 'w machine \<Rightarrow> (u64 \<times> 'w machine) option" where
  "Read_Reg E Address Len m =
     (let Result = indet E (env m);
          Addr = Address;
          m = SCS_Low_macro E m;
          m = SPI_Write E COMM_SPI_READ m;
          m = SPI_Write E (Byte Addr 1) m;
          m = SPI_Write E (Byte Addr 0) m
      in if unat Len \<le> 4 then
           (let (Result, m) = read_loop E 0 (unat Len) Result m;
                m = SCS_High_macro E m
            in Some (ucast (Result :: ULONG), m))
         else None)"

definition Write_Reg :: "'w platform \<Rightarrow> u16 \<Rightarrow> u64 \<Rightarrow> 'w machine \<Rightarrow> 'w machine" where
  "Write_Reg E Address DataOut m =
     (let Addr = Address;
          Data = (ucast DataOut :: ULONG);
          m = SCS_Low_macro E m;
          m = SPI_Write E COMM_SPI_WRITE m;
          m = SPI_Write E (Byte Addr 1) m;
          m = SPI_Write E (Byte Addr 0) m;
          m = SPI_Write E (Byte Data 0) m;
          m = SPI_Write E (Byte Data 1) m;
          m = SPI_Write E (Byte Data 2) m;
          m = SPI_Write E (Byte Data 3) m
      in SCS_High_macro E m)"

text \<open>The header of a frame, for the operations that follow it with a loop.\<close>

lemma log_frame_header:
  "\<exists>r r1 r2 r3. trace (SPI_Write E l (SPI_Write E h (SPI_Write E c (SCS_Low_macro E m)))) =
     trace m @ Call (Gpio_write PIN LOW) r # map (\<lambda>(b, r). Xfer b r) [(c, r1), (h, r2), (l, r3)]"
proof -
  obtain r r1 r2 r3 where
    "trace (SCS_Low_macro E m) = trace m @ [Call (Gpio_write PIN LOW) r]"
    "trace (SPI_Write E c (SCS_Low_macro E m)) = trace (SCS_Low_macro E m) @ [Xfer c r1]"
    "trace (SPI_Write E h (SPI_Write E c (SCS_Low_macro E m))) =
       trace (SPI_Write E c (SCS_Low_macro E m)) @ [Xfer h r2]"
    "trace (SPI_Write E l (SPI_Write E h (SPI_Write E c (SCS_Low_macro E m)))) =
       trace (SPI_Write E h (SPI_Write E c (SCS_Low_macro E m))) @ [Xfer l r3]"
    using log_SCS_Low log_SPI_Write by meson
  then show ?thesis by simp
qed

lemma le_bytes_fill:
  fixes u :: "'a::len word"
  assumes "LENGTH('a) = 8 * cells" and "length bs \<le> cells"
  shows "le_bytes (length bs) (fold (\<lambda>(i, c) s. set_Byte s i c) (enumerate 0 bs) u) = bs"
proof (rule le_bytes_eqI)
  fix i assume "i < length bs"
  have v: "union_view (slice_get :: 'a word \<Rightarrow> nat \<Rightarrow> u8) slice_put cells"
    by (rule union_view_slices) (simp add: assms(1))
  show "Byte (fold (\<lambda>(i, c) s. set_Byte s i c) (enumerate 0 bs) u) i = bs ! i"
    using union_view.get_fill [OF v, of 0 bs u i] \<open>i < length bs\<close> assms(2) by simp
qed simp

lemma decode_read: "decode_frame ([(COMM_SPI_READ, r1), (Byte a 1, r2), (Byte a 0, r3)] @
    map (Pair DUMMY_BYTE) bs) = Some (Reg_read a bs)"
  by (simp add: Let_def uword_of_bytes [simplified] comp_def)

lemma decode_write: "length rs = length bs \<Longrightarrow>
  decode_frame ([(COMM_SPI_WRITE, r1), (Byte a 1, r2), (Byte a 0, r3)] @ zip bs rs) =
    Some (Reg_write a bs)"
  by (simp add: Let_def uword_of_bytes [simplified])

text \<open>A read frame: header, \<open>n\<close> bytes stored into a union of any size, deselect.\<close>

lemma emits_read_frame:
  fixes u' :: "'a::len word"
  assumes loop: "read_loop E 0 n u (SPI_Write E (Byte a 0) (SPI_Write E (Byte a 1)
             (SPI_Write E COMM_SPI_READ (SCS_Low_macro E m)))) = (u', m')"
    and "LENGTH('a) = 8 * cells" and "n \<le> cells"
  shows "emits m (SCS_High_macro E m') [Reg_read a (le_bytes n u')]"
proof -
  let ?x = "\<lambda>(b, r). Xfer b r"
  obtain bs where bs: "length bs = n"
    "trace m' = trace (SPI_Write E (Byte a 0) (SPI_Write E (Byte a 1)
        (SPI_Write E COMM_SPI_READ (SCS_Low_macro E m)))) @ map ?x (map (Pair DUMMY_BYTE) bs)"
    "u' = fold (\<lambda>(i, c) s. set_Byte s i c) (enumerate 0 bs) u"
    using log_read_loop [OF loop] by blast
  obtain r r1 r2 r3 where hd: "trace (SPI_Write E (Byte a 0) (SPI_Write E (Byte a 1)
        (SPI_Write E COMM_SPI_READ (SCS_Low_macro E m)))) =
      trace m @ Call (Gpio_write PIN LOW) r #
        map ?x [(COMM_SPI_READ, r1), (Byte a 1, r2), (Byte a 0, r3)]"
    using log_frame_header by blast
  obtain r' where "trace (SCS_High_macro E m') = trace m' @ [Call (Gpio_write PIN HIGH) r']"
    using log_SCS_High by blast
  with bs(2) hd have log: "trace (SCS_High_macro E m') = trace m @ Call (Gpio_write PIN LOW) r #
      map ?x ([(COMM_SPI_READ, r1), (Byte a 1, r2), (Byte a 0, r3)] @
        map (Pair DUMMY_BYTE) bs) @ [Call (Gpio_write PIN HIGH) r']"
    by simp
  have "le_bytes n u' = bs" using bs(1,3) assms(2,3) le_bytes_fill by blast
  with emits_frame [OF log decode_read] show ?thesis by simp
qed

text \<open>A write frame whose data bytes are sent by some code that logs them in order.\<close>

lemma emits_write_frame:
  assumes "trace m' = trace (SPI_Write E (Byte a 0) (SPI_Write E (Byte a 1)
             (SPI_Write E COMM_SPI_WRITE (SCS_Low_macro E m)))) @
             map (\<lambda>(b, r). Xfer b r) (zip bs rs)"
    and "length rs = length bs"
  shows "emits m (SCS_High_macro E m') [Reg_write a bs]"
proof -
  let ?x = "\<lambda>(b, r). Xfer b r"
  obtain r r1 r2 r3 where hd: "trace (SPI_Write E (Byte a 0) (SPI_Write E (Byte a 1)
        (SPI_Write E COMM_SPI_WRITE (SCS_Low_macro E m)))) =
      trace m @ Call (Gpio_write PIN LOW) r #
        map ?x [(COMM_SPI_WRITE, r1), (Byte a 1, r2), (Byte a 0, r3)]"
    using log_frame_header by blast
  obtain r' where "trace (SCS_High_macro E m') = trace m' @ [Call (Gpio_write PIN HIGH) r']"
    using log_SCS_High by blast
  with assms(1) hd have log: "trace (SCS_High_macro E m') = trace m @ Call (Gpio_write PIN LOW) r #
      map ?x ([(COMM_SPI_WRITE, r1), (Byte a 1, r2), (Byte a 0, r3)] @ zip bs rs) @
      [Call (Gpio_write PIN HIGH) r']"
    by simp
  show ?thesis by (rule emits_frame [OF log decode_write [OF assms(2)]])
qed

lemma Read_Reg_total: "unat n \<le> 4 \<Longrightarrow> \<exists>v m'. Read_Reg E a n m = Some (v, m')"
  by (simp add: Read_Reg_def Let_def split: prod.split)

lemma Read_Reg_emits:
  assumes "Read_Reg E a n m = Some (v, m')"
  shows "emits m m' [Reg_read a (le_bytes (unat n) (ucast v :: ULONG))]"
    and "v = ucast (ucast v :: ULONG)" and "unat n \<le> 4"
proof -
  from assms show n: "unat n \<le> 4" by (simp add: Read_Reg_def Let_def split: if_splits)
  with assms obtain r m1 where
    loop: "read_loop E 0 (unat n) (indet E (env m)) (SPI_Write E (Byte a 0) (SPI_Write E (Byte a 1)
             (SPI_Write E COMM_SPI_READ (SCS_Low_macro E m)))) = (r, m1)"
    and v: "v = ucast r" "m' = SCS_High_macro E m1"
    by (auto simp: Read_Reg_def Let_def split: prod.splits)
  have r: "(ucast v :: ULONG) = r" by (simp add: v)
  then show "v = ucast (ucast v :: ULONG)" by (simp add: v)
  show "emits m m' [Reg_read a (le_bytes (unat n) (ucast v :: ULONG))]"
    unfolding r v(2) using loop by (rule emits_read_frame [where cells = 4]) (simp_all add: n)
qed

lemma Write_Reg_emits: "emits m (Write_Reg E a d m) [Reg_write a (le_bytes 4 (ucast d :: ULONG))]"
proof -
  let ?D = "ucast d :: ULONG"
  let ?m = "SPI_Write E (Byte a 0) (SPI_Write E (Byte a 1)
             (SPI_Write E COMM_SPI_WRITE (SCS_Low_macro E m)))"
  let ?m' = "SPI_Write E (Byte ?D 3) (SPI_Write E (Byte ?D 2)
              (SPI_Write E (Byte ?D 1) (SPI_Write E (Byte ?D 0) ?m)))"
  have "le_bytes 4 ?D = [Byte ?D 0, Byte ?D 1, Byte ?D 2, Byte ?D 3]"
    by (simp add: le_bytes_def upt_rec numeral_nat)
  moreover obtain r0 r1 r2 r3 where
    "trace (SPI_Write E (Byte ?D 0) ?m) = trace ?m @ [Xfer (Byte ?D 0) r0]"
    "trace (SPI_Write E (Byte ?D 1) (SPI_Write E (Byte ?D 0) ?m)) =
       trace (SPI_Write E (Byte ?D 0) ?m) @ [Xfer (Byte ?D 1) r1]"
    "trace (SPI_Write E (Byte ?D 2) (SPI_Write E (Byte ?D 1) (SPI_Write E (Byte ?D 0) ?m))) =
       trace (SPI_Write E (Byte ?D 1) (SPI_Write E (Byte ?D 0) ?m)) @ [Xfer (Byte ?D 2) r2]"
    "trace ?m' = trace (SPI_Write E (Byte ?D 2) (SPI_Write E (Byte ?D 1)
       (SPI_Write E (Byte ?D 0) ?m))) @ [Xfer (Byte ?D 3) r3]"
    using log_SPI_Write by meson
  ultimately have log: "trace ?m' = trace ?m @
      map (\<lambda>(b, r). Xfer b r) (zip (le_bytes 4 ?D) [r0, r1, r2, r3])"
    by simp
  have "emits m (SCS_High_macro E ?m') [Reg_write a (le_bytes 4 ?D)]"
    by (rule emits_write_frame [OF log]) simp
  then show ?thesis by (simp add: Write_Reg_def Let_def)
qed

subsection \<open>Waiting for a register\<close>

text \<open>The statement \<open>TempLong.Long = Read_Reg(Address, 4)\<close>: the \<open>unsigned long\<close> is cut to 32 bits.\<close>

definition Read_Long :: "'w platform \<Rightarrow> u16 \<Rightarrow> 'w machine \<Rightarrow> (ULONG \<times> 'w machine) option" where
  "Read_Long E Address m = do {
     (r, m) \<leftarrow> Read_Reg E Address 4 m;
     Some (ucast r, m)
   }"

text \<open>
  The loop \<open>do { TempLong.Long = ... } while (busy)\<close>. It has no bound in the code, so it is a
  partial function: \<open>None\<close> when every reading is busy.
\<close>

partial_function (option) poll ::
  "('s \<Rightarrow> ('v \<times> 's) option) \<Rightarrow> ('v \<Rightarrow> bool) \<Rightarrow> 's \<Rightarrow> ('v \<times> 's) option" where
  "poll rd busy s = do {
     (v, s) \<leftarrow> rd s;
     if busy v then poll rd busy s else Some (v, s)
   }"

text \<open>The \<open>n\<close>-th reading (from 0) of the same port.\<close>

fun reading :: "('s \<Rightarrow> ('v \<times> 's) option) \<Rightarrow> nat \<Rightarrow> 's \<Rightarrow> ('v \<times> 's) option" where
  "reading rd 0 s = rd s"
| "reading rd (Suc n) s = do { (v, s) \<leftarrow> rd s; reading rd n s }"

lemma poll_some_reading:
  assumes "poll rd busy s = Some r"
  shows "\<exists>n. reading rd n s = Some r \<and> \<not> busy (fst r)"
proof (rule poll.raw_induct
    [where P = "\<lambda>rd busy s r. \<exists>n. reading rd n s = Some r \<and> \<not> busy (fst r)", OF _ assms])
  fix f :: "('s \<Rightarrow> ('v \<times> 's) option) \<Rightarrow> ('v \<Rightarrow> bool) \<Rightarrow> 's \<Rightarrow> ('v \<times> 's) option"
  fix rd busy s r
  assume IH: "\<And>rd busy s r. f rd busy s = Some r \<Longrightarrow> \<exists>n. reading rd n s = Some r \<and> \<not> busy (fst r)"
    and eq: "(rd s \<bind> (\<lambda>(v, s). if busy v then f rd busy s else Some (v, s))) = Some r"
  from eq obtain u t where rd: "rd s = Some (u, t)"
    and rest: "(if busy u then f rd busy t else Some (u, t)) = Some r"
    by (auto simp: bind_Some_iff)
  show "\<exists>n. reading rd n s = Some r \<and> \<not> busy (fst r)"
  proof (cases "busy u")
    case True
    with rest have "f rd busy t = Some r" by simp
    from IH [OF this] obtain n where "reading rd n t = Some r" "\<not> busy (fst r)" by blast
    with rd show ?thesis by (intro exI [of _ "Suc n"]) simp
  next
    case False
    with rest rd show ?thesis by (intro exI [of _ 0]) auto
  qed
qed

text \<open>
  The interface the waiting loops rely on: reading always gives a value, and appears on the bus
  as one access whose bytes are that value.
\<close>

locale polled_port =
  fixes rd :: "'w machine \<Rightarrow> ('v \<times> 'w machine) option"
    and access :: "'v \<Rightarrow> action"
  assumes rd_total: "\<exists>v s'. rd s = Some (v, s')"
    and rd_emits: "rd s = Some (v, s') \<Longrightarrow> emits s s' [access v]"
begin

lemma poll_returns_at:
  "reading rd n s = Some (v, s') \<Longrightarrow> \<not> busy v \<Longrightarrow>
   (\<And>k u t. k < n \<Longrightarrow> reading rd k s = Some (u, t) \<Longrightarrow> busy u) \<Longrightarrow>
   poll rd busy s = Some (v, s') \<and>
   (\<exists>vs. length vs = n \<and> emits s s' (map access (vs @ [v])) \<and> (\<forall>u \<in> set vs. busy u))"
proof (induction n arbitrary: s)
  case 0
  then show ?case using rd_emits by (auto simp: poll.simps)
next
  case (Suc n)
  from rd_total obtain u t where rd: "rd s = Some (u, t)" by blast
  from Suc.prems(3) [of 0 u t] rd have busy: "busy u" by simp
  have "poll rd busy t = Some (v, s') \<and>
    (\<exists>vs. length vs = n \<and> emits t s' (map access (vs @ [v])) \<and> (\<forall>u \<in> set vs. busy u))"
  proof (rule Suc.IH)
    from Suc.prems(1) rd show "reading rd n t = Some (v, s')" by simp
    fix k w r assume "k < n" "reading rd k t = Some (w, r)"
    with Suc.prems(3) [of "Suc k" w r] rd show "busy w" by simp
  qed (rule Suc.prems(2))
  then obtain vs where vs: "poll rd busy t = Some (v, s')" "length vs = n" "\<forall>u \<in> set vs. busy u"
    "emits t s' (map access (vs @ [v]))" by blast
  have "emits s s' (map access ((u # vs) @ [v]))"
    using emits_Cons [OF rd_emits [OF rd] vs(4)] by simp
  with vs busy rd show ?case
    by (auto simp: poll.simps intro!: exI [of _ "u # vs"])
qed

text \<open>
  The loop returns exactly when some reading is not busy, and returns the first such one: the
  bus shows the busy readings, then the result.
\<close>

lemma poll_first:
  assumes "reading rd n s = Some (v, s')" and "\<not> busy v"
  obtains k u t vs where "k \<le> n" "reading rd k s = Some (u, t)" "poll rd busy s = Some (u, t)"
    "\<not> busy u" "emits s t (map access (vs @ [u]))" "\<forall>w \<in> set vs. busy w"
proof -
  let ?Q = "\<lambda>n. \<exists>v s'. reading rd n s = Some (v, s') \<and> \<not> busy v"
  from assms have "?Q n" by blast
  then obtain k where k: "?Q k" "\<And>j. j < k \<Longrightarrow> \<not> ?Q j" "k \<le> n"
    using exists_least_iff [of ?Q] by (metis not_less)
  then obtain u t where ut: "reading rd k s = Some (u, t)" "\<not> busy u" by blast
  then have "poll rd busy s = Some (u, t) \<and>
    (\<exists>vs. length vs = k \<and> emits s t (map access (vs @ [u])) \<and> (\<forall>u \<in> set vs. busy u))"
    using k(2) by (intro poll_returns_at) auto
  with ut k(3) show ?thesis by (auto intro: that)
qed

lemma poll_result:
  assumes "poll rd busy s = Some (v, s')"
  shows "\<not> busy v"
    and "\<exists>vs. emits s s' (map access (vs @ [v])) \<and> (\<forall>u \<in> set vs. busy u)"
proof -
  from poll_some_reading [OF assms] obtain n where
    "reading rd n s = Some (v, s')" "\<not> busy v" by auto
  then obtain k u t vs where "poll rd busy s = Some (u, t)"
    "\<not> busy u" "emits s t (map access (vs @ [u]))" "\<forall>w \<in> set vs. busy w"
    by (rule poll_first [where busy = busy])
  with assms show "\<not> busy v"
    and "\<exists>vs. emits s s' (map access (vs @ [v])) \<and> (\<forall>u \<in> set vs. busy u)"
    by auto
qed

lemma poll_returns_iff:
  "(\<exists>r. poll rd busy s = Some r) \<longleftrightarrow> (\<exists>n v s'. reading rd n s = Some (v, s') \<and> \<not> busy v)"
proof
  assume "\<exists>r. poll rd busy s = Some r"
  then show "\<exists>n v s'. reading rd n s = Some (v, s') \<and> \<not> busy v"
    using poll_some_reading by fastforce
next
  assume "\<exists>n v s'. reading rd n s = Some (v, s') \<and> \<not> busy v"
  then obtain n v s' where "reading rd n s = Some (v, s')" "\<not> busy v" by blast
  then show "\<exists>r. poll rd busy s = Some r" by (rule poll_first [where busy = busy]) blast
qed

end

lemma Read_Long_total: "\<exists>v m'. Read_Long E a m = Some (v, m')"
  using Read_Reg_total [of 4 E a m] by (auto simp: Read_Long_def)

lemma Read_Long_emits: "Read_Long E a m = Some (v, m') \<Longrightarrow> emits m m' [Reg_read a (le_bytes 4 v)]"
  using Read_Reg_emits(1) [of E a 4 m] by (auto simp: Read_Long_def bind_Some_iff)

interpretation long_port: polled_port "Read_Long E a" "\<lambda>v. Reg_read a (le_bytes 4 v)" for E a
  by unfold_locales (auto intro: Read_Long_total Read_Long_emits)

subsection \<open>The registers of the EtherCAT core\<close>

definition csr_busy :: "ULONG \<Rightarrow> bool" where
  "csr_busy TempLong \<longleftrightarrow> Byte TempLong 3 AND ECAT_CSR_BUSY \<noteq> 0"

text \<open>The command word, composed in a \<open>ULONG\<close> that holds anything before.\<close>

definition csr_command :: "ULONG \<Rightarrow> UWORD \<Rightarrow> u8 \<Rightarrow> u8 \<Rightarrow> ULONG" where
  "csr_command TempLong Addr Len Cmd =
     (let TempLong = set_Byte TempLong 0 (Byte Addr 0);
          TempLong = set_Byte TempLong 1 (Byte Addr 1);
          TempLong = set_Byte TempLong 2 Len
      in set_Byte TempLong 3 Cmd)"

definition Read_Reg_Wait ::
  "'w platform \<Rightarrow> u16 \<Rightarrow> u8 \<Rightarrow> 'w machine \<Rightarrow> (u64 \<times> 'w machine) option" where
  "Read_Reg_Wait E Address Len m = do {
     let TempLong = csr_command (indet E (env m)) Address Len ESC_READ;
     let m = Write_Reg E ECAT_CSR_CMD (ucast TempLong) m;
     (TempLong, m) \<leftarrow> poll (Read_Long E ECAT_CSR_CMD) csr_busy m;
     (r, m) \<leftarrow> Read_Reg E ECAT_CSR_DATA Len m;
     let TempLong = (ucast r :: ULONG);
     Some (ucast TempLong, m)
   }"

definition Write_Reg_Wait ::
  "'w platform \<Rightarrow> u16 \<Rightarrow> u64 \<Rightarrow> 'w machine \<Rightarrow> 'w machine option" where
  "Write_Reg_Wait E Address DataOut m = do {
     let m = Write_Reg E ECAT_CSR_DATA DataOut m;
     let TempLong = csr_command (indet E (env m)) Address 4 ESC_WRITE;
     let m = Write_Reg E ECAT_CSR_CMD (ucast TempLong) m;
     (TempLong, m) \<leftarrow> poll (Read_Long E ECAT_CSR_CMD) csr_busy m;
     Some m
   }"

text \<open>The four byte stores leave nothing of what \<open>TempLong\<close> held before.\<close>

lemma le_bytes_command: "le_bytes 4 (csr_command u a n c) = [Byte a 0, Byte a 1, n, c]"
proof (rule le_bytes_eqI)
  fix i :: nat assume "i < 4"
  then have "i = 0 \<or> i = 1 \<or> i = 2 \<or> i = 3" by auto
  then show "Byte (csr_command u a n c) i = [Byte a 0, Byte a 1, n, c] ! i"
    by (auto simp: csr_command_def Let_def long_bytes.get_put_same long_bytes.get_put_other)
qed simp

text \<open>What the two operations look like on the bus.\<close>

definition csr_poll_actions :: "ULONG list \<Rightarrow> action list" where
  "csr_poll_actions ws = map (\<lambda>w. Reg_read ECAT_CSR_CMD (le_bytes 4 w)) ws"

definition polled :: "(ULONG \<Rightarrow> bool) \<Rightarrow> ULONG list \<Rightarrow> bool" where
  "polled busy ws \<longleftrightarrow> ws \<noteq> [] \<and> \<not> busy (last ws) \<and> (\<forall>w \<in> set (butlast ws). busy w)"

lemma poll_long_polled:
  assumes "poll (Read_Long E a) busy m = Some (v, m')"
  shows "\<exists>ws. polled busy ws \<and> last ws = v \<and>
           emits m m' (map (\<lambda>w. Reg_read a (le_bytes 4 w)) ws)"
proof -
  from long_port.poll_result [OF assms] obtain vs where "\<not> busy v" "\<forall>u \<in> set vs. busy u"
    "emits m m' (map (\<lambda>w. Reg_read a (le_bytes 4 w)) (vs @ [v]))" by blast
  then show ?thesis by (intro exI [of _ "vs @ [v]"]) (simp add: polled_def)
qed

lemma Read_Reg_Wait_emits:
  assumes "Read_Reg_Wait E a n m = Some (v, m')"
  shows "\<exists>ws. polled csr_busy ws \<and> emits m m'
           (Reg_write ECAT_CSR_CMD [Byte a 0, Byte a 1, n, ESC_READ] # csr_poll_actions ws @
            [Reg_read ECAT_CSR_DATA (le_bytes (unat n) (ucast v :: ULONG))])"
    and "v = ucast (ucast v :: ULONG)" and "unat n \<le> 4"
proof -
  let ?c = "csr_command (indet E (env m)) a n ESC_READ"
  from assms obtain w m1 r where
    poll: "poll (Read_Long E ECAT_CSR_CMD) csr_busy (Write_Reg E ECAT_CSR_CMD (ucast ?c) m) =
      Some (w, m1)"
    and rd: "Read_Reg E ECAT_CSR_DATA n m1 = Some (r, m')" and v: "v = ucast (ucast r :: ULONG)"
    by (auto simp: Read_Reg_Wait_def Let_def bind_Some_iff)
  from Read_Reg_emits [OF rd] v show "v = ucast (ucast v :: ULONG)" and "unat n \<le> 4" by simp_all
  obtain ws where ws: "polled csr_busy ws"
    "emits (Write_Reg E ECAT_CSR_CMD (ucast ?c) m) m1 (csr_poll_actions ws)"
    using poll_long_polled [OF poll] by (auto simp: csr_poll_actions_def)
  have w: "emits m (Write_Reg E ECAT_CSR_CMD (ucast ?c) m)
             [Reg_write ECAT_CSR_CMD [Byte a 0, Byte a 1, n, ESC_READ]]"
    using Write_Reg_emits [of m E ECAT_CSR_CMD "ucast ?c"] by (simp add: le_bytes_command)
  have "emits m m' (Reg_write ECAT_CSR_CMD [Byte a 0, Byte a 1, n, ESC_READ] #
      csr_poll_actions ws @ [Reg_read ECAT_CSR_DATA (le_bytes (unat n) (ucast v :: ULONG))])"
    by (rule emits_Cons [OF w emits_trans [OF ws(2)]])
      (use Read_Reg_emits(1) [OF rd] v in simp)
  with ws(1) show "\<exists>ws. polled csr_busy ws \<and> emits m m'
           (Reg_write ECAT_CSR_CMD [Byte a 0, Byte a 1, n, ESC_READ] # csr_poll_actions ws @
            [Reg_read ECAT_CSR_DATA (le_bytes (unat n) (ucast v :: ULONG))])"
    by blast
qed

lemma Write_Reg_Wait_emits:
  assumes "Write_Reg_Wait E a d m = Some m'"
  shows "\<exists>ws. polled csr_busy ws \<and> emits m m'
           (Reg_write ECAT_CSR_DATA (le_bytes 4 (ucast d :: ULONG)) #
            Reg_write ECAT_CSR_CMD [Byte a 0, Byte a 1, 4, ESC_WRITE] # csr_poll_actions ws)"
proof -
  let ?m1 = "Write_Reg E ECAT_CSR_DATA d m"
  let ?c = "csr_command (indet E (env ?m1)) a 4 ESC_WRITE"
  from assms obtain w where
    poll: "poll (Read_Long E ECAT_CSR_CMD) csr_busy (Write_Reg E ECAT_CSR_CMD (ucast ?c) ?m1) =
      Some (w, m')"
    by (auto simp: Write_Reg_Wait_def Let_def bind_Some_iff)
  obtain ws where ws: "polled csr_busy ws"
    "emits (Write_Reg E ECAT_CSR_CMD (ucast ?c) ?m1) m' (csr_poll_actions ws)"
    using poll_long_polled [OF poll] by (auto simp: csr_poll_actions_def)
  have "emits ?m1 (Write_Reg E ECAT_CSR_CMD (ucast ?c) ?m1)
          [Reg_write ECAT_CSR_CMD [Byte a 0, Byte a 1, 4, ESC_WRITE]]"
    using Write_Reg_emits [of ?m1 E ECAT_CSR_CMD "ucast ?c"] by (simp add: le_bytes_command)
  from emits_Cons [OF Write_Reg_emits emits_Cons [OF this ws(2)]] ws(1) show ?thesis by blast
qed

subsection \<open>The operations on concrete platforms\<close>

text \<open>The operations of the bus, for evaluation on a concrete platform.\<close>

lemmas bus_defs =
  SCS_Low_macro_def SCS_High_macro_def SPI_Write_def SPI_Read_def ext_do_def ext_call_def
  bcm2835_spi_transfer_def Let_def

text \<open>Reading a register on the bench gives the bytes at positions 3 to 6.\<close>

definition word_of_bytes :: "u8 \<Rightarrow> u8 \<Rightarrow> u8 \<Rightarrow> u8 \<Rightarrow> ULONG" where
  "word_of_bytes b0 b1 b2 b3 = set_Byte (set_Byte (set_Byte (set_Byte 0 0 b0) 1 b1) 2 b2) 3 b3"

lemma Byte_word_of_bytes [simp]:
  "Byte (word_of_bytes b0 b1 b2 b3) 0 = b0" "Byte (word_of_bytes b0 b1 b2 b3) 1 = b1"
  "Byte (word_of_bytes b0 b1 b2 b3) (Suc 0) = b1"
  "Byte (word_of_bytes b0 b1 b2 b3) 2 = b2" "Byte (word_of_bytes b0 b1 b2 b3) 3 = b3"
  by (simp_all add: word_of_bytes_def long_bytes.get_put_same long_bytes.get_put_other
      long_bytes.get_put_same [of "Suc 0", simplified])

lemma read_loop_4: "read_loop E 0 4 u m =
  (let (b0, m) = SPI_Read E DUMMY_BYTE m; (b1, m) = SPI_Read E DUMMY_BYTE m;
       (b2, m) = SPI_Read E DUMMY_BYTE m; (b3, m) = SPI_Read E DUMMY_BYTE m
   in (set_Byte (set_Byte (set_Byte (set_Byte u 0 b0) 1 b1) 2 b2) 3 b3, m))"
  by (simp add: numeral_nat Let_def split: prod.split)

lemma Read_Long_bench:
  "\<exists>m'. Read_Long (bench R f) a m = Some (word_of_bytes (f 3) (f 4) (f 5) (f 6), m')"
  by (simp add: Read_Long_def Read_Reg_def read_loop_4 bus_defs word_of_bytes_def)
    (simp add: numeral_nat)

lemma reading_bench:
  "\<exists>m'. reading (Read_Long (bench R f) a) 0 m = Some (word_of_bytes (f 3) (f 4) (f 5) (f 6), m')"
  by (simp add: Read_Long_bench)

lemma poll_bench:
  assumes "\<not> busy (word_of_bytes (f 3) (f 4) (f 5) (f 6))"
  shows "\<exists>m'. poll (Read_Long (bench R f) a) busy m =
           Some (word_of_bytes (f 3) (f 4) (f 5) (f 6), m')"
  using Read_Long_bench [of R f a m] assms by (auto simp: poll.simps)

lemma csr_bench:
  assumes "\<not> csr_busy (word_of_bytes (f 3) (f 4) (f 5) (f 6))" and "unat n \<le> 4"
  shows "\<exists>v m'. Read_Reg_Wait (bench R f) a n m = Some (v, m')"
    and "\<exists>m'. Write_Reg_Wait (bench R f) a d m = Some m'"
proof -
  let ?m = "Write_Reg (bench R f) ECAT_CSR_CMD
              (ucast (csr_command (indet (bench R f) (env m)) a n ESC_READ)) m"
  obtain w m1 where "poll (Read_Long (bench R f) ECAT_CSR_CMD) csr_busy ?m = Some (w, m1)"
    using poll_bench [where busy = csr_busy and f = f, OF assms(1)] by blast
  moreover obtain v m2 where "Read_Reg (bench R f) ECAT_CSR_DATA n m1 = Some (v, m2)"
    using Read_Reg_total [OF assms(2)] by blast
  ultimately show "\<exists>v m'. Read_Reg_Wait (bench R f) a n m = Some (v, m')"
    by (simp add: Read_Reg_Wait_def Let_def)
next
  let ?m1 = "Write_Reg (bench R f) ECAT_CSR_DATA d m"
  let ?m = "Write_Reg (bench R f) ECAT_CSR_CMD
              (ucast (csr_command (indet (bench R f) (env ?m1)) a 4 ESC_WRITE)) ?m1"
  obtain w m1 where "poll (Read_Long (bench R f) ECAT_CSR_CMD) csr_busy ?m = Some (w, m1)"
    using poll_bench [where busy = csr_busy and f = f, OF assms(1)] by blast
  then show "\<exists>m'. Write_Reg_Wait (bench R f) a d m = Some m'"
    by (simp add: Write_Reg_Wait_def Let_def)
qed

lemma bench_zero_ready: "\<not> csr_busy (word_of_bytes 0 0 0 0)"
  by (simp add: csr_busy_def)

text \<open>Reading a register of a chip with a fixed register file gives that register.\<close>

lemma frame_address_bytes [simp]: "frame_address (c # Byte a 1 # Byte a 0 # ds) = a"
  unfolding frame_address_def
proof (rule word_bytes.view_ext)
  fix i :: nat assume "i < 2"
  then have "i = 0 \<or> i = 1" by auto
  then show "Byte (set_Byte (set_Byte 0 1 ((c # Byte a 1 # Byte a 0 # ds) ! 1)) 0
      ((c # Byte a 1 # Byte a 0 # ds) ! 2) :: u16) i = Byte a i"
    by (auto simp: word_bytes.get_put_same word_bytes.get_put_other
        word_bytes.get_put_same [of "Suc 0", simplified])
qed

definition frame_of :: "(u8 list \<times> u16) machine \<Rightarrow> u8 list" where
  "frame_of m = fst (env m)"

definition csr_addr :: "(u8 list \<times> u16) machine \<Rightarrow> u16" where
  "csr_addr m = snd (env m)"

lemma regs_low: "frame_of (SCS_Low_macro (regs R rf cf) m) = []"
  "csr_addr (SCS_Low_macro (regs R rf cf) m) = csr_addr m"
  "csr_addr (SCS_High_macro (regs R rf cf) m) = csr_addr m"
  by (cases "env m"; simp add: bus_defs frame_of_def csr_addr_def)+

lemma regs_SPI_Write:
  "frame_of (SPI_Write (regs R rf cf) b m) = frame_of m @ [b]"
  "csr_addr (SPI_Write (regs R rf cf) b m) =
     (if 3 \<le> length (frame_of m) \<and> length (frame_of m) < 5 \<and> hd (frame_of m) = 2 \<and>
         frame_address (frame_of m) = 0x0304
      then slice_put (csr_addr m) (length (frame_of m) - 3) b else csr_addr m)"
  by (cases "env m"; simp add: bus_defs frame_of_def csr_addr_def)+

lemma regs_SPI_Read:
  assumes "frame_of m = 3 # Byte a 1 # Byte a 0 # ds"
  shows "\<exists>m'. SPI_Read (regs R rf cf) d m =
      (Byte (if a = ECAT_CSR_DATA then cf (csr_addr m) else rf a) (length ds), m') \<and>
    frame_of m' = frame_of m @ [d] \<and> csr_addr m' = csr_addr m"
  using assms frame_address_bytes [of 3 a ds]
  by (cases "env m") (auto simp: bus_defs frame_of_def csr_addr_def simp del: frame_address_bytes)

lemma word_of_bytes_Byte: "word_of_bytes (Byte w 0) (Byte w 1) (Byte w 2) (Byte w 3) = w"
proof (rule long_bytes.view_ext)
  fix i :: nat assume "i < 4"
  then have "i = 0 \<or> i = 1 \<or> i = 2 \<or> i = 3" by auto
  then show "Byte (word_of_bytes (Byte w 0) (Byte w 1) (Byte w 2) (Byte w 3)) i = Byte w i" by auto
qed

text \<open>The three bytes that open a read frame.\<close>

lemma regs_read_header:
  fixes m :: "(u8 list \<times> u16) machine"
  assumes "m0 = SPI_Write (regs R rf cf) (Byte a 0) (SPI_Write (regs R rf cf) (Byte a 1)
    (SPI_Write (regs R rf cf) COMM_SPI_READ (SCS_Low_macro (regs R rf cf) m)))"
  shows "frame_of m0 = 3 # Byte a 1 # Byte a 0 # []" and "csr_addr m0 = csr_addr m"
  by (simp_all add: assms regs_SPI_Write regs_low)

lemma Read_Long_regs:
  assumes "a \<noteq> ECAT_CSR_DATA"
  shows "\<exists>m'. Read_Long (regs R rf cf) a m = Some (rf a, m') \<and> csr_addr m' = csr_addr m"
proof -
  let ?E = "regs R rf cf"
  define m0 where "m0 = SPI_Write ?E (Byte a 0) (SPI_Write ?E (Byte a 1)
    (SPI_Write ?E COMM_SPI_READ (SCS_Low_macro ?E m)))"
  note m0 = regs_read_header [OF m0_def]
  then obtain m1 where 1: "SPI_Read ?E DUMMY_BYTE m0 = (Byte (rf a) 0, m1)" "csr_addr m1 = csr_addr m"
    "frame_of m1 = 3 # Byte a 1 # Byte a 0 # [255]"
    using regs_SPI_Read [OF m0(1), of R rf cf DUMMY_BYTE] assms by auto
  then obtain m2 where 2: "SPI_Read ?E DUMMY_BYTE m1 = (Byte (rf a) 1, m2)" "csr_addr m2 = csr_addr m"
    "frame_of m2 = 3 # Byte a 1 # Byte a 0 # [255, 255]"
    using regs_SPI_Read [OF 1(3), of R rf cf DUMMY_BYTE] assms by auto
  then obtain m3 where 3: "SPI_Read ?E DUMMY_BYTE m2 = (Byte (rf a) 2, m3)" "csr_addr m3 = csr_addr m"
    "frame_of m3 = 3 # Byte a 1 # Byte a 0 # [255, 255, 255]"
    using regs_SPI_Read [OF 2(3), of R rf cf DUMMY_BYTE] assms by (auto simp: numeral_2_eq_2)
  then obtain m4 where 4: "SPI_Read ?E DUMMY_BYTE m3 = (Byte (rf a) 3, m4)" "csr_addr m4 = csr_addr m"
    using regs_SPI_Read [OF 3(3), of R rf cf DUMMY_BYTE] assms by (auto simp: numeral_3_eq_3)
  have "read_loop ?E 0 4 0 m0 =
      (word_of_bytes (Byte (rf a) 0) (Byte (rf a) 1) (Byte (rf a) 2) (Byte (rf a) 3), m4)"
    using 1(1) 2(1) 3(1) 4(1) by (simp add: read_loop_4 word_of_bytes_def)
  then have "Read_Long ?E a m = Some (rf a, SCS_High_macro ?E m4)"
    unfolding word_of_bytes_Byte m0_def by (simp add: Read_Long_def Read_Reg_def)
  with 4(2) show ?thesis by (simp add: regs_low(3))
qed

lemma poll_regs:
  assumes "\<not> busy (rf a)" and "a \<noteq> ECAT_CSR_DATA"
  shows "\<exists>m'. poll (Read_Long (regs R rf cf) a) busy m = Some (rf a, m') \<and> csr_addr m' = csr_addr m"
  using Read_Long_regs [OF assms(2), of R rf cf m] assms(1) by (auto simp: poll.simps)

lemma reading_regs:
  "a \<noteq> ECAT_CSR_DATA \<Longrightarrow> \<exists>m'. reading (Read_Long (regs R rf cf) a) 0 m = Some (rf a, m')"
  using Read_Long_regs by fastforce

text \<open>The CSR protocol on that chip reads the addressed core register.\<close>

lemma regs_command_byte:
  assumes "frame_of m = 2 # Byte ECAT_CSR_CMD 1 # Byte ECAT_CSR_CMD 0 # ds"
  shows "frame_of (SPI_Write (regs R rf cf) b m) =
      2 # Byte ECAT_CSR_CMD 1 # Byte ECAT_CSR_CMD 0 # (ds @ [b])"
    and "csr_addr (SPI_Write (regs R rf cf) b m) =
      (if length ds < 2 then slice_put (csr_addr m) (length ds) b else csr_addr m)"
  using frame_address_bytes [of 2 ECAT_CSR_CMD ds]
  unfolding regs_SPI_Write assms by (auto simp del: frame_address_bytes)

lemma set_both_Bytes: "set_Byte (set_Byte w 0 (Byte a 0)) 1 (Byte a 1) = (a :: u16)"
proof (rule word_bytes.view_ext)
  fix i :: nat assume "i < 2"
  then have "i = 0 \<or> i = 1" by auto
  then show "Byte (set_Byte (set_Byte w 0 (Byte a 0)) 1 (Byte a 1)) i = Byte a i"
    by (auto simp: word_bytes.get_put_same word_bytes.get_put_other
        word_bytes.get_put_same [of "Suc 0", simplified])
qed

lemma csr_addr_command:
  "csr_addr (Write_Reg (regs R rf cf) ECAT_CSR_CMD (ucast (csr_command u a n c)) m) = a"
proof -
  let ?E = "regs R rf cf"
  define D where "D = csr_command u a n c"
  have b: "Byte D 0 = Byte a 0" "Byte D 1 = Byte a 1"
    using arg_cong [OF le_bytes_command [of u a n c], of "\<lambda>xs. xs ! 0"]
      arg_cong [OF le_bytes_command [of u a n c], of "\<lambda>xs. xs ! 1"]
    by (simp_all add: le_bytes_def D_def)
  define m3 where "m3 = SPI_Write ?E (Byte ECAT_CSR_CMD 0) (SPI_Write ?E (Byte ECAT_CSR_CMD 1)
    (SPI_Write ?E COMM_SPI_WRITE (SCS_Low_macro ?E m)))"
  define m4 where "m4 = SPI_Write ?E (Byte D 0) m3"
  define m5 where "m5 = SPI_Write ?E (Byte D 1) m4"
  define m6 where "m6 = SPI_Write ?E (Byte D 2) m5"
  define m7 where "m7 = SPI_Write ?E (Byte D 3) m6"
  have 3: "frame_of m3 = 2 # Byte ECAT_CSR_CMD 1 # Byte ECAT_CSR_CMD 0 # []"
    unfolding m3_def regs_SPI_Write regs_low by simp
  note 4 = regs_command_byte [OF 3, of R rf cf "Byte D 0", folded m4_def]
  note 5 = regs_command_byte [OF 4(1), of R rf cf "Byte D 1", folded m5_def]
  note 6 = regs_command_byte [OF 5(1), of R rf cf "Byte D 2", folded m6_def]
  note 7 = regs_command_byte [OF 6(1), of R rf cf "Byte D 3", folded m7_def]
  have "csr_addr m7 = set_Byte (set_Byte (csr_addr m3) 0 (Byte a 0)) 1 (Byte a 1)"
    using 4(2) 5(2) 6(2) 7(2) b by simp
  then have "csr_addr m7 = a" by (simp only: set_both_Bytes)
  moreover have "Write_Reg ?E ECAT_CSR_CMD (ucast D) m = SCS_High_macro ?E m7"
    unfolding m7_def m6_def m5_def m4_def m3_def by (simp add: Write_Reg_def Let_def)
  ultimately show ?thesis by (simp add: D_def regs_low(3))
qed

lemma Read_Reg_regs_data:
  "\<exists>v m'. Read_Reg (regs R rf cf) ECAT_CSR_DATA 1 m = Some (v, m') \<and>
     Byte (ucast v :: ULONG) 0 = Byte (cf (csr_addr m)) 0"
proof -
  let ?E = "regs R rf cf"
  define m0 where "m0 = SPI_Write ?E (Byte ECAT_CSR_DATA 0) (SPI_Write ?E (Byte ECAT_CSR_DATA 1)
    (SPI_Write ?E COMM_SPI_READ (SCS_Low_macro ?E m)))"
  note m0 = regs_read_header [OF m0_def]
  obtain m1 where "SPI_Read ?E DUMMY_BYTE m0 = (Byte (cf (csr_addr m)) 0, m1)"
    using regs_SPI_Read [OF m0(1), of R rf cf DUMMY_BYTE] m0(2) by auto
  then have "Read_Reg ?E ECAT_CSR_DATA 1 m =
      Some (ucast (set_Byte (0 :: ULONG) 0 (Byte (cf (csr_addr m)) 0)), SCS_High_macro ?E m1)"
    unfolding m0_def by (simp add: Read_Reg_def)
  then show ?thesis by (simp add: ucast_down_up long_bytes.get_put_same)
qed

lemma Read_Reg_Wait_regs:
  assumes "\<not> csr_busy (rf ECAT_CSR_CMD)"
  shows "\<exists>v m'. Read_Reg_Wait (regs R rf cf) a 1 m = Some (v, m') \<and>
     Byte (ucast v :: ULONG) 0 = Byte (cf a) 0"
proof -
  let ?E = "regs R rf cf"
  let ?m = "Write_Reg ?E ECAT_CSR_CMD (ucast (csr_command (indet ?E (env m)) a 1 ESC_READ)) m"
  obtain m1 where poll: "poll (Read_Long ?E ECAT_CSR_CMD) csr_busy ?m = Some (rf ECAT_CSR_CMD, m1)"
    and "csr_addr m1 = csr_addr ?m"
    using poll_regs [of csr_busy rf, OF assms] by fastforce
  then have "csr_addr m1 = a" by (simp only: csr_addr_command)
  with Read_Reg_regs_data [of R rf cf m1] obtain v m2 where
    "Read_Reg ?E ECAT_CSR_DATA 1 m1 = Some (v, m2)" "Byte (ucast v :: ULONG) 0 = Byte (cf a) 0" by auto
  with poll show ?thesis by (simp add: Read_Reg_Wait_def Let_def ucast_down_up)
qed

subsection \<open>Properties\<close>

text \<open>\<open>Read_Reg\<close> with at most 4 bytes always returns, puts exactly one well-formed read frame
  for the given address on the bus, and the low bytes of the result are the bytes received, least
  significant first; the upper half of the \<open>unsigned long\<close> is zero.\<close>

lemma Read_Reg_correct:
  assumes "unat n \<le> 4"
  shows "\<exists>v m'. Read_Reg E a n m = Some (v, m') \<and>
           emits m m' [Reg_read a (le_bytes (unat n) (ucast v :: ULONG))] \<and> unat v < 2 ^ 32"
proof -
  from Read_Reg_total [OF assms] obtain v m' where rd: "Read_Reg E a n m = Some (v, m')" by blast
  have "unat v = unat (ucast v :: ULONG)"
    using arg_cong [OF Read_Reg_emits(2) [OF rd], of unat] by (simp add: unat_ucast_up)
  with rd Read_Reg_emits(1) [OF rd] show ?thesis
    using unsigned_less [of "ucast v :: ULONG"] by auto
qed

text \<open>\<open>Write_Reg\<close> puts exactly one well-formed write frame on the bus: the given address,
  then the low 32 bits of the value as four bytes, least significant first.\<close>

lemma Write_Reg_correct:
  "emits m (Write_Reg E a d m) [Reg_write a (le_bytes 4 (ucast d :: ULONG))]"
  by (rule Write_Reg_emits)

text \<open>\<open>Read_Reg_Wait\<close>, when it returns, has run the CSR protocol: one command write with the
  register's address, the length and the read code, then readings of the command register up to
  the first one that is not busy, then one read of the data register whose bytes are the result.
  Nothing of the command depends on what \<open>TempLong\<close> held before.\<close>

lemma Read_Reg_Wait_protocol:
  assumes "Read_Reg_Wait E a n m = Some (v, m')"
  shows "\<exists>ws. polled csr_busy ws \<and> emits m m'
           (Reg_write ECAT_CSR_CMD [Byte a 0, Byte a 1, n, ESC_READ] # csr_poll_actions ws @
            [Reg_read ECAT_CSR_DATA (le_bytes (unat n) (ucast v :: ULONG))])"
  by (rule Read_Reg_Wait_emits [OF assms])

text \<open>\<open>Write_Reg_Wait\<close>, when it returns, has written the four data bytes first, then the
  command with the register's address and the write code, and has waited for the first reading of
  the command register that is not busy.\<close>

lemma Write_Reg_Wait_protocol:
  assumes "Write_Reg_Wait E a d m = Some m'"
  shows "\<exists>ws. polled csr_busy ws \<and> emits m m'
           (Reg_write ECAT_CSR_DATA (le_bytes 4 (ucast d :: ULONG)) #
            Reg_write ECAT_CSR_CMD [Byte a 0, Byte a 1, 4, ESC_WRITE] # csr_poll_actions ws)"
  by (rule Write_Reg_Wait_emits [OF assms])

definition csr_ready :: "'w platform \<Rightarrow> 'w machine \<Rightarrow> bool" where
  "csr_ready E m \<longleftrightarrow>
     (\<exists>n v m'. reading (Read_Long E ECAT_CSR_CMD) n m = Some (v, m') \<and> \<not> csr_busy v)"

text \<open>C29: \<open>Read_Reg_Wait\<close> returns exactly when some reading of the command register after its
  command is not busy: the wait has no bound of its own.\<close>

theorem Read_Reg_Wait_returns_iff:
  assumes "unat n \<le> 4"
  shows "(\<exists>v m'. Read_Reg_Wait E a n m = Some (v, m')) \<longleftrightarrow>
         csr_ready E (Write_Reg E ECAT_CSR_CMD
           (ucast (csr_command (indet E (env m)) a n ESC_READ)) m)"
proof -
  have "(\<exists>v m'. Read_Reg_Wait E a n m = Some (v, m')) \<longleftrightarrow>
      (\<exists>r. poll (Read_Long E ECAT_CSR_CMD) csr_busy (Write_Reg E ECAT_CSR_CMD
           (ucast (csr_command (indet E (env m)) a n ESC_READ)) m) = Some r)"
    using Read_Reg_total [OF assms, of E ECAT_CSR_DATA]
    by (fastforce simp: Read_Reg_Wait_def Let_def bind_Some_iff)
  then show ?thesis unfolding csr_ready_def long_port.poll_returns_iff .
qed

theorem Read_Reg_Wait_returns_iff_witness:
  "unat (1 :: u8) \<le> 4 \<and>
   (\<exists>v m'. Read_Reg_Wait (bench (\<lambda>_. 1) (\<lambda>_. 0)) WDOG_STATUS 1 (start 0) = Some (v, m')) \<and>
   csr_ready (bench (\<lambda>_. 1) (\<lambda>_. 0)) (Write_Reg (bench (\<lambda>_. 1) (\<lambda>_. 0)) ECAT_CSR_CMD
     (ucast (csr_command (indet (bench (\<lambda>_. 1) (\<lambda>_. 0)) (env (start (0::nat)))) WDOG_STATUS 1 ESC_READ))
     (start 0))"
proof -
  have n: "unat (1 :: u8) \<le> 4" by simp
  have "\<exists>v m'. Read_Reg_Wait (bench (\<lambda>_. 1) (\<lambda>_. 0)) WDOG_STATUS 1 (start 0) = Some (v, m')"
    using csr_bench(1) [where f = "\<lambda>_. 0" and n = 1 and a = WDOG_STATUS and R = "\<lambda>_. 1" and m = "start 0",
        OF bench_zero_ready] by auto
  with n show ?thesis
    using Read_Reg_Wait_returns_iff [OF n, of "bench (\<lambda>_. 1) (\<lambda>_. 0)" WDOG_STATUS "start 0"] by blast
qed

end
