(* ===== verification/Rt_Utilities.thy ===== *)
theory Rt_Utilities
  imports Prelude Complex_Main
begin

section \<open>The statistic tool\<close>

text \<open>
  Class \<open>stattool\<close> of \<open>rt_utilities/src/rt_utilities.cpp\<close> and its buffer \<open>STATBUFFER\<close> of
  \<open>include/rt_utilities/rt_utilities.h\<close>. The arithmetic of the type \<open>double\<close> is a parameter: a
  record of the operations the code uses. The facts on counting and on the extremes hold for
  every such arithmetic whose comparison is a linear order; the facts on mean and deviation are
  about exact real arithmetic, so they leave rounding out.
\<close>

subsection \<open>Arithmetic of double\<close>

record 'f fpu =
  fadd :: "'f \<Rightarrow> 'f \<Rightarrow> 'f"
  fsub :: "'f \<Rightarrow> 'f \<Rightarrow> 'f"
  fmul :: "'f \<Rightarrow> 'f \<Rightarrow> 'f"
  fdiv :: "'f \<Rightarrow> 'f \<Rightarrow> 'f"
  fsqrt :: "'f \<Rightarrow> 'f"
  fless :: "'f \<Rightarrow> 'f \<Rightarrow> bool"
  of_ull :: "u64 \<Rightarrow> 'f"
  fzero :: 'f
  lit_1E_3 :: 'f
  lit_1E_6 :: 'f

definition real_fpu :: "real fpu" where
  "real_fpu = \<lparr>fadd = (+), fsub = (-), fmul = (*), fdiv = (/), fsqrt = sqrt, fless = (<),
     of_ull = (\<lambda>n. real (unat n)), fzero = 0, lit_1E_3 = 1 / 1000, lit_1E_6 = 1 / 1000000\<rparr>"

lemma real_fpu_simps [simp]:
  "fadd real_fpu = (+)" "fsub real_fpu = (-)" "fmul real_fpu = (*)" "fdiv real_fpu = (/)"
  "fsqrt real_fpu = sqrt" "fless real_fpu = (<)" "of_ull real_fpu n = real (unat n)"
  "fzero real_fpu = 0" "lit_1E_3 real_fpu = 1 / 1000" "lit_1E_6 real_fpu = 1 / 1000000"
  by (simp_all add: real_fpu_def)

subsection \<open>The buffer and its operations\<close>

record 'f STATBUFFER =
  cur :: 'f
  count :: u64
  vmean :: 'f
  vmax :: 'f
  vmin :: 'f
  vstddev :: 'f
  vrange :: 'f
  ic_sum :: 'f
  ic_sum2 :: 'f

text \<open>\<open>reset\<close> clears the bytes of the buffer, which makes every \<open>double\<close> zero; it is all the
  constructor does.\<close>

definition reset :: "'f fpu \<Rightarrow> 'f STATBUFFER" where
  "reset F = \<lparr>cur = fzero F, count = 0, vmean = fzero F, vmax = fzero F, vmin = fzero F,
     vstddev = fzero F, vrange = fzero F, ic_sum = fzero F, ic_sum2 = fzero F\<rparr>"

text \<open>\<open>calc\<close> in the order of its statements: the extremes, the sums, the deviation.\<close>

definition calc_extremes :: "'f fpu \<Rightarrow> 'f \<Rightarrow> 'f STATBUFFER \<Rightarrow> 'f STATBUFFER" where
  "calc_extremes F value s =
     (let s = s\<lparr>cur := value\<rparr>;
          s = (if count s = 0 then s\<lparr>vmin := value, vmax := value\<rparr>
               else (let s = (if fless F (vmax s) value then s\<lparr>vmax := value\<rparr> else s)
                     in if fless F value (vmin s) then s\<lparr>vmin := value\<rparr> else s))
      in s\<lparr>vrange := fsub F (vmax s) (vmin s)\<rparr>)"

definition calc_sums :: "'f fpu \<Rightarrow> 'f \<Rightarrow> 'f STATBUFFER \<Rightarrow> 'f STATBUFFER" where
  "calc_sums F value s =
     (let s = s\<lparr>ic_sum := fadd F (ic_sum s) value\<rparr>;
          s = s\<lparr>ic_sum2 := fadd F (ic_sum2 s) (fmul F value value)\<rparr>;
          s = s\<lparr>count := count s + 1\<rparr>
      in s\<lparr>vmean := fdiv F (ic_sum s) (of_ull F (count s))\<rparr>)"

definition calc_stddev :: "'f fpu \<Rightarrow> 'f STATBUFFER \<Rightarrow> 'f STATBUFFER" where
  "calc_stddev F s =
     (let s = s\<lparr>vstddev := fzero F\<rparr>
      in if 1 < count s then
           (let sqrtval = fdiv F (fsub F (ic_sum2 s)
                  (fdiv F (fmul F (ic_sum s) (ic_sum s)) (of_ull F (count s))))
                  (of_ull F (count s - 1))
            in if fless F (fzero F) sqrtval then s\<lparr>vstddev := fsqrt F sqrtval\<rparr> else s)
         else s)"

definition calc :: "'f fpu \<Rightarrow> 'f \<Rightarrow> 'f STATBUFFER \<Rightarrow> 'f STATBUFFER" where
  "calc F value s = calc_stddev F (calc_sums F value (calc_extremes F value s))"

text \<open>A series of measurements since the last \<open>reset\<close>.\<close>

definition stat_run :: "'f fpu \<Rightarrow> 'f list \<Rightarrow> 'f STATBUFFER" where
  "stat_run F xs = fold (calc F) xs (reset F)"

lemma stat_run_Nil [simp]: "stat_run F [] = reset F"
  by (simp add: stat_run_def)

lemma stat_run_snoc [simp]: "stat_run F (xs @ [x]) = calc F x (stat_run F xs)"
  by (simp add: stat_run_def)

lemma calc_stddev_fields [simp]:
  "cur (calc_stddev F s) = cur s" "count (calc_stddev F s) = count s"
  "ic_sum (calc_stddev F s) = ic_sum s" "ic_sum2 (calc_stddev F s) = ic_sum2 s"
  "vmean (calc_stddev F s) = vmean s" "vrange (calc_stddev F s) = vrange s"
  "vmax (calc_stddev F s) = vmax s" "vmin (calc_stddev F s) = vmin s"
  by (simp_all add: calc_stddev_def Let_def)

lemma calc_sums_fields [simp]:
  "cur (calc_sums F x s) = cur s" "count (calc_sums F x s) = count s + 1"
  "ic_sum (calc_sums F x s) = fadd F (ic_sum s) x"
  "ic_sum2 (calc_sums F x s) = fadd F (ic_sum2 s) (fmul F x x)"
  "vmean (calc_sums F x s) = fdiv F (fadd F (ic_sum s) x) (of_ull F (count s + 1))"
  "vrange (calc_sums F x s) = vrange s" "vmax (calc_sums F x s) = vmax s"
  "vmin (calc_sums F x s) = vmin s"
  by (simp_all add: calc_sums_def Let_def)

lemma calc_extremes_fields [simp]:
  "cur (calc_extremes F x s) = x" "count (calc_extremes F x s) = count s"
  "ic_sum (calc_extremes F x s) = ic_sum s" "ic_sum2 (calc_extremes F x s) = ic_sum2 s"
  "vmax (calc_extremes F x s) = (if count s = 0 \<or> fless F (vmax s) x then x else vmax s)"
  "vmin (calc_extremes F x s) = (if count s = 0 \<or> fless F x (vmin s) then x else vmin s)"
  "vrange (calc_extremes F x s) = fsub F (vmax (calc_extremes F x s)) (vmin (calc_extremes F x s))"
  by (simp_all add: calc_extremes_def Let_def)

lemma calc_fields:
  "cur (calc F x s) = x"
  "count (calc F x s) = count s + 1"
  "ic_sum (calc F x s) = fadd F (ic_sum s) x"
  "ic_sum2 (calc F x s) = fadd F (ic_sum2 s) (fmul F x x)"
  "vmean (calc F x s) = fdiv F (ic_sum (calc F x s)) (of_ull F (count (calc F x s)))"
  "vrange (calc F x s) = fsub F (vmax (calc F x s)) (vmin (calc F x s))"
  "vmax (calc F x s) = (if count s = 0 \<or> fless F (vmax s) x then x else vmax s)"
  "vmin (calc F x s) = (if count s = 0 \<or> fless F x (vmin s) then x else vmin s)"
  by (simp_all add: calc_def)

lemma vstddev_calc_stddev:
  "vstddev (calc_stddev F s) =
     (let n = count s;
          q = fdiv F (fsub F (ic_sum2 s) (fdiv F (fmul F (ic_sum s) (ic_sum s)) (of_ull F n)))
                (of_ull F (n - 1))
      in if 1 < n \<and> fless F (fzero F) q then fsqrt F q else fzero F)"
  by (simp add: calc_stddev_def Let_def)

lemma vstddev_calc:
  "vstddev (calc F x s) =
     (let n = count (calc F x s);
          q = fdiv F (fsub F (ic_sum2 (calc F x s))
                (fdiv F (fmul F (ic_sum (calc F x s)) (ic_sum (calc F x s))) (of_ull F n)))
                (of_ull F (n - 1))
      in if 1 < n \<and> fless F (fzero F) q then fsqrt F q else fzero F)"
  unfolding calc_def calc_stddev_fields by (rule vstddev_calc_stddev)

subsection \<open>Counting and extremes, for any arithmetic\<close>

lemma count_stat_run: "count (stat_run F xs) = of_nat (length xs)"
  by (induction xs rule: rev_induct) (simp_all add: reset_def calc_fields)

lemma unat_count_stat_run:
  "length xs < 2 ^ 64 \<Longrightarrow> unat (count (stat_run F xs)) = length xs"
  by (simp add: count_stat_run unat_of_nat)

lemma count_nonzero:
  assumes "xs \<noteq> []" and "length xs < 2 ^ 64"
  shows "count (stat_run F xs) \<noteq> 0"
proof
  assume "count (stat_run F xs) = 0"
  with unat_count_stat_run [OF assms(2), of F] assms(1) show False by simp
qed

lemma stat_run_extremes:
  fixes F :: "'f::linorder fpu"
  assumes "fless F = (<)" and "xs \<noteq> []" and "length xs < 2 ^ 64"
  shows "vmax (stat_run F xs) = Max (set xs) \<and> vmin (stat_run F xs) = Min (set xs)"
  using assms(2,3)
proof (induction xs rule: rev_induct)
  case Nil
  then show ?case by simp
next
  case (snoc x xs)
  show ?case
  proof (cases "xs = []")
    case True
    then show ?thesis by (simp add: calc_fields reset_def stat_run_def)
  next
    case False
    with snoc.prems have "count (stat_run F xs) \<noteq> 0" by (simp add: count_nonzero)
    then have "vmax (stat_run F (xs @ [x])) = max x (vmax (stat_run F xs))"
      "vmin (stat_run F (xs @ [x])) = min x (vmin (stat_run F xs))"
      by (auto simp: calc_fields assms(1))
    with False snoc show ?thesis by simp
  qed
qed

subsection \<open>Mean and deviation in exact arithmetic\<close>

lemma real_sums:
  "ic_sum (stat_run real_fpu xs) = sum_list xs"
  "ic_sum2 (stat_run real_fpu xs) = (\<Sum>x\<leftarrow>xs. x * x)"
  by (induction xs rule: rev_induct) (simp_all add: reset_def calc_fields)

text \<open>The one-pass formula of the code is the sum of the squared deviations from the mean.\<close>

lemma sum_sq_dev:
  fixes xs :: "real list"
  assumes "xs \<noteq> []" and "mu = sum_list xs / real (length xs)"
  shows "(\<Sum>x\<leftarrow>xs. (x - mu)\<^sup>2) =
         (\<Sum>x\<leftarrow>xs. x * x) - sum_list xs * sum_list xs / real (length xs)"
proof -
  have "(\<Sum>x\<leftarrow>ys. (x - mu)\<^sup>2) =
      (\<Sum>x\<leftarrow>ys. x * x) - 2 * mu * sum_list ys + real (length ys) * mu\<^sup>2" for ys
    by (induction ys) (auto simp: power2_eq_square algebra_simps)
  note this [of xs]
  moreover have n: "real (length xs) \<noteq> 0" using assms(1) by simp
  with assms(2) have mu: "mu * real (length xs) = sum_list xs" by simp
  then have "real (length xs) * mu\<^sup>2 = mu * sum_list xs"
    by (simp add: power2_eq_square algebra_simps)
  moreover have "sum_list xs * sum_list xs / real (length xs) = mu * sum_list xs"
    using assms(2) by simp
  ultimately show ?thesis by simp
qed

definition sample_stddev :: "real list \<Rightarrow> real" where
  "sample_stddev xs =
     (let mu = sum_list xs / real (length xs)
      in sqrt ((\<Sum>x\<leftarrow>xs. (x - mu)\<^sup>2) / (real (length xs) - 1)))"

lemma stat_run_stddev:
  assumes "2 \<le> length xs" and "length xs < 2 ^ 64"
  shows "vstddev (stat_run real_fpu xs) = sample_stddev xs"
proof -
  let ?s = "stat_run real_fpu xs"
  let ?mu = "sum_list xs / real (length xs)"
  let ?d = "(\<Sum>x\<leftarrow>xs. (x - ?mu)\<^sup>2)"
  from assms(1) have ne: "xs \<noteq> []" by auto
  then obtain ys y where xs: "xs = ys @ [y]" by (cases xs rule: rev_cases) auto
  have n: "unat (count ?s) = length xs" by (rule unat_count_stat_run [OF assms(2)])
  then have gt: "1 < count ?s" using assms(1) by (simp add: word_less_nat_alt)
  then have n1: "unat (count ?s - 1) = length xs - 1"
    using n by (simp add: unat_sub word_le_nat_alt word_less_nat_alt)
  have dev: "?d = ic_sum2 ?s - ic_sum ?s * ic_sum ?s / real (length xs)"
    using sum_sq_dev [OF ne refl] by (simp add: real_sums)
  have ull: "of_ull real_fpu (count ?s) = real (length xs)"
    "of_ull real_fpu (count ?s - 1) = real (length xs - 1)"
    by (simp_all only: real_fpu_simps n n1)
  have "0 \<le> ?d" by (rule sum_list_nonneg) auto
  have "vstddev ?s = (let n = count ?s;
      q = fdiv real_fpu (fsub real_fpu (ic_sum2 ?s)
            (fdiv real_fpu (fmul real_fpu (ic_sum ?s) (ic_sum ?s)) (of_ull real_fpu n)))
            (of_ull real_fpu (n - 1))
      in if 1 < n \<and> fless real_fpu (fzero real_fpu) q then fsqrt real_fpu q else fzero real_fpu)"
    unfolding xs stat_run_snoc by (rule vstddev_calc)
  also have "\<dots> = (if 0 < ?d / real (length xs - 1) then sqrt (?d / real (length xs - 1)) else 0)"
    using gt unfolding dev Let_def ull by simp
  also have "\<dots> = sqrt (?d / real (length xs - 1))"
    using \<open>0 \<le> ?d\<close> by (simp add: not_less zero_less_divide_iff) 
  finally show ?thesis
    using assms(1) by (simp add: sample_stddev_def Let_def of_nat_diff)
qed

subsection \<open>Properties\<close>

text \<open>After at least one measurement and fewer than 2^64, for every arithmetic whose
  comparison is a linear order, the tool holds the number of measurements, the last one, the
  largest and the smallest one, and its range is their difference.\<close>

lemma stat_counts_and_extremes:
  fixes F :: "'f::linorder fpu"
  assumes "fless F = (<)" and "xs \<noteq> []" and "length xs < 2 ^ 64"
  shows "unat (count (stat_run F xs)) = length xs \<and> cur (stat_run F xs) = last xs \<and>
         vmax (stat_run F xs) = Max (set xs) \<and> vmin (stat_run F xs) = Min (set xs) \<and>
         vrange (stat_run F xs) = fsub F (Max (set xs)) (Min (set xs))"
proof -
  obtain ys y where xs: "xs = ys @ [y]" using assms(2) by (cases xs rule: rev_cases) auto
  have "cur (stat_run F xs) = last xs" by (simp add: xs calc_fields)
  moreover have "vrange (stat_run F xs) = fsub F (vmax (stat_run F xs)) (vmin (stat_run F xs))"
    unfolding xs stat_run_snoc by (rule calc_fields)
  ultimately show ?thesis
    using stat_run_extremes [OF assms] unat_count_stat_run [OF assms(3)] by simp
qed

text \<open>C30: In exact arithmetic the one-pass sums give the statistics they stand for: the mean is
  the arithmetic mean and, from two measurements on, the deviation is the sample standard
  deviation of the measurements around that mean.\<close>

theorem stat_mean_and_deviation:
  assumes "2 \<le> length xs" and "length xs < 2 ^ 64"
  shows "vmean (stat_run real_fpu xs) = sum_list xs / real (length xs) \<and>
         vstddev (stat_run real_fpu xs) = sample_stddev xs"
proof -
  from assms(1) obtain ys y where xs: "xs = ys @ [y]" by (cases xs rule: rev_cases) auto
  have "vmean (stat_run real_fpu xs) =
      fdiv real_fpu (ic_sum (stat_run real_fpu xs)) (of_ull real_fpu (count (stat_run real_fpu xs)))"
    unfolding xs stat_run_snoc by (rule calc_fields)
  also have "of_ull real_fpu (count (stat_run real_fpu xs)) = real (length xs)"
    by (simp only: real_fpu_simps unat_count_stat_run [OF assms(2)])
  finally show ?thesis using stat_run_stddev [OF assms] by (simp add: real_sums)
qed

theorem stat_mean_and_deviation_witness:
  "2 \<le> length [1, 3 :: real] \<and> length [1, 3 :: real] < 2 ^ 64 \<and>
   vmean (stat_run real_fpu [1, 3]) = sum_list [1, 3] / real (length [1, 3 :: real]) \<and>
   vstddev (stat_run real_fpu [1, 3]) = sample_stddev [1, 3]"
proof -
  have h: "2 \<le> length [1, 3 :: real]" "length [1, 3 :: real] < 2 ^ 64" by simp_all
  show ?thesis using h stat_mean_and_deviation [OF h] by blast
qed

end
