(* ===== verification/C_String.thy ===== *)
theory C_String
  imports Prelude
begin

section \<open>Strings in arrays of characters\<close>

text \<open>
  A C array of \<open>char\<close> is the list of its cells; the string it holds ends before the first zero
  cell. The string functions of the C library that the program uses, each giving \<open>None\<close> when it
  would write outside the array, and decimal notation as \<open>printf\<close> writes it.
\<close>

subsection \<open>Strings in arrays\<close>

abbreviation (input) NUL :: char where "NUL \<equiv> CHR 0x00"

definition c_string :: "char list \<Rightarrow> string" where
  "c_string buf = takeWhile (\<lambda>c. c \<noteq> NUL) buf"

definition store :: "nat \<Rightarrow> string \<Rightarrow> char list \<Rightarrow> char list option" where
  "store i cs buf =
     (if i + length cs \<le> length buf then Some (take i buf @ cs @ drop (i + length cs) buf) else None)"

lemma store_Some:
  "i + length cs \<le> length buf \<Longrightarrow> store i cs buf = Some (take i buf @ cs @ drop (i + length cs) buf)"
  by (simp add: store_def)

lemma length_store: "store i cs buf = Some buf' \<Longrightarrow> length buf' = length buf"
  by (auto simp: store_def split: if_splits)

lemma c_string_append_NUL: "c_string (cs @ NUL # rest) = c_string cs"
  by (induction cs) (simp_all add: c_string_def)

lemma c_string_ident: "NUL \<notin> set cs \<Longrightarrow> c_string cs = cs"
  unfolding c_string_def by (rule takeWhile_eq_all_conv [THEN iffD2]) auto

subsection \<open>Copying, appending and printing\<close>

text \<open>The sources are strings without a zero character.\<close>

definition strncpy :: "nat \<Rightarrow> string \<Rightarrow> char list \<Rightarrow> char list option" where
  "strncpy n src buf = store 0 (take n (src @ replicate (n - length src) NUL)) buf"

definition strncat :: "nat \<Rightarrow> string \<Rightarrow> char list \<Rightarrow> char list option" where
  "strncat n src buf = store (length (c_string buf)) (take n src @ [NUL]) buf"

text \<open>\<open>text\<close> is what the format and its arguments give.\<close>

definition snprintf :: "nat \<Rightarrow> string \<Rightarrow> char list \<Rightarrow> char list option" where
  "snprintf n out buf = store 0 (take (n - 1) out @ [NUL]) buf"

lemma NUL_in_buffer: "length (c_string buf) < length buf \<Longrightarrow> buf ! length (c_string buf) = NUL"
  unfolding c_string_def using nth_length_takeWhile by fastforce

lemma take_c_string: "take (length (c_string buf)) buf = c_string buf"
  by (simp add: c_string_def takeWhile_eq_take [symmetric])

lemma c_string_no_NUL: "NUL \<notin> set (c_string buf)"
  unfolding c_string_def by (metis (mono_tags, lifting) set_takeWhileD)

text \<open>A terminated text in front of an array is the string it holds.\<close>

lemma c_string_text: "NUL \<notin> set cs \<Longrightarrow> c_string (cs @ NUL # rest) = cs"
  by (simp add: c_string_append_NUL c_string_ident)

lemma strncat_Some:
  assumes "length (c_string buf) + length src < length buf" and "length src \<le> n" and "NUL \<notin> set src"
  shows "\<exists>buf'. strncat n src buf = Some buf' \<and> c_string buf' = c_string buf @ src \<and>
           length buf' = length buf"
proof -
  let ?l = "length (c_string buf)"
  have "strncat n src buf = Some (c_string buf @ (src @ [NUL]) @ drop (?l + length src + 1) buf)"
    using assms(1,2) by (simp add: strncat_def store_def take_c_string)
  moreover have "c_string (c_string buf @ (src @ [NUL]) @ drop (?l + length src + 1) buf) = c_string buf @ src"
    using c_string_text [of "c_string buf @ src"] assms(3) c_string_no_NUL by simp
  ultimately show ?thesis using assms(1) by simp
qed

lemma snprintf_Some:
  assumes "n \<le> length buf" and "0 < n" and "NUL \<notin> set out"
  shows "\<exists>buf'. snprintf n out buf = Some buf' \<and> c_string buf' = take (n - 1) out \<and>
           length buf' = length buf"
proof -
  have "NUL \<notin> set (take (n - 1) out)" using assms(3) by (meson in_set_takeD)
  moreover have "min (length out) (n - 1) + 1 \<le> length buf" using assms(1,2) by simp
  ultimately show ?thesis by (simp add: snprintf_def store_def c_string_text)
qed

subsection \<open>Decimal notation\<close>

definition digit :: "nat \<Rightarrow> char" where
  "digit n = char_of (48 + n)"

fun dec :: "nat \<Rightarrow> string" where
  "dec n = (if n < 10 then [digit n] else dec (n div 10) @ [digit (n mod 10)])"

declare dec.simps [simp del]

definition dec_int :: "int \<Rightarrow> string" where
  "dec_int i = (if i < 0 then CHR ''-'' # dec (nat (- i)) else dec (nat i))"

text \<open>Reading a number back.\<close>

definition undec :: "string \<Rightarrow> nat" where
  "undec cs = foldl (\<lambda>a c. 10 * a + (of_char c - 48)) 0 cs"

lemma of_char_digit: "n < 10 \<Longrightarrow> of_char (digit n) = 48 + n"
  by (simp add: digit_def)

lemma undec_dec: "undec (dec n) = n"
proof (induction n rule: dec.induct)
  case (1 n)
  show ?case
  proof (cases "n < 10")
    case True
    then show ?thesis by (simp add: dec.simps undec_def of_char_digit)
  next
    case False
    with 1 have "undec (dec (n div 10)) = n div 10" by blast
    with False show ?thesis
      by (simp add: dec.simps [of n] undec_def of_char_digit del: dec.simps)
  qed
qed

lemma dec_no_NUL: "NUL \<notin> set (dec n)"
proof (induction n rule: dec.induct)
  case (1 n)
  have "NUL \<noteq> digit k" if "k < 10" for k
  proof
    assume "NUL = digit k"
    then have "(of_char NUL :: nat) = 48 + k" using of_char_digit [OF that] by simp
    then show False by simp
  qed
  with 1 show ?case by (subst dec.simps) auto
qed

lemma length_dec_le: "n < 10 ^ k \<Longrightarrow> 0 < k \<Longrightarrow> length (dec n) \<le> k"
proof (induction k arbitrary: n)
  case 0
  then show ?case by simp
next
  case (Suc k)
  show ?case
  proof (cases "n < 10")
    case True
    then show ?thesis by (simp add: dec.simps)
  next
    case False
    with Suc.prems have "n div 10 < 10 ^ k" "0 < k" by (auto intro: gr0I)
    with Suc.IH [of "n div 10"] False show ?thesis by (simp add: dec.simps [of n])
  qed
qed

lemma length_dec_ge: "10 ^ k \<le> n \<Longrightarrow> k < length (dec n)"
proof (induction k arbitrary: n)
  case 0
  then show ?case by (subst dec.simps) simp
next
  case (Suc k)
  have "10 ^ k \<le> n div 10" using div_le_mono [OF Suc.prems, of 10] by simp
  moreover from this have "0 < n div 10" by (simp add: order_less_le_trans [of 0 "10 ^ k"])
  then have "\<not> n < 10" by (simp add: div_greater_zero_iff)
  ultimately show ?case using Suc.IH [of "n div 10"] by (subst dec.simps) simp
qed

end
