(* ===== verification/Realtime.thy ===== *)
theory Realtime
  imports Bench C_String
begin

section \<open>Detecting the real-time kernel\<close>

text \<open>
  \<open>readfilebuf\<close>, \<open>strip\<close> and \<open>rpi_base::isrealtime\<close> of \<open>rpi_base/src/rpi_base.cpp\<close>.
  A result \<open>None\<close> stands for an access outside the array.
\<close>

subsection \<open>The functions\<close>

text \<open>The number of bytes read and the buffer. \<open>maxbufsize\<close> is at least one at every call.\<close>

definition readfilebuf ::
  "'w platform \<Rightarrow> string \<Rightarrow> char list \<Rightarrow> nat \<Rightarrow> 'w machine \<Rightarrow> (nat \<times> char list \<times> 'w machine) option"
where
  "readfilebuf E pathname buffer maxbufsize m =
     (let (fh, m) = ext_call E (Fopen_rb pathname) m in
      if fh = 0 then do {
        buffer \<leftarrow> store 0 [NUL] buffer;
        Some (0, buffer, m)
      } else do {
        buffer \<leftarrow> store 0 [NUL] buffer;
        let (d, m) = file_read E (maxbufsize - 1) m;
        let bytes = (case d of None \<Rightarrow> [] | Some bytes \<Rightarrow> bytes);
        buffer \<leftarrow> store 0 bytes buffer;
        buffer \<leftarrow> store (length bytes) [NUL] buffer;
        let m = ext_do E Fclose m;
        Some (length bytes, buffer, m)
      })"

text \<open>The loop of \<open>strip\<close> runs over the string as it was at the call.\<close>

fun strip_loop :: "nat \<Rightarrow> char list \<Rightarrow> char list" where
  "strip_loop 0 path = path"
| "strip_loop (Suc n) [] = []"
| "strip_loop (Suc n) (c # path) =
     (if c = CHR 0x0D then NUL else if c = CHR 0x0A then NUL else c) # strip_loop n path"

definition strip :: "char list \<Rightarrow> char list" where
  "strip path = (let len = length (c_string path) in strip_loop len path)"

definition isrealtime :: "'w platform \<Rightarrow> 'w machine \<Rightarrow> (int \<times> 'w machine) option" where
  "isrealtime E m = do {
     let buffer = replicate 64 NUL;
     (len, buffer, m) \<leftarrow> readfilebuf E ''/sys/kernel/realtime'' buffer (64 - 1) m;
     if 0 < len then do {
       let buffer = strip buffer;
       if c_string buffer = ''1''
       then Some (ext_call E Mlockall_current_future m)
       else Some (-3, m)
     } else Some (-3, m)
   }"

subsection \<open>What they do\<close>

definition is_eol :: "char \<Rightarrow> bool" where
  "is_eol c \<longleftrightarrow> c = CHR 0x0D \<or> c = CHR 0x0A"

lemma strip_loop_append:
  "NUL \<notin> set cs \<Longrightarrow>
   c_string (strip_loop (length cs) (cs @ NUL # rest)) = takeWhile (\<lambda>c. \<not> is_eol c) cs"
  by (induction cs) (auto simp: c_string_def is_eol_def)

text \<open>\<open>strip\<close> cuts the string at its first carriage return or line feed.\<close>

lemma c_string_strip:
  assumes "NUL \<in> set buf"
  shows "c_string (strip buf) = takeWhile (\<lambda>c. \<not> is_eol c) (c_string buf)"
proof -
  from split_list_first [OF assms] obtain cs rest where
    buf: "buf = cs @ NUL # rest" and "NUL \<notin> set cs" by blast
  then have "c_string buf = cs" by (simp add: c_string_append_NUL c_string_ident)
  with buf \<open>NUL \<notin> set cs\<close> show ?thesis by (simp add: strip_def strip_loop_append)
qed

lemma readfilebuf_missing:
  assumes "ext_call E (Fopen_rb p) m = (0, m1)" and "buf \<noteq> []"
  shows "readfilebuf E p buf n m = Some (0, NUL # tl buf, m1)"
  using assms by (cases buf) (simp_all add: readfilebuf_def store_def)

lemma readfilebuf_found:
  assumes "ext_call E (Fopen_rb p) m = (h, m1)" and "h \<noteq> 0"
    and "file_read E (n - 1) m1 = (d, m2)" and "bytes = (case d of None \<Rightarrow> [] | Some b \<Rightarrow> b)"
    and "0 < n" and "n \<le> length buf"
  shows "\<exists>rest. readfilebuf E p buf n m =
      Some (length bytes, bytes @ NUL # rest, ext_do E Fclose m2)"
proof -
  have len: "length bytes < length buf"
    using file_read_length [of E "n - 1" m1] assms(3-6) by (auto split: option.splits)
  obtain b bs where buf: "buf = b # bs" using assms(5,6) by (cases buf) auto
  have "readfilebuf E p buf n m =
      Some (length bytes, bytes @ NUL # drop (Suc (length bytes)) (NUL # bs), ext_do E Fclose m2)"
    using assms(1-4) len buf by (simp add: readfilebuf_def store_def Let_def)
  then show ?thesis by blast
qed

text \<open>
  \<open>isrealtime\<close> locks the memory exactly when the file exists and its first line is \<open>1\<close>; it never
  leaves its buffer.
\<close>

definition file_says_realtime :: "string option \<Rightarrow> bool" where
  "file_says_realtime d \<longleftrightarrow>
     (case d of None \<Rightarrow> False | Some b \<Rightarrow> takeWhile (\<lambda>c. \<not> is_eol c) (c_string b) = ''1'')"

lemma isrealtime_cases:
  assumes "ext_call E (Fopen_rb ''/sys/kernel/realtime'') m = (h, m1)"
    and "file_read E 62 m1 = (d, m2)"
  shows "isrealtime E m =
    (if h = 0 then Some (-3, m1)
     else if file_says_realtime d then Some (ext_call E Mlockall_current_future (ext_do E Fclose m2))
     else Some (-3, ext_do E Fclose m2))"
proof (cases "h = 0")
  case True
  with assms show ?thesis
    by (simp add: isrealtime_def readfilebuf_missing Let_def)
next
  case False
  define bytes where "bytes = (case d of None \<Rightarrow> [] | Some b \<Rightarrow> b)"
  obtain rest where r: "readfilebuf E ''/sys/kernel/realtime'' (replicate 64 NUL) 63 m =
      Some (length bytes, bytes @ NUL # rest, ext_do E Fclose m2)"
    using readfilebuf_found [OF assms(1) False, of 63 d m2 bytes "replicate 64 NUL"] assms(2)
    by (auto simp: bytes_def)
  have "c_string (strip (bytes @ NUL # rest)) = takeWhile (\<lambda>c. \<not> is_eol c) (c_string bytes)"
    by (simp add: c_string_strip c_string_append_NUL)
  moreover have "bytes \<noteq> []" if "takeWhile (\<lambda>c. \<not> is_eol c) (c_string bytes) = ''1''"
    using that by (auto simp: c_string_def)
  ultimately show ?thesis
    using False r
    by (auto simp: isrealtime_def file_says_realtime_def bytes_def c_string_def
        split: option.splits)
qed

subsection \<open>Properties\<close>

text \<open>C35: \<open>isrealtime\<close> never leaves its buffer. It locks the memory exactly when the file
  \<open>/sys/kernel/realtime\<close> can be opened and the text read from it, up to the first line end or
  zero, is \<open>1\<close>; then its result is that of \<open>mlockall\<close>, otherwise it is -3.\<close>

theorem isrealtime_decides:
  assumes "ext_call E (Fopen_rb ''/sys/kernel/realtime'') m = (h, m1)"
    and "file_read E 62 m1 = (d, m2)"
  shows "isrealtime E m =
    (if h = 0 then Some (-3, m1)
     else if file_says_realtime d then Some (ext_call E Mlockall_current_future (ext_do E Fclose m2))
     else Some (-3, ext_do E Fclose m2))"
  by (rule isrealtime_cases [OF assms])

theorem isrealtime_decides_witness:
  "file_says_realtime (Some ''1'') \<and>
   isrealtime (bench (\<lambda>_. 1) (\<lambda>_. 0)\<lparr>fread := \<lambda>k n. (Some [CHR ''1'', CHR 0x0A], n)\<rparr>) (start 0) =
   Some (1, \<lparr>env = 0, trace = [Call (Fopen_rb ''/sys/kernel/realtime'') 1,
     File 62 (Some [CHR ''1'', CHR 0x0A]), Call Fclose 1, Call Mlockall_current_future 1]\<rparr>)"
proof -
  let ?E = "bench (\<lambda>_. 1) (\<lambda>_. 0)\<lparr>fread := \<lambda>k n. (Some [CHR ''1'', CHR 0x0A], n)\<rparr>"
  let ?m1 = "\<lparr>env = 0, trace = [Call (Fopen_rb ''/sys/kernel/realtime'') 1]\<rparr>"
  let ?m2 = "\<lparr>env = 0, trace = [Call (Fopen_rb ''/sys/kernel/realtime'') 1,
     File 62 (Some [CHR ''1'', CHR 0x0A])]\<rparr>"
  have h: "ext_call ?E (Fopen_rb ''/sys/kernel/realtime'') (start 0) = (1, ?m1)"
    "file_read ?E 62 ?m1 = (Some [CHR ''1'', CHR 0x0A], ?m2)"
    by (simp_all add: ext_call_def file_read_def Let_def)
  have "file_says_realtime (Some [CHR ''1'', CHR 0x0A])" "file_says_realtime (Some ''1'')"
    by (simp_all add: file_says_realtime_def c_string_def is_eol_def)
  then show ?thesis using isrealtime_decides [OF h]
    by (simp add: ext_do_def ext_call_def)
qed

end
