(* ===== verification/Process_Data.thy ===== *)
theory Process_Data
  imports Spi_Regs Rt_Utilities Realtime
begin

section \<open>Process data: the object, the output ring and the EtherCAT task\<close>

text \<open>
  The data members of class \<open>rpi_base\<close> (\<open>include/rpi_base/rpi_base.h\<close>) and the member functions
  that move process data (\<open>rpi_base/src/rpi_base.cpp\<close>): the constructor, \<open>send_output\<close>,
  \<open>receive_input\<close>, \<open>SPIReadProcRamFifo\<close>, \<open>SPIWriteProcRamFifo\<close> and \<open>MainTask\<close>, each run to its
  end without interference; the interleaved runs of the two threads are in the theories
  \<open>Seqlock\<close> and \<open>Out_Ring\<close>.
  A result \<open>None\<close> stands for a run without a result: a polling loop that never ends, or an access
  outside an array.
\<close>

subsection \<open>The object\<close>

type_synonym PROCBUFFER = "256 word"

abbreviation ul :: "PROCBUFFER \<Rightarrow> nat \<Rightarrow> u64" where
  "ul b i \<equiv> slice_get b i"

abbreviation set_ul :: "PROCBUFFER \<Rightarrow> nat \<Rightarrow> u64 \<Rightarrow> PROCBUFFER" where
  "set_ul b i v \<equiv> slice_put b i v"

abbreviation (input) QINSize :: nat where "QINSize \<equiv> 10"

record 'f rpi_base =
  m_delay :: u64
  m_diffcycle :: u64
  outbuffer :: "char list"
  numeric :: "char list"
  m_curqidx :: u32
  m_curqoutidx :: u32
  m_BufferOutEthToSlaveBuffer :: PROCBUFFER
  BufferOut :: PROCBUFFER
  fromSlaveBufferIn :: "PROCBUFFER list"
  BufferIn :: PROCBUFFER
  m_runtime :: "'f STATBUFFER"
  m_period :: "'f STATBUFFER"
  m_lastruntime :: u64
  m_laststart :: u64
  m_count :: u64
  m_atomiccounter :: u32

text \<open>The array has a fixed number of slots.\<close>

definition wf_object :: "('f, 'x) rpi_base_scheme \<Rightarrow> bool" where
  "wf_object ob \<longleftrightarrow> length (fromSlaveBufferIn ob) = QINSize"

text \<open>
  The constructor, on the memory the object is built in. It leaves the members it does not
  mention as they were.
\<close>

definition rpi_base_ctor :: "'w platform \<Rightarrow> 'f fpu \<Rightarrow> ('f, 'x) rpi_base_scheme \<Rightarrow> 'w machine \<Rightarrow>
    (('f, 'x) rpi_base_scheme \<times> 'w machine) option" where
  "rpi_base_ctor E F ob m = do {
     let ob = ob\<lparr>m_runtime := reset F\<rparr>;
     let ob = ob\<lparr>m_period := reset F\<rparr>;
     (err, m) \<leftarrow> isrealtime E m;
     let ob = ob\<lparr>m_curqidx := 0\<rparr>;
     let ob = ob\<lparr>m_atomiccounter := 0\<rparr>;
     let ob = ob\<lparr>m_count := 0\<rparr>;
     let ob = ob\<lparr>m_laststart := 0\<rparr>;
     let ob = ob\<lparr>m_lastruntime := 0\<rparr>;
     Some (ob, m)
   }"

subsection \<open>The output ring\<close>

text \<open>Access to the slots of \<open>fromSlaveBufferIn\<close>.\<close>

definition slot :: "PROCBUFFER list \<Rightarrow> u32 \<Rightarrow> PROCBUFFER option" where
  "slot q i = (if unat i < length q then Some (q ! unat i) else None)"

definition set_slot_ul :: "PROCBUFFER list \<Rightarrow> u32 \<Rightarrow> nat \<Rightarrow> u64 \<Rightarrow> PROCBUFFER list option" where
  "set_slot_ul q i j v =
     (if unat i < length q then Some (q[unat i := set_ul (q ! unat i) j v]) else None)"

text \<open>The copy loop of \<open>send_output\<close>: \<open>source\<close> points at the words still to be copied.\<close>

fun send_loop :: "nat \<Rightarrow> nat \<Rightarrow> u64 list \<Rightarrow> ('f, 'x) rpi_base_scheme \<Rightarrow>
    ('f, 'x) rpi_base_scheme option" where
  "send_loop i 0 source ob = Some ob"
| "send_loop i (Suc n) [] ob = None"
| "send_loop i (Suc n) (x # source) ob = do {
     q \<leftarrow> set_slot_ul (fromSlaveBufferIn ob) (m_curqidx ob) i x;
     send_loop (Suc i) n source (ob\<lparr>fromSlaveBufferIn := q\<rparr>)
   }"

definition send_output ::
  "u64 list \<Rightarrow> ('f, 'x) rpi_base_scheme \<Rightarrow> ('f, 'x) rpi_base_scheme option" where
  "send_output source ob = do {
     ob \<leftarrow> send_loop 0 4 source ob;
     let ob = ob\<lparr>m_curqoutidx := m_curqidx ob\<rparr>;
     let ob = ob\<lparr>m_curqidx := m_curqidx ob + 1\<rparr>;
     Some (if of_nat QINSize \<le> m_curqidx ob then ob\<lparr>m_curqidx := 0\<rparr> else ob)
   }"

text \<open>
  The invariant of the ring: both indices are in range and \<open>m_curqidx\<close> is the slot after
  \<open>m_curqoutidx\<close>, which is the newest complete one. Before the first call the slot is not known.
\<close>

definition ring_bounds :: "('f, 'x) rpi_base_scheme \<Rightarrow> bool" where
  "ring_bounds ob \<longleftrightarrow> wf_object ob \<and> unat (m_curqidx ob) < QINSize \<and> unat (m_curqoutidx ob) < QINSize"

definition ring_inv :: "('f, 'x) rpi_base_scheme \<Rightarrow> bool" where
  "ring_inv ob \<longleftrightarrow> ring_bounds ob \<and>
     unat (m_curqidx ob) = (unat (m_curqoutidx ob) + 1) mod QINSize"

text \<open>The buffer made of four 64-bit words, and the output that the EtherCAT task will take.\<close>

definition pack :: "u64 list \<Rightarrow> PROCBUFFER" where
  "pack xs = fold (\<lambda>(i, c) s. set_ul s i c) (enumerate 0 xs) 0"

definition cur_output :: "('f, 'x) rpi_base_scheme \<Rightarrow> PROCBUFFER option" where
  "cur_output ob = slot (fromSlaveBufferIn ob) (m_curqoutidx ob)"

text \<open>The slot that was published \<open>k\<close> calls before the newest one.\<close>

definition past_output :: "nat \<Rightarrow> ('f, 'x) rpi_base_scheme \<Rightarrow> PROCBUFFER option" where
  "past_output k ob =
     slot (fromSlaveBufferIn ob) (of_nat ((unat (m_curqoutidx ob) + (QINSize - k)) mod QINSize))"

lemma ul_pack: "length xs = 4 \<Longrightarrow> i < 4 \<Longrightarrow> ul (pack xs) i = xs ! i"
  using buf_uls.get_fill [of 0 xs 0 i] by (simp add: pack_def)

lemma pack_any: "length xs = 4 \<Longrightarrow> fold (\<lambda>(i, c) s. set_ul s i c) (enumerate 0 xs) b = pack xs"
  unfolding pack_def by (rule buf_uls.fill_all_determined) simp

lemma send_loop_Some:
  assumes "unat (m_curqidx ob) < length (fromSlaveBufferIn ob)" and "length xs = n"
  shows "send_loop i n xs ob = Some (ob\<lparr>fromSlaveBufferIn := (fromSlaveBufferIn ob)
     [unat (m_curqidx ob) := fold (\<lambda>(i, c) s. set_ul s i c) (enumerate i xs)
        (fromSlaveBufferIn ob ! unat (m_curqidx ob))]\<rparr>)"
  using assms
proof (induction xs arbitrary: i n ob)
  case Nil
  then show ?case by simp
next
  case (Cons x xs)
  then obtain k where n: "n = Suc k" "length xs = k" by (cases n) auto
  let ?q = "(fromSlaveBufferIn ob)[unat (m_curqidx ob) :=
              set_ul (fromSlaveBufferIn ob ! unat (m_curqidx ob)) i x]"
  have "set_slot_ul (fromSlaveBufferIn ob) (m_curqidx ob) i x = Some ?q"
    using Cons.prems by (simp add: set_slot_ul_def)
  moreover have "send_loop (Suc i) k xs (ob\<lparr>fromSlaveBufferIn := ?q\<rparr>) =
      Some ((ob\<lparr>fromSlaveBufferIn := ?q\<rparr>)\<lparr>fromSlaveBufferIn := ?q[unat (m_curqidx ob) :=
        fold (\<lambda>(i, c) s. set_ul s i c) (enumerate (Suc i) xs) (?q ! unat (m_curqidx ob))]\<rparr>)"
    using Cons.IH [of "ob\<lparr>fromSlaveBufferIn := ?q\<rparr>" k "Suc i"] Cons.prems n by simp
  ultimately show ?case using Cons.prems n by simp
qed

lemma send_output_eq:
  assumes "ring_bounds ob" and "length xs = 4"
  shows "send_output xs ob = Some (ob\<lparr>
      fromSlaveBufferIn := (fromSlaveBufferIn ob)[unat (m_curqidx ob) := pack xs],
      m_curqoutidx := m_curqidx ob,
      m_curqidx := (if of_nat QINSize \<le> m_curqidx ob + 1 then 0 else m_curqidx ob + 1)\<rparr>)"
  using assms send_loop_Some [of ob xs 4 0]
  by (simp add: send_output_def ring_bounds_def wf_object_def pack_any)

lemma next_index:
  assumes "unat (i::u32) < QINSize"
  shows "unat (if of_nat QINSize \<le> i + 1 then 0 else i + 1) = (unat i + 1) mod QINSize"
proof -
  have "unat (i + 1) = unat i + 1" using assms by (simp add: unat_word_ariths)
  with assms show ?thesis by (cases "unat i = 9") (auto simp: word_le_nat_alt)
qed

lemma send_output_ring:
  assumes "ring_bounds ob" and "length xs = 4"
  obtains ob' where "send_output xs ob = Some ob'" "ring_inv ob'" "cur_output ob' = Some (pack xs)"
    "fromSlaveBufferIn ob' = (fromSlaveBufferIn ob)[unat (m_curqidx ob) := pack xs]"
    "m_curqoutidx ob' = m_curqidx ob"
proof -
  let ?ob = "ob\<lparr>
      fromSlaveBufferIn := (fromSlaveBufferIn ob)[unat (m_curqidx ob) := pack xs],
      m_curqoutidx := m_curqidx ob,
      m_curqidx := (if of_nat QINSize \<le> m_curqidx ob + 1 then 0 else m_curqidx ob + 1)\<rparr>"
  have i: "unat (m_curqidx ob) < QINSize" "length (fromSlaveBufferIn ob) = QINSize"
    using assms(1) by (simp_all add: ring_bounds_def wf_object_def)
  have "unat (m_curqidx ?ob) = (unat (m_curqidx ob) + 1) mod QINSize"
    using next_index [OF i(1)] by simp
  with i have "ring_inv ?ob" by (simp add: ring_inv_def ring_bounds_def wf_object_def)
  moreover have "cur_output ?ob = Some (pack xs)" using i by (simp add: cur_output_def slot_def)
  ultimately show ?thesis using that [OF send_output_eq [OF assms]] by simp
qed

lemma ring_step:
  assumes "i < (10::nat)" and "k < 9"
  shows "((i + 1) mod 10 + (10 - Suc k)) mod 10 = (i + (10 - k)) mod 10"
    and "(i + (10 - k)) mod 10 \<noteq> (i + 1) mod 10"
proof -
  have "((i + 1) mod 10 + (10 - Suc k)) mod 10 = (i + 1 + (10 - Suc k)) mod 10"
    by (simp add: mod_simps)
  also have "i + 1 + (10 - Suc k) = i + (10 - k)" using assms(2) by simp
  finally show "((i + 1) mod 10 + (10 - Suc k)) mod 10 = (i + (10 - k)) mod 10" .
  have "\<not> 10 dvd (i + (10 - k)) - (i + 1)"
    using assms(2) by (intro nat_dvd_not_less) simp_all
  then show "(i + (10 - k)) mod 10 \<noteq> (i + 1) mod 10"
    using assms(2) mod_eq_dvd_iff_nat [of "i + 1" "i + (10 - k)" 10] by simp
qed

lemma past_output_shift:
  assumes "ring_inv ob" and "length xs = 4" and "send_output xs ob = Some ob'" and "Suc k < QINSize"
  shows "past_output (Suc k) ob' = past_output k ob"
proof -
  let ?i = "unat (m_curqoutidx ob)"
  let ?j = "(?i + (10 - k)) mod 10"
  from assms(1) have b: "ring_bounds ob" and i: "?i < 10"
    and cur: "unat (m_curqidx ob) = (?i + 1) mod 10" and len: "length (fromSlaveBufferIn ob) = 10"
    by (simp_all add: ring_inv_def ring_bounds_def wf_object_def)
  from send_output_ring [OF b assms(2)] assms(3) have
    q: "fromSlaveBufferIn ob' = (fromSlaveBufferIn ob)[unat (m_curqidx ob) := pack xs]"
    and out: "m_curqoutidx ob' = m_curqidx ob" by (metis option.inject)+
  have k: "k < 9" using assms(4) by simp
  have u: "unat (of_nat ?j :: u32) = ?j" by (simp add: unat_of_nat)
  have "past_output (Suc k) ob' = slot (fromSlaveBufferIn ob') (of_nat ?j)"
    unfolding past_output_def out cur using ring_step(1) [OF i k] by simp
  also have "\<dots> = slot (fromSlaveBufferIn ob) (of_nat ?j)"
    unfolding slot_def q u using ring_step(2) [OF i k] cur by simp
  also have "\<dots> = past_output k ob" by (simp add: past_output_def)
  finally show ?thesis .
qed

interpretation out_ring: snapshot_ring send_output past_output ring_inv
  "\<lambda>xs. length xs = 4" pack QINSize
proof unfold_locales
  fix ob :: "('f, 'x) rpi_base_scheme" and xs :: "u64 list"
  assume "ring_inv ob" "length xs = 4"
  then have "ring_bounds ob" by (simp add: ring_inv_def)
  then obtain ob' where "send_output xs ob = Some ob'" "ring_inv ob'" "cur_output ob' = Some (pack xs)"
    using \<open>length xs = 4\<close> by (rule send_output_ring)
  moreover have "past_output 0 ob' = cur_output ob'"
    using \<open>ring_inv ob'\<close>
    by (simp add: past_output_def cur_output_def ring_inv_def ring_bounds_def)
  ultimately show "\<exists>ob'. send_output xs ob = Some ob' \<and> ring_inv ob' \<and> past_output 0 ob' = Some (pack xs)"
    by auto
qed (rule past_output_shift)

lemma cur_output_past: "ring_inv ob \<Longrightarrow> cur_output ob = past_output 0 ob"
  by (simp add: past_output_def cur_output_def ring_inv_def ring_bounds_def)

text \<open>The slots after a first call, which makes the indices consistent, and further ones.\<close>

lemma out_ring_from_first:
  assumes "ring_inv ob" and "cur_output ob = Some (pack xs)" and "\<forall>ys \<in> set yss. length ys = 4"
    and "fold_option send_output yss ob = Some ob'"
    and "k < min QINSize (length (xs # yss))"
  shows "past_output k ob' = Some (pack (rev (xs # yss) ! k))"
proof (cases "k < length yss")
  case True
  with out_ring.publish_all_past [OF assms(1,3,4) True] assms(5) show ?thesis
    by (simp add: nth_append)
next
  case False
  with assms(5) have k: "k = length yss" "length yss < QINSize" by simp_all
  have "past_output (length yss) ob' = past_output 0 ob"
    using out_ring.publish_all_shift [OF assms(1,3,4), of 0] k(2) by simp
  with cur_output_past [OF assms(1)] assms(2) k(1) show ?thesis by (simp add: nth_append)
qed

subsection \<open>The input buffer\<close>

text \<open>\<open>receive_input\<close> when no other thread runs: the buffer it stores in \<open>*pBufferOut\<close>.\<close>

partial_function (option) receive_input :: "('f, 'x) rpi_base_scheme \<Rightarrow> PROCBUFFER option" where
  "receive_input ob =
     (let localcounter = m_atomiccounter ob;
          pBufferOut = m_BufferOutEthToSlaveBuffer ob
      in if localcounter \<noteq> m_atomiccounter ob then receive_input ob else Some pBufferOut)"

lemma receive_input_eq: "receive_input ob = Some (m_BufferOutEthToSlaveBuffer ob)"
  by (simp add: receive_input.simps)

subsection \<open>The FIFOs of the process RAM\<close>

definition rd_fifo_wait :: "ULONG \<Rightarrow> bool" where
  "rd_fifo_wait TempLong \<longleftrightarrow>
     \<not> (Byte TempLong 0 AND PRAM_READ_AVAIL \<noteq> 0) \<or> Byte TempLong 1 \<noteq> 8"

definition wr_fifo_wait :: "ULONG \<Rightarrow> bool" where
  "wr_fifo_wait TempLong \<longleftrightarrow>
     \<not> (Byte TempLong 0 AND PRAM_WRITE_AVAIL \<noteq> 0) \<or> Byte TempLong 1 < 8"

definition SPIReadProcRamFifo :: "'w platform \<Rightarrow> ('f, 'x) rpi_base_scheme \<Rightarrow> 'w machine \<Rightarrow>
    (('f, 'x) rpi_base_scheme \<times> 'w machine) option" where
  "SPIReadProcRamFifo E ob m = do {
     let ob = ob\<lparr>m_atomiccounter := m_atomiccounter ob + 1\<rparr>;
     let m = Write_Reg E ECAT_PRAM_RD_ADDR_LEN 0x00201000 m;
     let m = Write_Reg E ECAT_PRAM_RD_CMD 0x80000000 m;
     (TempLong, m) \<leftarrow> poll (Read_Long E ECAT_PRAM_RD_CMD) rd_fifo_wait m;
     let m = SCS_Low_macro E m;
     let m = SPI_Write E COMM_SPI_READ m;
     let m = SPI_Write E 0x00 m;
     let m = SPI_Write E 0x00 m;
     let (b, m) = read_loop E 0 32 (BufferOut ob) m;
     let ob = ob\<lparr>BufferOut := b\<rparr>;
     let ob = ob\<lparr>m_BufferOutEthToSlaveBuffer := BufferOut ob\<rparr>;
     let m = SCS_High_macro E m;
     let ob = ob\<lparr>m_atomiccounter := m_atomiccounter ob + 1\<rparr>;
     Some (ob, m)
   }"

definition SPIWriteProcRamFifo :: "'w platform \<Rightarrow> ('f, 'x) rpi_base_scheme \<Rightarrow> 'w machine \<Rightarrow>
    (('f, 'x) rpi_base_scheme \<times> 'w machine) option" where
  "SPIWriteProcRamFifo E ob m = do {
     b \<leftarrow> slot (fromSlaveBufferIn ob) (m_curqoutidx ob);
     let ob = ob\<lparr>BufferIn := b\<rparr>;
     let m = Write_Reg E ECAT_PRAM_WR_ADDR_LEN 0x00201200 m;
     let m = Write_Reg E ECAT_PRAM_WR_CMD 0x80000000 m;
     (TempLong, m) \<leftarrow> poll (Read_Long E ECAT_PRAM_WR_CMD) wr_fifo_wait m;
     let m = SCS_Low_macro E m;
     let m = SPI_Write E COMM_SPI_WRITE m;
     let m = SPI_Write E 0x00 m;
     let m = SPI_Write E 0x20 m;
     let m = write_loop E 0 31 (BufferIn ob) m;
     let m = SPI_Write E (Byte (BufferIn ob) 31) m;
     let m = SCS_High_macro E m;
     Some (ob, m)
   }"

text \<open>What the two transfers look like on the bus.\<close>

definition fifo_read_actions :: "ULONG list \<Rightarrow> u8 list \<Rightarrow> action list" where
  "fifo_read_actions ws bs =
     [Reg_write ECAT_PRAM_RD_ADDR_LEN (le_bytes 4 (0x00201000 :: ULONG)),
      Reg_write ECAT_PRAM_RD_CMD (le_bytes 4 (0x80000000 :: ULONG))] @
     map (\<lambda>w. Reg_read ECAT_PRAM_RD_CMD (le_bytes 4 w)) ws @ [Reg_read ECAT_PRAM_RD_DATA bs]"

definition fifo_write_actions :: "ULONG list \<Rightarrow> u8 list \<Rightarrow> action list" where
  "fifo_write_actions ws bs =
     [Reg_write ECAT_PRAM_WR_ADDR_LEN (le_bytes 4 (0x00201200 :: ULONG)),
      Reg_write ECAT_PRAM_WR_CMD (le_bytes 4 (0x80000000 :: ULONG))] @
     map (\<lambda>w. Reg_read ECAT_PRAM_WR_CMD (le_bytes 4 w)) ws @ [Reg_write ECAT_PRAM_WR_DATA bs]"

lemma emits_fifo_start:
  assumes "poll (Read_Long E b) busy (Write_Reg E b y (Write_Reg E a x m)) = Some (t, m')"
  shows "\<exists>ws. polled busy ws \<and> emits m m'
     ([Reg_write a (le_bytes 4 (ucast x :: ULONG)), Reg_write b (le_bytes 4 (ucast y :: ULONG))] @
      map (\<lambda>w. Reg_read b (le_bytes 4 w)) ws)"
proof -
  obtain ws where "polled busy ws" "emits (Write_Reg E b y (Write_Reg E a x m)) m'
      (map (\<lambda>w. Reg_read b (le_bytes 4 w)) ws)"
    using poll_long_polled [OF assms] by blast
  then show ?thesis
    using emits_Cons [OF Write_Reg_emits emits_Cons [OF Write_Reg_emits]] by fastforce
qed

text \<open>The frames that carry the bytes.\<close>

lemma emits_read_data:
  assumes "read_loop E 0 32 b (SPI_Write E 0 (SPI_Write E 0
     (SPI_Write E COMM_SPI_READ (SCS_Low_macro E m)))) = (b', m')"
  shows "emits m (SCS_High_macro E m') [Reg_read ECAT_PRAM_RD_DATA (le_bytes 32 (b' :: PROCBUFFER))]"
proof -
  have "Byte ECAT_PRAM_RD_DATA 1 = 0" "Byte ECAT_PRAM_RD_DATA 0 = 0"
    by (simp_all add: slice_get_def)
  with assms show ?thesis
    by (intro emits_read_frame [where cells = 32 and E = E and u = b]) (simp_all del: One_nat_def)
qed

lemma emits_write_data:
  "emits m (SCS_High_macro E (SPI_Write E (Byte b 31) (write_loop E 0 31 b
     (SPI_Write E 0x20 (SPI_Write E 0x00 (SPI_Write E COMM_SPI_WRITE (SCS_Low_macro E m)))))))
     [Reg_write ECAT_PRAM_WR_DATA (le_bytes 32 (b :: PROCBUFFER))]"
proof -
  let ?x = "\<lambda>(b, r). Xfer b r"
  have a: "Byte ECAT_PRAM_WR_DATA 1 = 0" "Byte ECAT_PRAM_WR_DATA 0 = 0x20"
    by (simp_all add: slice_get_def)
  let ?h = "SPI_Write E 0x20 (SPI_Write E 0x00 (SPI_Write E COMM_SPI_WRITE (SCS_Low_macro E m)))"
  obtain rs where rs: "length rs = 31"
    "trace (write_loop E 0 31 b ?h) = trace ?h @ map ?x (zip (map (Byte b) [0..<0 + 31]) rs)"
    using log_write_loop by blast
  obtain r where r: "trace (SPI_Write E (Byte b 31) (write_loop E 0 31 b ?h)) =
      trace (write_loop E 0 31 b ?h) @ [Xfer (Byte b 31) r]"
    using log_SPI_Write by blast
  have "le_bytes 32 b = map (Byte b) [0..<0 + 31] @ [Byte b 31]"
    using le_bytes_append_last [of 31 b] by (simp add: le_bytes_def)
  with rs r have "trace (SPI_Write E (Byte b 31) (write_loop E 0 31 b ?h)) =
      trace ?h @ map ?x (zip (le_bytes 32 b) (rs @ [r]))"
    by simp
  then show ?thesis
    using rs(1) a by (intro emits_write_frame [where rs = "rs @ [r]" and E = E]) simp_all
qed

lemma SPIReadProcRamFifo_emits:
  assumes "SPIReadProcRamFifo E ob m = Some (ob', m')"
  shows "\<exists>ws b. polled rd_fifo_wait ws \<and> emits m m' (fifo_read_actions ws (le_bytes 32 b)) \<and>
     ob' = ob\<lparr>m_atomiccounter := m_atomiccounter ob + 2, BufferOut := b,
              m_BufferOutEthToSlaveBuffer := b\<rparr>"
proof -
  let ?m = "Write_Reg E ECAT_PRAM_RD_CMD 0x80000000 (Write_Reg E ECAT_PRAM_RD_ADDR_LEN 0x00201000 m)"
  from assms obtain t m1 where
    poll: "poll (Read_Long E ECAT_PRAM_RD_CMD) rd_fifo_wait ?m = Some (t, m1)"
    by (auto simp: SPIReadProcRamFifo_def Let_def bind_Some_iff)
  obtain b m2 where loop: "read_loop E 0 32 (BufferOut ob) (SPI_Write E 0 (SPI_Write E 0
            (SPI_Write E COMM_SPI_READ (SCS_Low_macro E m1)))) = (b, m2)"
    by fastforce
  from assms poll loop have m': "m' = SCS_High_macro E m2"
    and ob': "ob' = ob\<lparr>m_atomiccounter := m_atomiccounter ob + 2, BufferOut := b,
              m_BufferOutEthToSlaveBuffer := b\<rparr>"
    by (auto simp: SPIReadProcRamFifo_def Let_def ac_simps)
  obtain ws where ws: "polled rd_fifo_wait ws" "emits m m1
      ([Reg_write ECAT_PRAM_RD_ADDR_LEN (le_bytes 4 (ucast (0x00201000 :: u64) :: ULONG)),
        Reg_write ECAT_PRAM_RD_CMD (le_bytes 4 (ucast (0x80000000 :: u64) :: ULONG))] @
       map (\<lambda>w. Reg_read ECAT_PRAM_RD_CMD (le_bytes 4 w)) ws)"
    using emits_fifo_start [OF poll] by blast
  from emits_trans [OF ws(2) emits_read_data [OF loop]] ws(1) ob' m' show ?thesis
    by (auto simp: fifo_read_actions_def)
qed

lemma SPIWriteProcRamFifo_emits:
  assumes "SPIWriteProcRamFifo E ob m = Some (ob', m')"
  shows "\<exists>ws b. polled wr_fifo_wait ws \<and> cur_output ob = Some b \<and>
     emits m m' (fifo_write_actions ws (le_bytes 32 b)) \<and> ob' = ob\<lparr>BufferIn := b\<rparr>"
proof -
  let ?m = "Write_Reg E ECAT_PRAM_WR_CMD 0x80000000 (Write_Reg E ECAT_PRAM_WR_ADDR_LEN 0x00201200 m)"
  from assms obtain t m1 b where cur: "cur_output ob = Some b"
    and poll: "poll (Read_Long E ECAT_PRAM_WR_CMD) wr_fifo_wait ?m = Some (t, m1)"
    and ob': "ob' = ob\<lparr>BufferIn := b\<rparr>"
    and m': "m' = SCS_High_macro E (SPI_Write E (Byte b 31) (write_loop E 0 31 b
      (SPI_Write E 0x20 (SPI_Write E 0x00 (SPI_Write E COMM_SPI_WRITE (SCS_Low_macro E m1))))))"
    by (auto simp: SPIWriteProcRamFifo_def cur_output_def Let_def bind_Some_iff)
  obtain ws where ws: "polled wr_fifo_wait ws" "emits m m1
      ([Reg_write ECAT_PRAM_WR_ADDR_LEN (le_bytes 4 (ucast (0x00201200 :: u64) :: ULONG)),
        Reg_write ECAT_PRAM_WR_CMD (le_bytes 4 (ucast (0x80000000 :: u64) :: ULONG))] @
       map (\<lambda>w. Reg_read ECAT_PRAM_WR_CMD (le_bytes 4 w)) ws)"
    using emits_fifo_start [OF poll] by blast
  from emits_trans [OF ws(2) emits_write_data [of m1 E b]] ws(1) cur ob' show ?thesis
    by (auto simp: fifo_write_actions_def m')
qed

subsection \<open>The cyclic task\<close>

text \<open>The loop that clears \<open>BufferOut.ul[i]\<close>, with \<open>n\<close> rounds to go.\<close>

fun clear_loop :: "nat \<Rightarrow> nat \<Rightarrow> PROCBUFFER \<Rightarrow> PROCBUFFER" where
  "clear_loop i 0 b = b"
| "clear_loop i (Suc n) b = clear_loop (Suc i) n (set_ul b i 0)"

definition MainTask :: "'w platform \<Rightarrow> ('f, 'x) rpi_base_scheme \<Rightarrow> 'w machine \<Rightarrow>
    (u8 \<times> ('f, 'x) rpi_base_scheme \<times> 'w machine) option" where
  "MainTask E ob m = do {
     (r, m) \<leftarrow> Read_Reg_Wait E WDOG_STATUS 1 m;
     let TempLong = (ucast r :: ULONG);
     let WatchDog = (if Byte TempLong 0 AND 0x01 = 0x01 then False else True);
     (r, m) \<leftarrow> Read_Reg_Wait E AL_STATUS_REG_0 1 m;
     let TempLong = (ucast r :: ULONG);
     let Status = Byte TempLong 0 AND 0x0F;
     let Operational = (if Status = ESM_OP then True else False);
     (ob, m) \<leftarrow> (if WatchDog \<or> \<not> Operational
                then Some (ob\<lparr>BufferOut := clear_loop 0 4 (BufferOut ob)\<rparr>, m)
                else SPIReadProcRamFifo E ob m);
     (ob, m) \<leftarrow> SPIWriteProcRamFifo E ob m;
     let Status = (if WatchDog then Status OR 0x80 else Status);
     Some (Status, ob, m)
   }"

lemma clear_loop_fill:
  "clear_loop i n b = fold (\<lambda>(i, c) s. set_ul s i c) (enumerate i (replicate n 0)) b"
  by (induction n arbitrary: i b) simp_all

lemma clear_loop_zero: "clear_loop 0 4 b = 0"
  unfolding clear_loop_fill by (rule buf_uls.fill_all_unique) (simp_all add: slice_get_def)

text \<open>
  The specification of one cycle: what it reads from the core, what it does to the object and
  what it shows on the bus. \<open>wd\<close> is the watchdog status byte, \<open>al\<close> the AL status byte.
\<close>

definition csr_read_actions :: "u16 \<Rightarrow> ULONG list \<Rightarrow> u8 list \<Rightarrow> action list" where
  "csr_read_actions a ws bs =
     Reg_write ECAT_CSR_CMD [Byte a 0, Byte a 1, of_nat (length bs), ESC_READ] #
     csr_poll_actions ws @ [Reg_read ECAT_CSR_DATA bs]"

definition cycle_operational :: "u8 \<Rightarrow> u8 \<Rightarrow> bool" where
  "cycle_operational wd al \<longleftrightarrow> wd AND 0x01 = 0x01 \<and> al AND 0x0F = ESM_OP"

definition cycle_status :: "u8 \<Rightarrow> u8 \<Rightarrow> u8" where
  "cycle_status wd al = (al AND 0x0F) OR (if wd AND 0x01 = 0x01 then 0 else 0x80)"

inductive cycle_spec :: "('f, 'x) rpi_base_scheme \<Rightarrow> action list \<Rightarrow> u8 \<Rightarrow>
    ('f, 'x) rpi_base_scheme \<Rightarrow> bool" where
  operational:
    "\<lbrakk>cycle_operational wd al; cur_output ob = Some out;
      polled csr_busy ws1; polled csr_busy ws2; polled rd_fifo_wait ws3; polled wr_fifo_wait ws4\<rbrakk> \<Longrightarrow>
     cycle_spec ob
       (csr_read_actions WDOG_STATUS ws1 [wd] @ csr_read_actions AL_STATUS_REG_0 ws2 [al] @
        fifo_read_actions ws3 (le_bytes 32 b) @ fifo_write_actions ws4 (le_bytes 32 out))
       (cycle_status wd al)
       (ob\<lparr>m_atomiccounter := m_atomiccounter ob + 2, BufferOut := b,
           m_BufferOutEthToSlaveBuffer := b, BufferIn := out\<rparr>)"
| safe:
    "\<lbrakk>\<not> cycle_operational wd al; cur_output ob = Some out;
      polled csr_busy ws1; polled csr_busy ws2; polled wr_fifo_wait ws4\<rbrakk> \<Longrightarrow>
     cycle_spec ob
       (csr_read_actions WDOG_STATUS ws1 [wd] @ csr_read_actions AL_STATUS_REG_0 ws2 [al] @
        fifo_write_actions ws4 (le_bytes 32 out))
       (cycle_status wd al)
       (ob\<lparr>BufferOut := 0, BufferIn := out\<rparr>)"

lemma Read_Reg_Wait_byte:
  assumes "Read_Reg_Wait E a 1 m = Some (v, m')"
  shows "\<exists>ws. polled csr_busy ws \<and>
           emits m m' (csr_read_actions a ws [Byte (ucast v :: ULONG) 0])"
  using Read_Reg_Wait_emits(1) [OF assms] by (simp add: csr_read_actions_def le_bytes_def)

lemma MainTask_after_status:
  assumes "Read_Reg_Wait E WDOG_STATUS 1 m = Some (r1, m1)"
    and "Read_Reg_Wait E AL_STATUS_REG_0 1 m1 = Some (r2, m2)"
  shows "MainTask E ob m = (let wd = Byte (ucast r1 :: ULONG) 0; al = Byte (ucast r2 :: ULONG) 0 in do {
      (ob, m) \<leftarrow> (if \<not> cycle_operational wd al
                 then Some (ob\<lparr>BufferOut := clear_loop 0 4 (BufferOut ob)\<rparr>, m2)
                 else SPIReadProcRamFifo E ob m2);
      (ob, m) \<leftarrow> SPIWriteProcRamFifo E ob m;
      Some (cycle_status wd al, ob, m)})"
proof -
  define wd al where "wd = Byte (ucast r1 :: ULONG) 0" and "al = Byte (ucast r2 :: ULONG) 0"
  show ?thesis
    unfolding MainTask_def assms bind.bind_lunit Let_def prod.case cycle_operational_def
      cycle_status_def wd_def [symmetric] al_def [symmetric]
    by (cases "wd AND 0x01 = 0x01"; cases "al AND 0x0F = ESM_OP") (simp_all only: simp_thms if_True if_False or.right_neutral)
qed

text \<open>The parts of a cycle: the two status bytes, the data of the master or zeros, the own data.\<close>

lemma MainTask_parts:
  assumes "MainTask E ob m = Some (st, ob', m')"
  obtains wd al m2 ob1 m3 ws1 ws2 where "st = cycle_status wd al"
    "polled csr_busy ws1" "polled csr_busy ws2"
    "emits m m2 (csr_read_actions WDOG_STATUS ws1 [wd] @ csr_read_actions AL_STATUS_REG_0 ws2 [al])"
    "(if \<not> cycle_operational wd al then Some (ob\<lparr>BufferOut := clear_loop 0 4 (BufferOut ob)\<rparr>, m2)
      else SPIReadProcRamFifo E ob m2) = Some (ob1, m3)"
    "SPIWriteProcRamFifo E ob1 m3 = Some (ob', m')"
proof -
  from assms obtain r1 m1 r2 m2 where
    rd1: "Read_Reg_Wait E WDOG_STATUS 1 m = Some (r1, m1)"
    and rd2: "Read_Reg_Wait E AL_STATUS_REG_0 1 m1 = Some (r2, m2)"
    by (auto simp: MainTask_def Let_def bind_Some_iff)
  define wd al where "wd = Byte (ucast r1 :: ULONG) 0" and "al = Byte (ucast r2 :: ULONG) 0"
  obtain ws1 ws2 where ws: "polled csr_busy ws1" "polled csr_busy ws2"
    "emits m m1 (csr_read_actions WDOG_STATUS ws1 [wd])"
    "emits m1 m2 (csr_read_actions AL_STATUS_REG_0 ws2 [al])"
    using Read_Reg_Wait_byte [OF rd1] Read_Reg_Wait_byte [OF rd2] by (auto simp: wd_def al_def)
  let ?safe = "ob\<lparr>BufferOut := clear_loop 0 4 (BufferOut ob)\<rparr>"
  have "MainTask E ob m = do {
      (ob, m) \<leftarrow> (if \<not> cycle_operational wd al then Some (?safe, m2) else SPIReadProcRamFifo E ob m2);
      (ob, m) \<leftarrow> SPIWriteProcRamFifo E ob m;
      Some (cycle_status wd al, ob, m)}"
    using MainTask_after_status [OF rd1 rd2] unfolding Let_def wd_def al_def .
  with assms obtain ob1 m3 where
    mid: "(if \<not> cycle_operational wd al then Some (?safe, m2) else SPIReadProcRamFifo E ob m2) =
      Some (ob1, m3)"
    and wr: "SPIWriteProcRamFifo E ob1 m3 = Some (ob', m')"
    and st: "st = cycle_status wd al"
    by (auto simp: bind_Some_iff simp del: not_not)
  show thesis by (rule that [OF st ws(1,2) emits_trans [OF ws(3,4)] mid wr])
qed

lemma MainTask_cycle:
  assumes "MainTask E ob m = Some (st, ob', m')"
  shows "\<exists>as. emits m m' as \<and> cycle_spec ob as st ob'"
proof -
  obtain wd al m2 ob1 m3 ws1 ws2 where st: "st = cycle_status wd al"
    and ws: "polled csr_busy ws1" "polled csr_busy ws2"
    "emits m m2 (csr_read_actions WDOG_STATUS ws1 [wd] @ csr_read_actions AL_STATUS_REG_0 ws2 [al])"
    and mid: "(if \<not> cycle_operational wd al then Some (ob\<lparr>BufferOut := clear_loop 0 4 (BufferOut ob)\<rparr>, m2)
      else SPIReadProcRamFifo E ob m2) = Some (ob1, m3)"
    and wr: "SPIWriteProcRamFifo E ob1 m3 = Some (ob', m')"
    by (rule MainTask_parts [OF assms])
  obtain ws4 out where wr': "polled wr_fifo_wait ws4" "cur_output ob1 = Some out"
    "emits m3 m' (fifo_write_actions ws4 (le_bytes 32 out))" "ob' = ob1\<lparr>BufferIn := out\<rparr>"
    using SPIWriteProcRamFifo_emits [OF wr] by blast
  show ?thesis
  proof (cases "cycle_operational wd al")
    case True
    with mid have "SPIReadProcRamFifo E ob m2 = Some (ob1, m3)" by simp
    then obtain ws3 b where rd: "polled rd_fifo_wait ws3"
      "emits m2 m3 (fifo_read_actions ws3 (le_bytes 32 b))"
      "ob1 = ob\<lparr>m_atomiccounter := m_atomiccounter ob + 2, BufferOut := b,
              m_BufferOutEthToSlaveBuffer := b\<rparr>"
      using SPIReadProcRamFifo_emits by blast
    from wr'(2) rd(3) have "cur_output ob = Some out" by (simp add: cur_output_def)
    with cycle_spec.operational [OF True this ws(1,2) rd(1) wr'(1), of b]
      emits_trans [OF ws(3) emits_trans [OF rd(2) wr'(3)]]
    show ?thesis unfolding st wr'(4) rd(3) by auto
  next
    case False
    with mid have ob1: "ob1 = ob\<lparr>BufferOut := 0\<rparr>" and "m3 = m2" by (auto simp: clear_loop_zero)
    from wr'(2) ob1 have "cur_output ob = Some out" by (simp add: cur_output_def)
    with cycle_spec.safe [OF False this ws(1,2) wr'(1)] \<open>m3 = m2\<close>
      emits_trans [OF ws(3) wr'(3) [unfolded \<open>m3 = m2\<close>]]
    show ?thesis unfolding st wr'(4) ob1 by auto
  qed
qed

inductive_cases cycle_specE: "cycle_spec ob as st ob'"

lemma cycle_status_operational: "cycle_status wd al = ESM_OP \<longleftrightarrow> cycle_operational wd al"
proof (cases "wd AND 0x01 = 0x01")
  case True
  then show ?thesis by (simp add: cycle_status_def cycle_operational_def)
next
  case False
  have "bit ((al AND 0x0F) OR 0x80 :: u8) 7" by (simp add: bit_simps)
  moreover have "\<not> bit (ESM_OP :: u8) 7" by simp
  ultimately have "(al AND 0x0F) OR 0x80 \<noteq> ESM_OP" by metis
  with False show ?thesis by (simp add: cycle_status_def cycle_operational_def)
qed

lemma cycle_spec_frame:
  "cycle_spec ob as st ob' \<Longrightarrow>
   ob' = ob\<lparr>m_atomiccounter := m_atomiccounter ob', BufferOut := BufferOut ob',
     m_BufferOutEthToSlaveBuffer := m_BufferOutEthToSlaveBuffer ob', BufferIn := BufferIn ob'\<rparr>"
  by (erule cycle_specE) simp_all

lemma cycle_spec_ring:
  assumes "cycle_spec ob as st ob'"
  shows "ring_bounds ob' = ring_bounds ob" and "ring_inv ob' = ring_inv ob"
    and "past_output k ob' = past_output k ob" and "cur_output ob' = cur_output ob"
  using assms
  by (auto elim!: cycle_specE simp: ring_bounds_def ring_inv_def wf_object_def past_output_def
      cur_output_def)

text \<open>The last access of a cycle is the write of the newest output.\<close>

lemma cycle_spec_last:
  assumes "cycle_spec ob as st ob'"
  shows "\<exists>out. cur_output ob = Some out \<and> BufferIn ob' = out \<and> as \<noteq> [] \<and>
           last as = Reg_write ECAT_PRAM_WR_DATA (le_bytes 32 out)"
  using assms by (auto elim!: cycle_specE simp: fifo_write_actions_def)

subsection \<open>When a cycle ends\<close>

text \<open>
  A chip answers some time to what it was asked for: a status register that is polled, after the
  command that it reports on, is ready at some reading. Only states at rest are asked for anything: the SPI
  is set up, the chip is not selected, out of reset, and no transfer is under way. They are given by
  a predicate \<open>at_rest\<close> on the world; what leaves them has to come back.
\<close>

definition answers :: "'w platform \<Rightarrow> u16 \<Rightarrow> (ULONG \<Rightarrow> bool) \<Rightarrow> ('w machine \<Rightarrow> bool) \<Rightarrow> 'w machine \<Rightarrow> bool" where
  "answers E a busy Q m \<longleftrightarrow> (\<exists>n v m'. reading (Read_Long E a) n m = Some (v, m') \<and> \<not> busy v \<and>
     (\<forall>k < n. \<forall>u m1. reading (Read_Long E a) k m = Some (u, m1) \<longrightarrow> busy u) \<and> Q m')"

text \<open>The calls that neither move the chip select nor take the SPI away.\<close>

definition off_bus :: "call \<Rightarrow> bool" where
  "off_bus c \<longleftrightarrow> (\<forall>l. c \<noteq> Gpio_write PIN l) \<and>
     c \<noteq> Gpio_set PIN \<and> c \<noteq> Gpio_clr PIN \<and> c \<noteq> Bcm2835_spi_end \<and> c \<noteq> Bcm2835_close"

definition undisturbed :: "'w platform \<Rightarrow> ('w \<Rightarrow> bool) \<Rightarrow> bool" where
  "undisturbed E P \<longleftrightarrow> (\<forall>c w. off_bus c \<longrightarrow> P w \<longrightarrow> P (snd (xcall E c w))) \<and>
     (\<forall>w. P w \<longrightarrow> P (snd (clock E w))) \<and> (\<forall>n w. P w \<longrightarrow> P (snd (fread E n w)))"

text \<open>How the code starts a transfer of 32 bytes, and the frame that carries it.\<close>

definition read_started :: "'w platform \<Rightarrow> 'w machine \<Rightarrow> 'w machine" where
  "read_started E m =
     Write_Reg E ECAT_PRAM_RD_CMD 0x80000000 (Write_Reg E ECAT_PRAM_RD_ADDR_LEN 0x00201000 m)"

definition read_taken :: "'w platform \<Rightarrow> PROCBUFFER \<Rightarrow> 'w machine \<Rightarrow> 'w machine" where
  "read_taken E b m = SCS_High_macro E (snd (read_loop E 0 32 b (SPI_Write E 0 (SPI_Write E 0
     (SPI_Write E COMM_SPI_READ (SCS_Low_macro E m))))))"

definition write_started :: "'w platform \<Rightarrow> 'w machine \<Rightarrow> 'w machine" where
  "write_started E m =
     Write_Reg E ECAT_PRAM_WR_CMD 0x80000000 (Write_Reg E ECAT_PRAM_WR_ADDR_LEN 0x00201200 m)"

definition write_given :: "'w platform \<Rightarrow> PROCBUFFER \<Rightarrow> 'w machine \<Rightarrow> 'w machine" where
  "write_given E b m = SCS_High_macro E (SPI_Write E (Byte b 31) (write_loop E 0 31 b
     (SPI_Write E 0x20 (SPI_Write E 0x00 (SPI_Write E COMM_SPI_WRITE (SCS_Low_macro E m))))))"

text \<open>
  The chip answers: from every state at rest, the CSR port gets ready after a command, the read FIFO
  has the 8 words after a read of 32 bytes was started, and the write FIFO has room after a write was
  started; when the bytes have been taken or given the chip is at rest again. So it is after the accesses
  to the other registers that the program uses, and 2 ms after a digital reset.
\<close>

definition responsive :: "'w platform \<Rightarrow> ('w \<Rightarrow> bool) \<Rightarrow> bool" where
  "responsive E at_rest \<longleftrightarrow> undisturbed E at_rest \<and>
     (\<forall>m. at_rest (env m) \<longrightarrow>
        (\<forall>a \<in> {ECAT_CSR_DATA, IRQ_CFG, INT_EN}. \<forall>d. at_rest (env (Write_Reg E a d m))) \<and>
        (\<forall>d. at_rest (env (ext_do E (Usleep 2000) (Write_Reg E RESET_CTL d m)))) \<and>
        (\<forall>a \<in> {HW_CFG, BYTE_TEST, ECAT_CSR_DATA}. \<forall>n v m'.
           Read_Reg E a n m = Some (v, m') \<longrightarrow> at_rest (env m')) \<and>
        (\<forall>u a. \<forall>n \<in> {1, 2, 4}. \<forall>cmd \<in> {ESC_READ, ESC_WRITE}.
           answers E ECAT_CSR_CMD csr_busy (\<lambda>m'. at_rest (env m'))
             (Write_Reg E ECAT_CSR_CMD (ucast (csr_command u a n cmd)) m)) \<and>
        answers E ECAT_PRAM_RD_CMD rd_fifo_wait (\<lambda>m'. \<forall>b. at_rest (env (read_taken E b m')))
          (read_started E m) \<and>
        answers E ECAT_PRAM_WR_CMD wr_fifo_wait (\<lambda>m'. \<forall>b. at_rest (env (write_given E b m')))
          (write_started E m))"

lemma answers_poll:
  "answers E a busy Q m \<Longrightarrow> \<exists>v m'. poll (Read_Long E a) busy m = Some (v, m') \<and> Q m'"
  using long_port.poll_returns_at [where busy = busy] unfolding answers_def by blast

lemma answers_at_once:
  "Read_Long E a m = Some (v, m') \<Longrightarrow> \<not> busy v \<Longrightarrow> Q m' \<Longrightarrow> answers E a busy Q m"
  unfolding answers_def by (intro exI [where x = "0 :: nat"] exI [of _ v] exI [of _ m']) simp

text \<open>What keeps a state at rest.\<close>

lemma undisturbed_call:
  "undisturbed E P \<Longrightarrow> off_bus c \<Longrightarrow> P (env m) \<Longrightarrow> P (env (ext_do E c m))"
  by (simp add: undisturbed_def ext_do_env)

lemma undisturbed_ext_call:
  assumes "undisturbed E P" and "ext_call E c m = (r, m')" and "off_bus c" and "P (env m)"
  shows "P (env m')"
  using undisturbed_call [OF assms(1,3,4)] assms(2) by (simp add: ext_do_def)

lemma undisturbed_clock:
  "undisturbed E P \<Longrightarrow> clock_gettime E m = (t, m') \<Longrightarrow> P (env m) \<Longrightarrow> P (env m')"
  by (auto simp: undisturbed_def clock_gettime_def split: prod.splits)

lemma undisturbed_file:
  "undisturbed E P \<Longrightarrow> file_read E n m = (d, m') \<Longrightarrow> P (env m) \<Longrightarrow> P (env m')"
  by (auto simp: undisturbed_def file_read_def Let_def split: prod.splits) (metis snd_conv)

lemma responsive_undisturbed: "responsive E P \<Longrightarrow> undisturbed E P"
  by (simp add: responsive_def)

lemma responsive_write:
  "responsive E P \<Longrightarrow> P (env m) \<Longrightarrow> a \<in> {ECAT_CSR_DATA, IRQ_CFG, INT_EN} \<Longrightarrow> P (env (Write_Reg E a d m))"
  unfolding responsive_def by blast

lemma responsive_reset:
  "responsive E P \<Longrightarrow> P (env m) \<Longrightarrow> P (env (ext_do E (Usleep 2000) (Write_Reg E RESET_CTL d m)))"
  unfolding responsive_def by blast

lemma responsive_read:
  "responsive E P \<Longrightarrow> P (env m) \<Longrightarrow> a \<in> {HW_CFG, BYTE_TEST, ECAT_CSR_DATA} \<Longrightarrow>
   Read_Reg E a n m = Some (v, m') \<Longrightarrow> P (env m')"
  unfolding responsive_def by blast

lemma responsive_csr:
  assumes "responsive E P" and "P (env m)" and "n \<in> {1, 2, 4}" and "cmd \<in> {ESC_READ, ESC_WRITE}"
  shows "\<exists>v m'. poll (Read_Long E ECAT_CSR_CMD) csr_busy
     (Write_Reg E ECAT_CSR_CMD (ucast (csr_command u a n cmd)) m) = Some (v, m') \<and> P (env m')"
proof (rule answers_poll)
  show "answers E ECAT_CSR_CMD csr_busy (\<lambda>m'. P (env m'))
      (Write_Reg E ECAT_CSR_CMD (ucast (csr_command u a n cmd)) m)"
    using assms unfolding responsive_def by blast
qed

lemma Read_Reg_Wait_returns:
  assumes "responsive E P" and "P (env m)" and "n \<in> {1, 2, 4}"
  shows "\<exists>v m'. Read_Reg_Wait E a n m = Some (v, m') \<and> P (env m')"
proof -
  let ?m = "Write_Reg E ECAT_CSR_CMD (ucast (csr_command (indet E (env m)) a n ESC_READ)) m"
  obtain w m1 where "poll (Read_Long E ECAT_CSR_CMD) csr_busy ?m = Some (w, m1)" and P: "P (env m1)"
    using responsive_csr [OF assms, of ESC_READ] by blast
  moreover obtain v m2 where r: "Read_Reg E ECAT_CSR_DATA n m1 = Some (v, m2)"
    using Read_Reg_total [of n E ECAT_CSR_DATA m1] assms(3) by auto
  moreover have "P (env m2)" using responsive_read [OF assms(1) P _ r] by simp
  ultimately show ?thesis by (simp add: Read_Reg_Wait_def Let_def)
qed

lemma SPIReadProcRamFifo_returns:
  assumes "responsive E P" and "P (env m)"
  shows "\<exists>ob' m'. SPIReadProcRamFifo E ob m = Some (ob', m') \<and> P (env m')"
proof -
  have "answers E ECAT_PRAM_RD_CMD rd_fifo_wait (\<lambda>m'. \<forall>b. P (env (read_taken E b m'))) (read_started E m)"
    using assms unfolding responsive_def by blast
  then obtain t m1 where "poll (Read_Long E ECAT_PRAM_RD_CMD) rd_fifo_wait (read_started E m) = Some (t, m1)"
    and "\<forall>b. P (env (read_taken E b m1))"
    using answers_poll by blast
  moreover obtain b m2 where "read_loop E 0 32 (BufferOut ob) (SPI_Write E 0 (SPI_Write E 0
            (SPI_Write E COMM_SPI_READ (SCS_Low_macro E m1)))) = (b, m2)"
    by fastforce
  ultimately show ?thesis
    by (simp add: SPIReadProcRamFifo_def read_started_def read_taken_def Let_def) (metis snd_conv)
qed

lemma SPIWriteProcRamFifo_returns:
  assumes "responsive E P" and "P (env m)" and "ring_bounds ob"
  shows "\<exists>ob' m'. SPIWriteProcRamFifo E ob m = Some (ob', m') \<and> P (env m')"
proof -
  have "answers E ECAT_PRAM_WR_CMD wr_fifo_wait (\<lambda>m'. \<forall>b. P (env (write_given E b m'))) (write_started E m)"
    using assms(1,2) unfolding responsive_def by blast
  then obtain t m1 where "poll (Read_Long E ECAT_PRAM_WR_CMD) wr_fifo_wait (write_started E m) = Some (t, m1)"
    and "\<forall>b. P (env (write_given E b m1))"
    using answers_poll by blast
  moreover obtain b where "slot (fromSlaveBufferIn ob) (m_curqoutidx ob) = Some b"
    using assms(3) by (auto simp: slot_def ring_bounds_def wf_object_def)
  ultimately show ?thesis
    by (simp add: SPIWriteProcRamFifo_def write_started_def write_given_def Let_def)
qed

lemma MainTask_returns_if:
  assumes "responsive E P" and "P (env m)" and "ring_bounds ob"
  shows "\<exists>st ob' m'. MainTask E ob m = Some (st, ob', m') \<and> P (env m')"
proof -
  obtain r1 m1 where r1: "Read_Reg_Wait E WDOG_STATUS 1 m = Some (r1, m1)" and P1: "P (env m1)"
    using Read_Reg_Wait_returns [OF assms(1,2), of 1 WDOG_STATUS] by auto
  obtain r2 m2 where r2: "Read_Reg_Wait E AL_STATUS_REG_0 1 m1 = Some (r2, m2)" and P2: "P (env m2)"
    using Read_Reg_Wait_returns [OF assms(1) P1, of 1 AL_STATUS_REG_0] by auto
  let ?op = "cycle_operational (Byte (ucast r1 :: ULONG) 0) (Byte (ucast r2 :: ULONG) 0)"
  obtain ob1 m3 where mid: "(if \<not> ?op then Some (ob\<lparr>BufferOut := clear_loop 0 4 (BufferOut ob)\<rparr>, m2)
      else SPIReadProcRamFifo E ob m2) = Some (ob1, m3)" and b: "ring_bounds ob1" and P3: "P (env m3)"
  proof (cases ?op)
    case True
    obtain ob1 m3 where "SPIReadProcRamFifo E ob m2 = Some (ob1, m3)" "P (env m3)"
      using SPIReadProcRamFifo_returns [OF assms(1) P2] by blast
    with True that assms(3) show thesis
      using SPIReadProcRamFifo_emits [of E ob m2 ob1 m3]
      by (auto simp: ring_bounds_def wf_object_def)
  next
    case False
    with that assms(3) P2 show thesis by (simp add: ring_bounds_def wf_object_def)
  qed
  obtain ob2 m4 where "SPIWriteProcRamFifo E ob1 m3 = Some (ob2, m4)" "P (env m4)"
    using SPIWriteProcRamFifo_returns [OF assms(1) P3 b] by blast
  with MainTask_after_status [OF r1 r2, of ob] mid show ?thesis by (simp add: Let_def)
qed

text \<open>A bus that always delivers 0xFF, as with no chip connected: every status register is busy.\<close>

lemma read_loop_ff:
  assumes "\<And>b w. fst (xfer E b w) = 0xFF" and "read_loop E i n u m = (u', m')"
  shows "u' = fold (\<lambda>(i, c) s. set_Byte s i c) (enumerate i (replicate n 0xFF)) u"
  using assms(2)
proof (induction n arbitrary: i u m)
  case 0
  then show ?case by simp
next
  case (Suc n)
  obtain b m1 where b: "SPI_Read E DUMMY_BYTE m = (b, m1)" by fastforce
  then have "b = 0xFF"
    using assms(1) [of DUMMY_BYTE "env m"]
    by (auto simp: SPI_Read_def bcm2835_spi_transfer_def Let_def split: prod.splits)
  with Suc.prems b have "read_loop E (Suc i) n (set_Byte u i 0xFF) m1 = (u', m')" by simp
  from Suc.IH [OF this] show ?case by simp
qed

lemma Read_Long_ff:
  assumes "\<And>b w. fst (xfer E b w) = 0xFF"
  shows "\<exists>m'. Read_Long E a m = Some (0xFFFFFFFF, m')"
proof -
  obtain u m' where loop: "read_loop E 0 4 (indet E (env m)) (SPI_Write E (Byte a 0)
      (SPI_Write E (Byte a 1) (SPI_Write E COMM_SPI_READ (SCS_Low_macro E m)))) = (u, m')"
    by fastforce
  have "u = 0xFFFFFFFF"
    unfolding read_loop_ff [OF assms loop]
  proof (rule long_bytes.fill_all_unique)
    fix i :: nat assume "i < 4"
    then have "i = 0 \<or> i = 1 \<or> i = 2 \<or> i = 3" by auto
    then show "Byte (0xFFFFFFFF :: ULONG) i = replicate 4 0xFF ! i"
      by (auto simp: slice_get_def)
  qed simp
  with loop show ?thesis by (simp add: Read_Long_def Read_Reg_def Let_def)
qed

lemma reading_ff:
  assumes "\<And>b w. fst (xfer E b w) = 0xFF"
  shows "reading (Read_Long E a) n m = Some (v, m') \<Longrightarrow> v = 0xFFFFFFFF"
proof (induction n arbitrary: m)
  case 0
  then show ?case using Read_Long_ff [OF assms, of a m] by auto
next
  case (Suc n)
  obtain m1 where "Read_Long E a m = Some (0xFFFFFFFF, m1)"
    using Read_Long_ff [OF assms] by blast
  with Suc show ?case by simp
qed

lemma csr_busy_ff: "csr_busy 0xFFFFFFFF"
  by (simp add: csr_busy_def slice_get_def)

lemma Read_Reg_Wait_ff:
  assumes "\<And>b w. fst (xfer E b w) = 0xFF"
  shows "Read_Reg_Wait E a n m = None"
proof -
  have "poll (Read_Long E ECAT_CSR_CMD) csr_busy m1 = None" for m1
  proof (rule ccontr)
    assume "poll (Read_Long E ECAT_CSR_CMD) csr_busy m1 \<noteq> None"
    then obtain k v m2 where "reading (Read_Long E ECAT_CSR_CMD) k m1 = Some (v, m2)" "\<not> csr_busy v"
      using long_port.poll_returns_iff [of E ECAT_CSR_CMD csr_busy m1] by auto
    with reading_ff [OF assms] csr_busy_ff show False by metis
  qed
  then show ?thesis by (simp add: Read_Reg_Wait_def Let_def)
qed

subsection \<open>The layout of the process data\<close>

lemma Byte_ul: "k < 8 \<Longrightarrow> Byte (ul b j) k = Byte b (8 * j + k)"
proof (rule bit_word_eqI)
  fix n assume k: "k < 8" and "n < LENGTH(8)"
  have idx: "64 * j + (8 * k + n) = 8 * (8 * j + k) + n" by simp
  from \<open>n < LENGTH(8)\<close> k have "n < 8" "8 * k + n < 64" by simp_all
  then show "bit (Byte (ul b j) k) n = bit (Byte b (8 * j + k)) n"
    unfolding bit_slice_get by (simp add: idx)
qed

lemma le_bytes_uls: "le_bytes 32 (b :: PROCBUFFER) = concat (map (\<lambda>j. le_bytes 8 (ul b j)) [0..<4])"
proof -
  have "le_bytes 8 (ul b j) = map (Byte b) [8 * j..<8 * j + 8]" for j
    by (rule nth_equalityI) (simp_all add: Byte_ul)
  moreover have "[0..<32] = [0..<8] @ [8..<16] @ [16..<24] @ [24..<(32::nat)]"
    by (simp add: upt_rec)
  ultimately show ?thesis by (simp add: le_bytes_def upt_4)
qed

lemma pack_layout: "length xs = 4 \<Longrightarrow> le_bytes 32 (pack xs) = concat (map (le_bytes 8) xs)"
  unfolding le_bytes_uls
proof -
  assume len: "length xs = 4"
  then have "map (\<lambda>j. le_bytes 8 (ul (pack xs) j)) [0..<4] = map (\<lambda>j. le_bytes 8 (xs ! j)) [0..<4]"
    by (simp add: ul_pack)
  also have "\<dots> = map (le_bytes 8) xs" by (rule nth_equalityI) (simp_all add: len)
  finally show "concat (map (\<lambda>j. le_bytes 8 (ul (pack xs) j)) [0..<4]) = concat (map (le_bytes 8) xs)"
    by simp
qed

subsection \<open>Concrete objects and platforms\<close>

text \<open>The memory of a static object before its constructor runs.\<close>

definition static_object :: "'f fpu \<Rightarrow> 'f rpi_base" where
  "static_object F = \<lparr>m_delay = 0, m_diffcycle = 0, outbuffer = replicate 256 NUL,
     numeric = replicate 64 NUL, m_curqidx = 0, m_curqoutidx = 0, m_BufferOutEthToSlaveBuffer = 0,
     BufferOut = 0, fromSlaveBufferIn = replicate 10 0, BufferIn = 0, m_runtime = reset F,
     m_period = reset F, m_lastruntime = 0, m_laststart = 0, m_count = 0, m_atomiccounter = 0\<rparr>"

lemma static_object_bounds: "ring_bounds (static_object F)"
  by (simp add: static_object_def ring_bounds_def wf_object_def)

lemma answers_bench:
  "\<not> busy (word_of_bytes (f 3) (f 4) (f 5) (f 6)) \<Longrightarrow> answers (bench R f) a busy (\<lambda>m'. True) m"
  using Read_Long_bench [of R f a m] by (auto intro: answers_at_once)

text \<open>A chip that is always ready and in state INIT, and one that always delivers 0xFF.\<close>

definition init_chip :: "nat \<Rightarrow> u8" where
  "init_chip n = (if n = 3 then 1 else if n = 4 then 8 else 0)"

lemma init_chip_responsive: "responsive (bench R init_chip) (\<lambda>w. True)"
  by (simp add: responsive_def undisturbed_def answers_bench init_chip_def csr_busy_def rd_fifo_wait_def
      wr_fifo_wait_def)

lemma Read_Reg_bench_1:
  "\<exists>m'. Read_Reg (bench R f) a 1 m = Some (ucast (set_Byte (0::ULONG) 0 (f 3)), m')"
  by (simp add: Read_Reg_def bus_defs) (simp add: numeral_nat)

lemma Read_Reg_Wait_bench_1:
  assumes "\<not> csr_busy (word_of_bytes (f 3) (f 4) (f 5) (f 6))"
  shows "\<exists>v m'. Read_Reg_Wait (bench R f) a 1 m = Some (v, m') \<and> Byte (ucast v :: ULONG) 0 = f 3"
proof -
  obtain w m1 where "poll (Read_Long (bench R f) ECAT_CSR_CMD) csr_busy
      (Write_Reg (bench R f) ECAT_CSR_CMD
         (ucast (csr_command (indet (bench R f) (env m)) a 1 ESC_READ)) m) = Some (w, m1)"
    using poll_bench [where busy = csr_busy and f = f, OF assms] by blast
  moreover obtain m2 where
    "Read_Reg (bench R f) ECAT_CSR_DATA 1 m1 = Some (ucast (set_Byte (0::ULONG) 0 (f 3)), m2)"
    using Read_Reg_bench_1 by blast
  ultimately show ?thesis
    by (simp add: Read_Reg_Wait_def Let_def long_bytes.get_put_same)
qed

lemma init_chip_byte:
  "\<exists>v m'. Read_Reg_Wait (bench R init_chip) a 1 m = Some (v, m') \<and> Byte (ucast v :: ULONG) 0 = 1"
proof -
  have "\<not> csr_busy (word_of_bytes (init_chip 3) (init_chip 4) (init_chip 5) (init_chip 6))"
    by (simp add: init_chip_def csr_busy_def)
  from Read_Reg_Wait_bench_1 [where f = init_chip, OF this, of R a m] show ?thesis
    by (simp add: init_chip_def)
qed

lemma MainTask_init_chip:
  assumes "ring_bounds ob"
  shows "\<exists>ob' m'. MainTask (bench R init_chip) ob m = Some (ESM_INIT, ob', m')"
proof -
  obtain r1 m1 where r1: "Read_Reg_Wait (bench R init_chip) WDOG_STATUS 1 m = Some (r1, m1)"
    and b1: "Byte (ucast r1 :: ULONG) 0 = 1"
    using init_chip_byte by blast
  obtain r2 m2 where r2: "Read_Reg_Wait (bench R init_chip) AL_STATUS_REG_0 1 m1 = Some (r2, m2)"
    and b2: "Byte (ucast r2 :: ULONG) 0 = 1"
    using init_chip_byte by blast
  obtain st ob' m' where run: "MainTask (bench R init_chip) ob m = Some (st, ob', m')"
    using MainTask_returns_if [OF init_chip_responsive _ assms] by blast
  with MainTask_after_status [OF r1 r2, of ob] have "st = cycle_status 1 1"
    by (auto simp: Let_def b1 b2 Some_bind_iff bind_Some_iff simp del: not_not)
  then have "st = ESM_INIT" by (simp add: cycle_status_def)
  with run show ?thesis by blast
qed

subsection \<open>Properties\<close>

text \<open>The four 64-bit words passed to \<open>send_output\<close> go to the wire as 32 bytes: the words in
  order, each with its least significant byte first.\<close>

lemma send_output_layout:
  assumes "ring_bounds ob" and "length xs = 4"
  shows "\<exists>ob' out. send_output xs ob = Some ob' \<and> cur_output ob' = Some out \<and>
           le_bytes 32 out = concat (map (le_bytes 8) xs)"
  using send_output_ring [OF assms] pack_layout [OF assms(2)] by metis

text \<open>C24: The output ring keeps history. After any series of calls of \<open>send_output\<close>, each with
  four words, from a state whose indices are in range, every call has succeeded, the indices are
  consistent, and the last ten buffers (or all, when there were fewer) are in their slots, newest
  first; the newest is the one that the EtherCAT task will send.\<close>

theorem send_output_history:
  assumes "ring_bounds ob" and "xss \<noteq> []" and "\<forall>xs \<in> set xss. length xs = 4"
  shows "\<exists>ob'. fold_option send_output xss ob = Some ob' \<and> ring_inv ob' \<and>
           (\<forall>k < min QINSize (length xss). past_output k ob' = Some (pack (rev xss ! k))) \<and>
           cur_output ob' = Some (pack (last xss))"
proof -
  obtain xs yss where xss: "xss = xs # yss" using assms(2) by (cases xss) auto
  with assms(3) have xs: "length xs = 4" and yss: "\<forall>ys \<in> set yss. length ys = 4" by auto
  obtain ob1 where ob1: "send_output xs ob = Some ob1" "ring_inv ob1" "cur_output ob1 = Some (pack xs)"
    using send_output_ring [OF assms(1) xs] by blast
  obtain ob' where ob': "fold_option send_output yss ob1 = Some ob'" "ring_inv ob'"
    using out_ring.publish_all_inv [OF ob1(2) yss] by blast
  have past: "past_output k ob' = Some (pack (rev xss ! k))" if "k < min QINSize (length xss)" for k
    using out_ring_from_first [OF ob1(2,3) yss ob'(1)] that xss by simp
  moreover have "cur_output ob' = past_output 0 ob'"
    using ob'(2) by (rule cur_output_past)
  moreover have "rev xss ! 0 = last xss"
    using assms(2) by (simp add: hd_conv_nth [symmetric] hd_rev)
  ultimately show ?thesis
    using ob1(1) ob' past [of 0] by (auto simp: xss)
qed

theorem send_output_history_witness:
  "ring_bounds (static_object real_fpu) \<and>
   (\<exists>ob'. fold_option send_output [[1, 1, 1, 1], [2, 2, 2, 2]] (static_object real_fpu) = Some ob' \<and>
      ring_inv ob' \<and>
      (\<forall>k < min QINSize (length [[1, 1, 1, 1], [2, 2, 2, 2 :: u64]]).
         past_output k ob' = Some (pack (rev [[1, 1, 1, 1], [2, 2, 2, 2]] ! k))) \<and>
      cur_output ob' = Some (pack (last [[1, 1, 1, 1], [2, 2, 2, 2]])))"
proof -
  have "\<forall>xs \<in> set [[1, 1, 1, 1], [2, 2, 2, 2 :: u64]]. length xs = 4" by simp
  from send_output_history [OF static_object_bounds _ this, of real_fpu]
  show ?thesis using static_object_bounds by blast
qed

text \<open>C8: One cycle, when it ends, does what the specification \<open>cycle_spec\<close> says: it reads the
  watchdog and the AL status over the CSR protocol; exactly when the watchdog is served and the
  state is OP it fetches 32 bytes from the read FIFO and publishes them, otherwise it clears its
  own copy; then it always writes the newest output to the write FIFO. The result is the state
  with bit 7 set for an expired watchdog, and no other member of the object changes.\<close>

theorem MainTask_refines:
  assumes "MainTask E ob m = Some (st, ob', m')"
  shows "\<exists>as. emits m m' as \<and> cycle_spec ob as st ob'"
  by (rule MainTask_cycle [OF assms])

theorem MainTask_refines_witness:
  "\<exists>ob' m'. MainTask (bench (\<lambda>_. 1) init_chip) (static_object real_fpu) (start 0) =
     Some (ESM_INIT, ob', m') \<and>
   (\<exists>as. emits (start 0) m' as \<and> cycle_spec (static_object real_fpu) as ESM_INIT ob')"
proof -
  obtain ob' m' where run: "MainTask (bench (\<lambda>_. 1) init_chip) (static_object real_fpu) (start 0) =
      Some (ESM_INIT, ob', m')"
    using MainTask_init_chip [OF static_object_bounds] by blast
  show ?thesis using run MainTask_refines [OF run] by blast
qed

text \<open>A cycle whose result is not the plain state OP has cleared \<open>BufferOut\<close> and has not
  touched the buffer that \<open>receive_input\<close> hands to the application: the application keeps the
  last process data it got while the slave was operational, also after the watchdog has expired.\<close>

lemma MainTask_safe_keeps_input:
  assumes "MainTask E ob m = Some (st, ob', m')" and "st \<noteq> ESM_OP"
  shows "BufferOut ob' = 0 \<and>
         m_BufferOutEthToSlaveBuffer ob' = m_BufferOutEthToSlaveBuffer ob \<and>
         m_atomiccounter ob' = m_atomiccounter ob"
proof -
  obtain as where "cycle_spec ob as st ob'" using MainTask_cycle [OF assms(1)] by blast
  then show ?thesis
    using assms(2) cycle_status_operational by (auto elim!: cycle_specE)
qed

text \<open>Every cycle that starts at rest ends when the chip is responsive and the indices of the output
  ring are in range; then the chip is at rest again, and the ring is as before.\<close>

lemma MainTask_returns:
  assumes "responsive E at_rest" and "at_rest (env m)" and "ring_bounds ob"
  shows "\<exists>st ob' m'. MainTask E ob m = Some (st, ob', m') \<and> at_rest (env m') \<and> ring_bounds ob' \<and>
           cur_output ob' = cur_output ob"
proof -
  obtain st ob' m' where run: "MainTask E ob m = Some (st, ob', m')" "at_rest (env m')"
    using MainTask_returns_if [OF assms] by blast
  then obtain as where "cycle_spec ob as st ob'" using MainTask_cycle by blast
  with run assms(3) show ?thesis by (auto simp: cycle_spec_ring)
qed

text \<open>With a bus that only delivers ones (no chip, or the chip in reset) the cycle never
  ends: the waiting loops have no bound.\<close>

lemma MainTask_hangs_on_floating_bus:
  assumes "\<And>b w. fst (xfer E b w) = 0xFF"
  shows "MainTask E ob m = None"
  using Read_Reg_Wait_ff [OF assms] by (simp add: MainTask_def)

end
