(* ===== verification/Ioctl.thy ===== *)
theory Ioctl
  imports Prelude
begin

section \<open>The commands of the interrupt device\<close>

text \<open>
  The ioctl commands of \<open>include/gpioirq/gpioirq.h\<close>, shared by the shield class, the user space
  test and the kernel driver. The packing of a command (\<open>asm-generic/ioctl.h\<close> of Linux) is: the
  number in bits 0 to 7, the type in bits 8 to 15, the size in bits 16 to 29, the direction in
  bits 30 and 31.
\<close>

definition IOC :: "u32 \<Rightarrow> u32 \<Rightarrow> u32 \<Rightarrow> u32 \<Rightarrow> u32" where
  "IOC dir ty nr sz = push_bit 30 dir OR push_bit 8 ty OR nr OR push_bit 16 sz"

definition IOC_NR :: "u32 \<Rightarrow> u32" where
  "IOC_NR cmd = cmd AND 0xFF"

definition IOC_TYPE :: "u32 \<Rightarrow> u32" where
  "IOC_TYPE cmd = drop_bit 8 cmd AND 0xFF"

definition IOC_SIZE :: "u32 \<Rightarrow> u32" where
  "IOC_SIZE cmd = drop_bit 16 cmd AND 0x3FFF"

definition IOC_DIR :: "u32 \<Rightarrow> u32" where
  "IOC_DIR cmd = drop_bit 30 cmd AND 3"

abbreviation (input) IOC_NONE :: u32 where "IOC_NONE \<equiv> 0"
abbreviation (input) IOC_WRITE :: u32 where "IOC_WRITE \<equiv> 1"
abbreviation (input) IOC_READ :: u32 where "IOC_READ \<equiv> 2"

definition DEVICE_NAME :: string where "DEVICE_NAME = ''gpioirq''"

abbreviation (input) IRQMOD_BASE :: u32 where "IRQMOD_BASE \<equiv> 40"
abbreviation (input) IRQMOD_IOC_MAGIC :: u32 where "IRQMOD_IOC_MAGIC \<equiv> 0x42"

definition IRQMODDEV_WAIT_IRQ :: u32 where "IRQMODDEV_WAIT_IRQ = IRQMOD_BASE + 1"
definition IRQMODDEV_DOWN_TIMEOUT :: u32 where "IRQMODDEV_DOWN_TIMEOUT = IRQMOD_BASE + 2"

definition IRQMOD_WAIT_IRQ :: u32 where
  "IRQMOD_WAIT_IRQ = IOC IOC_NONE IRQMOD_IOC_MAGIC IRQMODDEV_WAIT_IRQ 0"

definition IRQMOD_DOWN_TIMEOUT :: u32 where
  "IRQMOD_DOWN_TIMEOUT = IOC IOC_WRITE IRQMOD_IOC_MAGIC IRQMODDEV_DOWN_TIMEOUT 4"

text \<open>What the receiver of a command takes out of it is what the sender packed into it.\<close>

lemma ioc_fields:
  assumes "dir < 4" and "ty < 256" and "nr < 256" and "sz < 0x4000"
  shows "IOC_NR (IOC dir ty nr sz) = nr" "IOC_TYPE (IOC dir ty nr sz) = ty"
    "IOC_SIZE (IOC dir ty nr sz) = sz" "IOC_DIR (IOC dir ty nr sz) = dir"
proof -
  have b: "\<not> bit (x :: u32) n" if "unat x < 2 ^ k" "k \<le> n" for x k n
  proof -
    have "unat x < 2 ^ n" using that by (meson less_le_trans one_le_numeral power_increasing)
    then have "\<not> bit (unat x) n" by (simp add: bit_iff_odd)
    then show ?thesis by (auto simp: bit_unsigned_iff dest: bit_imp_le_length)
  qed
  have dir: "n < 2" if "bit dir n" for n
    using b [of dir 2 n] assms(1) that by (cases "n < 2") (simp_all add: word_less_nat_alt)
  have ty: "n < 8" if "bit ty n" for n
    using b [of ty 8 n] assms(2) that by (cases "n < 8") (simp_all add: word_less_nat_alt)
  have nr: "n < 8" if "bit nr n" for n
    using b [of nr 8 n] assms(3) that by (cases "n < 8") (simp_all add: word_less_nat_alt)
  have sz: "n < 14" if "bit sz n" for n
    using b [of sz 14 n] assms(4) that by (cases "n < 14") (simp_all add: word_less_nat_alt)
  have m: "(0xFF :: u32) = mask 8" "(0x3FFF :: u32) = mask 14" "(3 :: u32) = mask 2"
    by (simp_all add: mask_eq_exp_minus_1)
  show "IOC_NR (IOC dir ty nr sz) = nr"
    unfolding IOC_NR_def IOC_def m
    by (rule bit_word_eqI) (auto simp: bit_simps dest: nr)
  show "IOC_TYPE (IOC dir ty nr sz) = ty"
    unfolding IOC_TYPE_def IOC_def m
    by (rule bit_word_eqI) (auto simp: bit_simps dest: nr ty)
  show "IOC_SIZE (IOC dir ty nr sz) = sz"
    unfolding IOC_SIZE_def IOC_def m
    by (rule bit_word_eqI) (auto simp: bit_simps dest: nr ty sz)
  show "IOC_DIR (IOC dir ty nr sz) = dir"
    unfolding IOC_DIR_def IOC_def m
    by (rule bit_word_eqI) (auto simp: bit_simps dest: nr ty sz dir)
qed

lemma irqmod_commands:
  "IOC_NR IRQMOD_WAIT_IRQ = IRQMODDEV_WAIT_IRQ" "IOC_DIR IRQMOD_WAIT_IRQ = IOC_NONE"
  "IOC_NR IRQMOD_DOWN_TIMEOUT = IRQMODDEV_DOWN_TIMEOUT" "IOC_DIR IRQMOD_DOWN_TIMEOUT = IOC_WRITE"
  "IOC_SIZE IRQMOD_DOWN_TIMEOUT = 4" "IRQMODDEV_WAIT_IRQ \<noteq> IRQMODDEV_DOWN_TIMEOUT"
  unfolding IRQMOD_WAIT_IRQ_def IRQMOD_DOWN_TIMEOUT_def
  by (simp_all add: ioc_fields IRQMODDEV_WAIT_IRQ_def IRQMODDEV_DOWN_TIMEOUT_def)

end
