(* ===== verification/Shield.thy ===== *)
theory Shield
  imports Process_Data Ioctl
begin

section \<open>The shield: start-up, reset and the cyclic thread\<close>

text \<open>
  Class \<open>etherberry_9252\<close> (\<open>shield_9252/src/shield_9252.cpp\<close>), which extends \<open>rpi_base\<close> by the
  handle of the interrupt device, together with \<open>rpi_base::spi_init\<close> and \<open>Getns\<close>. The printed
  messages are left out. The endless loop of \<open>execute_fromthread\<close> is given as its body, and as
  the run of a number of rounds.
\<close>

subsection \<open>The object\<close>

record 'f etherberry_9252 = "'f rpi_base" +
  m_devhndl :: int

definition etherberry_ctor :: "'w platform \<Rightarrow> 'f fpu \<Rightarrow> 'f etherberry_9252 \<Rightarrow> 'w machine \<Rightarrow>
    ('f etherberry_9252 \<times> 'w machine) option" where
  "etherberry_ctor E F ob m = do {
     (ob, m) \<leftarrow> rpi_base_ctor E F ob m;
     let ob = ob\<lparr>m_devhndl := - 1\<rparr>;
     Some (ob, m)
   }"

definition etherberry_dtor :: "'w platform \<Rightarrow> 'f etherberry_9252 \<Rightarrow> 'w machine \<Rightarrow> 'w machine" where
  "etherberry_dtor E ob m =
     (if m_devhndl ob \<noteq> - 1 then ext_do E (Close (m_devhndl ob)) m else m)"

definition waitforirq_or_timeout :: "'w platform \<Rightarrow> 'f etherberry_9252 \<Rightarrow> u32 \<Rightarrow> 'w machine \<Rightarrow>
    int \<times> 'w machine" where
  "waitforirq_or_timeout E ob timeoutms m =
     (let err = - 1
      in if m_devhndl ob \<noteq> - 1 then ext_call E (Ioctl (m_devhndl ob) IRQMOD_DOWN_TIMEOUT timeoutms) m
         else (err, m))"

subsection \<open>Start-up\<close>

definition spi_init :: "'w platform \<Rightarrow> 'w machine \<Rightarrow> int \<times> 'w machine" where
  "spi_init E m =
     (let err = 0; (r, m) = ext_call E Bcm2835_init m
      in if r = 0 then (let err = - 10 in (err, m))
         else (let (r, m) = ext_call E Bcm2835_spi_begin m
           in if r = 0 then (let err = - 9 in (err, m))
              else (let m = ext_do E Spi_setBitOrder_MSBFIRST m;
                        m = ext_do E Spi_setDataMode_MODE0 m;
                        m = ext_do E (Spi_setClockDivider 16) m;
                        m = ext_do E Spi_chipSelect_CS_NONE m;
                        m = ext_do E (Spi_setChipSelectPolarity_CS0 LOW) m;
                        m = ext_do E (Gpio_fsel_OUTP PIN) m;
                        m = ext_do E (Gpio_fsel_OUTP OUT) m
                    in (err, m))))"

abbreviation (input) TEST_PATTERN :: ULONG where "TEST_PATTERN \<equiv> 0x87654321"

definition is_resetneeded :: "'w platform \<Rightarrow> 'w machine \<Rightarrow> (int \<times> 'w machine) option" where
  "is_resetneeded E m = do {
     let err = 0;
     (TempLong, m) \<leftarrow> Read_Long E HW_CFG m;
     if TempLong AND READY \<noteq> 0 then do {
       (TempLong, m) \<leftarrow> Read_Long E BYTE_TEST m;
       let err = (if TempLong \<noteq> TEST_PATTERN then - 15 else err);
       Some (err, m)
     } else Some (- 11, m)
   }"

definition do_resetshield :: "'w platform \<Rightarrow> 'w machine \<Rightarrow> (int \<times> 'w machine) option" where
  "do_resetshield E m = do {
     let m = Write_Reg E RESET_CTL DIGITAL_RST m;
     let m = ext_do E (Usleep 2000) m;
     let m = Write_Reg E RESET_CTL DIGITAL_RST m;
     let m = ext_do E (Usleep 2000) m;
     (TempLong, m) \<leftarrow> Read_Long E BYTE_TEST m;
     let err = (if TempLong = TEST_PATTERN then 0 else - 9);
     Some (err, m)
   }"

text \<open>\<open>snprintf\<close> with the format \<open>/%s/%s\<close>.\<close>

definition device_path :: string where
  "device_path = ''/'' @ ''dev'' @ ''/'' @ DEVICE_NAME"

definition do_initirq :: "'w platform \<Rightarrow> 'f etherberry_9252 \<Rightarrow> 'w machine \<Rightarrow>
    (int \<times> 'f etherberry_9252 \<times> 'w machine) option" where
  "do_initirq E ob m = do {
     m \<leftarrow> Write_Reg_Wait E AL_EVENT_MASK_REG_0 0x00000100 m;
     let m = Write_Reg E IRQ_CFG 0x00000111 m;
     let m = Write_Reg E INT_EN 0x00000001 m;
     let (h, m) = ext_call E (Open_RDWR device_path) m;
     let ob = ob\<lparr>m_devhndl := h\<rparr>;
     Some (if m_devhndl ob = - 1 then (- 27, ob, m) else (0, ob, m))
   }"

definition init :: "'w platform \<Rightarrow> 'f etherberry_9252 \<Rightarrow> 'w machine \<Rightarrow>
    (int \<times> 'f etherberry_9252 \<times> 'w machine) option" where
  "init E ob m =
     (let (err, m) = spi_init E m in
      if err \<noteq> 0 then Some (err, ob, m)
      else do {
        (needed, m) \<leftarrow> is_resetneeded E m;
        (err, m) \<leftarrow> (if needed \<noteq> 0 then do_resetshield E m else Some (err, m));
        if err \<noteq> 0 then Some (err, ob, m) else do_initirq E ob m
      })"

subsection \<open>The cyclic thread\<close>

definition Getns :: "'w platform \<Rightarrow> 'w machine \<Rightarrow> u64 \<times> 'w machine" where
  "Getns E m =
     (let ((tv_sec, tv_nsec), m) = clock_gettime E m
      in (word_of_int (tv_sec * 1000000000 + tv_nsec), m))"

text \<open>The end of a round: the times of this round go into the statistics from the third one on.\<close>

definition record_times :: "'f fpu \<Rightarrow> u64 \<Rightarrow> u64 \<Rightarrow> ('f, 'x) rpi_base_scheme \<Rightarrow>
    ('f, 'x) rpi_base_scheme" where
  "record_times F start_run now ob =
     (let ob = ob\<lparr>m_lastruntime := now - start_run\<rparr>;
          ob = (if 1 < m_count ob then
                  (let period = start_run - m_laststart ob;
                       ob = ob\<lparr>m_runtime := calc F (fmul F (of_ull F (m_lastruntime ob)) (lit_1E_3 F))
                                 (m_runtime ob)\<rparr>
                   in ob\<lparr>m_period := calc F (fmul F (of_ull F period) (lit_1E_6 F)) (m_period ob)\<rparr>)
                else ob);
          ob = ob\<lparr>m_count := m_count ob + 1\<rparr>
      in ob\<lparr>m_laststart := start_run\<rparr>)"

definition execute_round :: "'w platform \<Rightarrow> 'f fpu \<Rightarrow> 'f etherberry_9252 \<Rightarrow> 'w machine \<Rightarrow>
    ('f etherberry_9252 \<times> 'w machine) option" where
  "execute_round E F ob m = do {
     let timeoutms = 100;
     let (err, m) = waitforirq_or_timeout E ob timeoutms m;
     let (start_run, m) = Getns E m;
     let m = ext_do E (Gpio_set OUT) m;
     (st, ob, m) \<leftarrow> MainTask E ob m;
     let m = ext_do E (Gpio_clr OUT) m;
     let (now, m) = Getns E m;
     Some (record_times F start_run now ob, m)
   }"

text \<open>The first \<open>n\<close> rounds of the loop \<open>while (1)\<close>.\<close>

fun execute_fromthread :: "nat \<Rightarrow> 'w platform \<Rightarrow> 'f fpu \<Rightarrow> 'f etherberry_9252 \<Rightarrow> 'w machine \<Rightarrow>
    ('f etherberry_9252 \<times> 'w machine) option" where
  "execute_fromthread 0 E F ob m = Some (ob, m)"
| "execute_fromthread (Suc n) E F ob m = do {
     (ob, m) \<leftarrow> execute_round E F ob m;
     execute_fromthread n E F ob m
   }"

subsection \<open>What start-up shows on the bus\<close>

definition spi_setup_actions :: "int \<Rightarrow> int \<Rightarrow> int list \<Rightarrow> action list" where
  "spi_setup_actions r s rs = [Ext Bcm2835_init r, Ext Bcm2835_spi_begin s] @
     map2 Ext [Spi_setBitOrder_MSBFIRST, Spi_setDataMode_MODE0, Spi_setClockDivider 16,
       Spi_chipSelect_CS_NONE, Spi_setChipSelectPolarity_CS0 LOW, Gpio_fsel_OUTP PIN,
       Gpio_fsel_OUTP OUT] rs"

text \<open>The chip is healthy when it says it is ready and its test register can be read.\<close>

inductive chip_check :: "action list \<Rightarrow> bool \<Rightarrow> bool" where
  not_ready: "hw AND READY = 0 \<Longrightarrow> chip_check [Reg_read HW_CFG (le_bytes 4 hw)] False"
| tested: "hw AND READY \<noteq> 0 \<Longrightarrow>
    chip_check [Reg_read HW_CFG (le_bytes 4 hw), Reg_read BYTE_TEST (le_bytes 4 t)] (t = TEST_PATTERN)"

definition reset_actions :: "int \<Rightarrow> int \<Rightarrow> ULONG \<Rightarrow> action list" where
  "reset_actions r1 r2 t =
     [Reg_write RESET_CTL (le_bytes 4 (1 :: ULONG)), Ext (Usleep 2000) r1,
      Reg_write RESET_CTL (le_bytes 4 (1 :: ULONG)), Ext (Usleep 2000) r2,
      Reg_read BYTE_TEST (le_bytes 4 t)]"

definition irq_actions :: "ULONG list \<Rightarrow> int \<Rightarrow> action list" where
  "irq_actions ws h =
     [Reg_write ECAT_CSR_DATA (le_bytes 4 (0x100 :: ULONG)),
      Reg_write ECAT_CSR_CMD [Byte AL_EVENT_MASK_REG_0 0, Byte AL_EVENT_MASK_REG_0 1, 4, ESC_WRITE]] @
     csr_poll_actions ws @
     [Reg_write IRQ_CFG (le_bytes 4 (0x111 :: ULONG)), Reg_write INT_EN (le_bytes 4 (1 :: ULONG)),
      Ext (Open_RDWR ''/dev/gpioirq'') h]"

text \<open>
  The specification of \<open>init\<close>: what it does on the bus, its result, and the handle it gets when
  it comes to opening the device.
\<close>

inductive init_spec :: "action list \<Rightarrow> int \<Rightarrow> int option \<Rightarrow> bool" where
  no_bcm: "init_spec [Ext Bcm2835_init 0] (- 10) None"
| no_spi: "r \<noteq> 0 \<Longrightarrow> init_spec [Ext Bcm2835_init r, Ext Bcm2835_spi_begin 0] (- 9) None"
| dead: "\<lbrakk>r \<noteq> 0; s \<noteq> 0; length rs = 7; chip_check cs False; t \<noteq> TEST_PATTERN\<rbrakk> \<Longrightarrow>
    init_spec (spi_setup_actions r s rs @ cs @ reset_actions r1 r2 t) (- 9) None"
| healthy: "\<lbrakk>r \<noteq> 0; s \<noteq> 0; length rs = 7; chip_check cs True; polled csr_busy ws\<rbrakk> \<Longrightarrow>
    init_spec (spi_setup_actions r s rs @ cs @ irq_actions ws h) (if h = - 1 then - 27 else 0) (Some h)"
| revived: "\<lbrakk>r \<noteq> 0; s \<noteq> 0; length rs = 7; chip_check cs False; polled csr_busy ws\<rbrakk> \<Longrightarrow>
    init_spec (spi_setup_actions r s rs @ cs @ reset_actions r1 r2 TEST_PATTERN @ irq_actions ws h)
      (if h = - 1 then - 27 else 0) (Some h)"

text \<open>A series of calls outside any frame.\<close>

lemma emits_ext_series:
  assumes "\<forall>c \<in> set cs. c \<noteq> Gpio_write PIN LOW \<and> c \<noteq> Gpio_write PIN HIGH"
  shows "\<exists>rs. length rs = length cs \<and> emits m (fold (ext_do E) cs m) (map2 Ext cs rs)"
  using assms
proof (induction cs arbitrary: m)
  case Nil
  then show ?case by simp
next
  case (Cons c cs)
  then obtain rs where rs: "length rs = length cs"
    "emits (ext_do E c m) (fold (ext_do E) cs (ext_do E c m)) (map2 Ext cs rs)"
    by (metis list.set_intros(2))
  from Cons.prems have "emits m (ext_do E c m) [Ext c (fst (ext_call E c m))]"
    by (intro emits_ext_do) simp_all
  from emits_Cons [OF this rs(2)] rs(1) show ?case
    by (intro exI [of _ "fst (ext_call E c m) # rs"]) simp
qed

lemma ext_call_pair:
  assumes "ext_call E c m = (r, m')" and "c \<noteq> Gpio_write PIN LOW" and "c \<noteq> Gpio_write PIN HIGH"
  shows "emits m m' [Ext c r]"
  using emits_ext_call [OF assms(2,3), of m E] assms(1) by simp

lemma spi_init_emits:
  assumes "spi_init E m = (err, m')"
  shows "(err = - 10 \<and> emits m m' [Ext Bcm2835_init 0]) \<or>
     (err = - 9 \<and> (\<exists>r. r \<noteq> 0 \<and> emits m m' [Ext Bcm2835_init r, Ext Bcm2835_spi_begin 0])) \<or>
     (err = 0 \<and> (\<exists>r s rs. r \<noteq> 0 \<and> s \<noteq> 0 \<and> length rs = 7 \<and> emits m m' (spi_setup_actions r s rs)))"
proof -
  obtain r m1 where c1: "ext_call E Bcm2835_init m = (r, m1)" by fastforce
  obtain s m2 where c2: "ext_call E Bcm2835_spi_begin m1 = (s, m2)" by fastforce
  have e1: "emits m m1 [Ext Bcm2835_init r]" using ext_call_pair [OF c1] by simp
  have "emits m1 m2 [Ext Bcm2835_spi_begin s]" using ext_call_pair [OF c2] by simp
  with e1 have e2: "emits m m2 [Ext Bcm2835_init r, Ext Bcm2835_spi_begin s]" by (rule emits_Cons)
  let ?cs = "[Spi_setBitOrder_MSBFIRST, Spi_setDataMode_MODE0, Spi_setClockDivider 16,
       Spi_chipSelect_CS_NONE, Spi_setChipSelectPolarity_CS0 LOW, Gpio_fsel_OUTP PIN, Gpio_fsel_OUTP OUT]"
  have "\<forall>c \<in> set ?cs. c \<noteq> Gpio_write PIN LOW \<and> c \<noteq> Gpio_write PIN HIGH" by simp
  from emits_ext_series [OF this, of m2 E] obtain rs where
    "length rs = length ?cs" "emits m2 (fold (ext_do E) ?cs m2) (map2 Ext ?cs rs)"
    by blast
  then have rs: "length rs = 7" "emits m2 (fold (ext_do E) ?cs m2) (map2 Ext ?cs rs)"
    by simp_all
  have e3: "emits m (fold (ext_do E) ?cs m2) (spi_setup_actions r s rs)"
    using emits_trans [OF e2 rs(2)] by (simp add: spi_setup_actions_def)
  show ?thesis
  proof (cases "r = 0 \<or> s = 0")
    case True
    with assms c1 c2 e1 e2 show ?thesis by (auto simp: spi_init_def Let_def split: if_splits)
  next
    case False
    with assms c1 c2 have "err = 0" "m' = fold (ext_do E) ?cs m2" by (auto simp: spi_init_def Let_def)
    with e3 rs(1) False show ?thesis by blast
  qed
qed

lemma is_resetneeded_emits:
  assumes "is_resetneeded E m = Some (err, m')"
  shows "\<exists>as. emits m m' as \<and> chip_check as (err = 0)"
proof -
  from assms obtain hw m1 where hw: "Read_Long E HW_CFG m = Some (hw, m1)"
    by (auto simp: is_resetneeded_def bind_Some_iff)
  note e1 = Read_Long_emits [OF hw]
  show ?thesis
  proof (cases "hw AND READY = 0")
    case True
    with assms hw have "m' = m1" "err = - 11" by (auto simp: is_resetneeded_def)
    with e1 not_ready [OF True] show ?thesis by auto
  next
    case False
    with assms hw obtain t where t: "Read_Long E BYTE_TEST m1 = Some (t, m')"
      and err: "err = (if t = TEST_PATTERN then 0 else - 15)"
      by (auto simp: is_resetneeded_def bind_Some_iff)
    from err have "(err = 0) = (t = TEST_PATTERN)" by simp
    with tested [OF False, of t] emits_Cons [OF e1 Read_Long_emits [OF t]] show ?thesis by auto
  qed
qed

lemma do_resetshield_emits:
  assumes "do_resetshield E m = Some (err, m')"
  shows "\<exists>r1 r2 t. emits m m' (reset_actions r1 r2 t) \<and> err = (if t = TEST_PATTERN then 0 else - 9)"
proof -
  let ?m1 = "Write_Reg E RESET_CTL DIGITAL_RST m" let ?m2 = "ext_do E (Usleep 2000) ?m1"
  let ?m3 = "Write_Reg E RESET_CTL DIGITAL_RST ?m2" let ?m4 = "ext_do E (Usleep 2000) ?m3"
  from assms obtain t where t: "Read_Long E BYTE_TEST ?m4 = Some (t, m')"
    and err: "err = (if t = TEST_PATTERN then 0 else - 9)"
    by (auto simp: do_resetshield_def bind_Some_iff Let_def)
  have w: "emits x (Write_Reg E RESET_CTL DIGITAL_RST x) [Reg_write RESET_CTL (le_bytes 4 (1 :: ULONG))]"
    for x using Write_Reg_emits [of x E RESET_CTL DIGITAL_RST] by simp
  have u: "emits x (ext_do E (Usleep 2000) x) [Ext (Usleep 2000) (fst (ext_call E (Usleep 2000) x))]"
    for x by (rule emits_ext_do) simp_all
  have "emits m m' (reset_actions (fst (ext_call E (Usleep 2000) ?m1)) (fst (ext_call E (Usleep 2000) ?m3)) t)"
    unfolding reset_actions_def
    by (intro emits_Cons [OF w] emits_Cons [OF u] Read_Long_emits [OF t])
  with err show ?thesis by blast
qed

lemma do_initirq_emits:
  assumes "do_initirq E ob m = Some (err, ob', m')"
  shows "\<exists>ws h. polled csr_busy ws \<and> emits m m' (irq_actions ws h) \<and> ob' = ob\<lparr>m_devhndl := h\<rparr> \<and>
           err = (if h = - 1 then - 27 else 0)"
proof -
  from assms obtain m1 where m1: "Write_Reg_Wait E AL_EVENT_MASK_REG_0 0x100 m = Some m1"
    by (auto simp: do_initirq_def bind_Some_iff)
  let ?m3 = "Write_Reg E INT_EN 1 (Write_Reg E IRQ_CFG 0x111 m1)"
  obtain h m4 where h: "ext_call E (Open_RDWR device_path) ?m3 = (h, m4)" by fastforce
  have p: "device_path = ''/dev/gpioirq''" by (simp add: device_path_def DEVICE_NAME_def)
  from assms m1 h have r: "m' = m4" "ob' = ob\<lparr>m_devhndl := h\<rparr>" "err = (if h = - 1 then - 27 else 0)"
    by (auto simp: do_initirq_def Let_def split: if_splits)
  obtain ws where ws: "polled csr_busy ws" "emits m m1
      ([Reg_write ECAT_CSR_DATA (le_bytes 4 (0x100 :: ULONG)),
        Reg_write ECAT_CSR_CMD [Byte AL_EVENT_MASK_REG_0 0, Byte AL_EVENT_MASK_REG_0 1, 4, ESC_WRITE]] @
       csr_poll_actions ws)"
    using Write_Reg_Wait_emits [OF m1] by auto
  have e: "emits m1 m4 [Reg_write IRQ_CFG (le_bytes 4 (0x111 :: ULONG)),
      Reg_write INT_EN (le_bytes 4 (1 :: ULONG)), Ext (Open_RDWR ''/dev/gpioirq'') h]"
    using Write_Reg_emits [of m1 E IRQ_CFG "0x111"] Write_Reg_emits [of "Write_Reg E IRQ_CFG 0x111 m1" E INT_EN 1]
      ext_call_pair [OF h] p by (auto intro: emits_Cons)
  have "emits m m' (irq_actions ws h)"
    using emits_trans [OF ws(2) e] by (simp add: irq_actions_def r)
  with ws(1) r show ?thesis by blast
qed

text \<open>The part of \<open>init\<close> after the SPI was set up and the chip was checked: the chip answered, or it
  has to be reset.\<close>

lemma init_healthy:
  assumes "do_initirq E ob m2 = Some (err, ob', m')" and "emits m m2 (spi_setup_actions r s rs @ cs)"
    and "r \<noteq> 0" and "s \<noteq> 0" and "length rs = 7" and "chip_check cs True"
  shows "\<exists>as h. emits m m' as \<and> init_spec as err h \<and>
           ob' = (case h of None \<Rightarrow> ob | Some x \<Rightarrow> ob\<lparr>m_devhndl := x\<rparr>)"
proof -
  from do_initirq_emits [OF assms(1)] obtain ws h where
    irq: "polled csr_busy ws" "emits m2 m' (irq_actions ws h)" "ob' = ob\<lparr>m_devhndl := h\<rparr>"
    "err = (if h = - 1 then - 27 else 0)" by blast
  from healthy [OF assms(3-6) irq(1), of h] emits_trans [OF assms(2) irq(2)] irq(3,4)
  show ?thesis by (intro exI [of _ "Some h"] exI conjI) auto
qed

lemma init_reset:
  assumes "do_resetshield E m2 = Some (e3, m3)"
    and "(if e3 \<noteq> 0 then Some (e3, ob, m3) else do_initirq E ob m3) = Some (err, ob', m')"
    and "emits m m2 (spi_setup_actions r s rs @ cs)"
    and "r \<noteq> 0" and "s \<noteq> 0" and "length rs = 7" and "chip_check cs False"
  shows "\<exists>as h. emits m m' as \<and> init_spec as err h \<and>
           ob' = (case h of None \<Rightarrow> ob | Some x \<Rightarrow> ob\<lparr>m_devhndl := x\<rparr>)"
proof -
  from do_resetshield_emits [OF assms(1)] obtain r1 r2 t where
    re: "emits m2 m3 (reset_actions r1 r2 t)" "e3 = (if t = TEST_PATTERN then 0 else - 9)" by blast
  show ?thesis
  proof (cases "t = TEST_PATTERN")
    case True
    with assms(2) re(2) have "do_initirq E ob m3 = Some (err, ob', m')" by simp
    from do_initirq_emits [OF this] obtain ws h where
      irq: "polled csr_busy ws" "emits m3 m' (irq_actions ws h)" "ob' = ob\<lparr>m_devhndl := h\<rparr>"
      "err = (if h = - 1 then - 27 else 0)" by blast
    from True re(1) have "emits m2 m3 (reset_actions r1 r2 TEST_PATTERN)" by simp
    from emits_trans [OF assms(3) emits_trans [OF this irq(2)]]
      revived [OF assms(4-7) irq(1), of r1 r2 h] irq(3,4)
    show ?thesis by (intro exI [of _ "Some h"] exI conjI) auto
  next
    case False
    with assms(2) re(2) have r: "err = - 9" "ob' = ob" "m' = m3" by auto
    from dead [OF assms(4-7) False, of r1 r2] emits_trans [OF assms(3) re(1)]
    show ?thesis unfolding r by (intro exI [of _ None] exI conjI) auto
  qed
qed

lemma init_emits:
  assumes "init E ob m = Some (err, ob', m')"
  shows "\<exists>as h. emits m m' as \<and> init_spec as err h \<and>
           ob' = (case h of None \<Rightarrow> ob | Some x \<Rightarrow> ob\<lparr>m_devhndl := x\<rparr>)"
proof -
  obtain e1 m1 where spi: "spi_init E m = (e1, m1)" by fastforce
  show ?thesis
  proof (cases "e1 = 0")
    case False
    with assms spi have r: "err = e1" "ob' = ob" "m' = m1" by (auto simp: init_def)
    from spi_init_emits [OF spi] False show ?thesis
      unfolding r by (auto intro!: exI [of _ None] intro: no_bcm no_spi)
  next
    case True
    with spi_init_emits [OF spi] obtain r s rs where
      spi0: "r \<noteq> 0" "s \<noteq> 0" "length rs = 7" "emits m m1 (spi_setup_actions r s rs)" by auto
    from assms spi True obtain needed m2 where need: "is_resetneeded E m1 = Some (needed, m2)"
      by (auto simp: init_def bind_Some_iff)
    from is_resetneeded_emits [OF need] obtain cs where
      check: "emits m1 m2 cs" "chip_check cs (needed = 0)" by blast
    note pre = emits_trans [OF spi0(4) check(1)]
    show ?thesis
    proof (cases "needed = 0")
      case True
      with assms spi \<open>e1 = 0\<close> need have "do_initirq E ob m2 = Some (err, ob', m')"
        by (auto simp: init_def)
      from init_healthy [OF this pre spi0(1-3)] check(2) True show ?thesis by simp
    next
      case False
      with assms spi \<open>e1 = 0\<close> need obtain e3 m3 where reset: "do_resetshield E m2 = Some (e3, m3)"
        and rest: "(if e3 \<noteq> 0 then Some (e3, ob, m3) else do_initirq E ob m3) = Some (err, ob', m')"
        by (auto simp: init_def bind_Some_iff)
      from init_reset [OF reset rest pre spi0(1-3)] check(2) False show ?thesis by simp
    qed
  qed
qed

inductive_cases init_specE: "init_spec as err h"

subsection \<open>What a round shows\<close>

definition wait_actions :: "int \<Rightarrow> int \<Rightarrow> action list" where
  "wait_actions h r = (if h \<noteq> - 1 then [Ext (Ioctl h IRQMOD_DOWN_TIMEOUT 100) r] else [])"

definition ns_of :: "int \<Rightarrow> int \<Rightarrow> u64" where
  "ns_of s n = word_of_int (s * 1000000000 + n)"

definition round_actions ::
  "int \<Rightarrow> int \<Rightarrow> action list \<Rightarrow> int \<times> int \<Rightarrow> int \<times> int \<Rightarrow> int \<Rightarrow> int \<Rightarrow> action list" where
  "round_actions h r as t0 t1 r1 r2 = wait_actions h r @
     [Clock (fst t0) (snd t0), Ext (Gpio_set OUT) r1] @ as @
     [Ext (Gpio_clr OUT) r2, Clock (fst t1) (snd t1)]"

lemma waitforirq_emits:
  "waitforirq_or_timeout E ob 100 m = (err, m') \<Longrightarrow> emits m m' (wait_actions (m_devhndl ob) err)"
  by (auto simp: waitforirq_or_timeout_def wait_actions_def intro: ext_call_pair split: if_splits)

lemma Getns_emits:
  assumes "Getns E m = (t, m')"
  shows "\<exists>s n. t = ns_of s n \<and> emits m m' [Clock s n]"
  using emits_clock [of m E] assms by (auto simp: Getns_def ns_of_def split: prod.splits)

lemma execute_round_emits:
  assumes "execute_round E F ob m = Some (ob', m')"
  shows "\<exists>r as st ob1 t0 t1 r1 r2. cycle_spec ob as st ob1 \<and>
     emits m m' (round_actions (m_devhndl ob) r as t0 t1 r1 r2) \<and>
     ob' = record_times F (ns_of (fst t0) (snd t0)) (ns_of (fst t1) (snd t1)) ob1"
proof -
  obtain err m1 where w: "waitforirq_or_timeout E ob 100 m = (err, m1)" by fastforce
  obtain a m2 where g0: "Getns E m1 = (a, m2)" by fastforce
  let ?m3 = "ext_do E (Gpio_set OUT) m2"
  from assms w g0 obtain st ob1 m4 where main: "MainTask E ob ?m3 = Some (st, ob1, m4)"
    by (auto simp: execute_round_def Let_def bind_Some_iff)
  obtain b m5 where g1: "Getns E (ext_do E (Gpio_clr OUT) m4) = (b, m5)" by fastforce
  from assms w g0 main g1 have r: "ob' = record_times F a b ob1" "m' = m5"
    by (auto simp: execute_round_def Let_def)
  from MainTask_cycle [OF main] obtain as where as: "emits ?m3 m4 as" "cycle_spec ob as st ob1" by blast
  from Getns_emits [OF g0] obtain s0 n0 where t0: "a = ns_of s0 n0" "emits m1 m2 [Clock s0 n0]" by blast
  from Getns_emits [OF g1] obtain s1 n1 where
    t1: "b = ns_of s1 n1" "emits (ext_do E (Gpio_clr OUT) m4) m5 [Clock s1 n1]" by blast
  have e1: "emits m2 ?m3 [Ext (Gpio_set OUT) (fst (ext_call E (Gpio_set OUT) m2))]"
    and e2: "emits m4 (ext_do E (Gpio_clr OUT) m4) [Ext (Gpio_clr OUT) (fst (ext_call E (Gpio_clr OUT) m4))]"
    by (rule emits_ext_do; simp)+
  have "emits m m5 (wait_actions (m_devhndl ob) err @
     [Clock s0 n0, Ext (Gpio_set OUT) (fst (ext_call E (Gpio_set OUT) m2))] @ as @
     [Ext (Gpio_clr OUT) (fst (ext_call E (Gpio_clr OUT) m4)), Clock s1 n1])"
    by (intro emits_trans [OF waitforirq_emits [OF w]] emits_trans [OF emits_Cons [OF t0(2) e1]]
        emits_trans [OF as(1)] emits_Cons [OF e2 t1(2)])
  with as(2) r t0(1) t1(1) show ?thesis
    unfolding round_actions_def by (metis fst_conv snd_conv)
qed

text \<open>The readings of the clock in a series of actions.\<close>

fun clock_readings :: "action list \<Rightarrow> u64 list" where
  "clock_readings [] = []"
| "clock_readings (Clock s n # as) = ns_of s n # clock_readings as"
| "clock_readings (_ # as) = clock_readings as"

lemma clock_readings_append [simp]: "clock_readings (xs @ ys) = clock_readings xs @ clock_readings ys"
  by (induction xs rule: clock_readings.induct) simp_all

lemma clock_readings_none:
  "(\<And>s n. Clock s n \<notin> set as) \<Longrightarrow> clock_readings as = []"
  by (induction as rule: clock_readings.induct) auto

lemma cycle_spec_no_clock: "cycle_spec ob as st ob' \<Longrightarrow> clock_readings as = []"
  by (erule cycle_specE; rule clock_readings_none)
    (auto simp: csr_read_actions_def csr_poll_actions_def fifo_read_actions_def fifo_write_actions_def)

lemma clock_readings_round:
  "cycle_spec ob as st ob1 \<Longrightarrow> clock_readings (round_actions h r as t0 t1 r1 r2) =
     [ns_of (fst t0) (snd t0), ns_of (fst t1) (snd t1)]"
  by (simp add: round_actions_def cycle_spec_no_clock wait_actions_def)

lemma execute_fromthread_snoc:
  "execute_fromthread (Suc n) E F ob m = do {
     (ob, m) \<leftarrow> execute_fromthread n E F ob m;
     execute_round E F ob m
   }"
proof (induction n arbitrary: ob m)
  case 0
  show ?case by (cases "execute_round E F ob m") auto
next
  case (Suc n)
  have "execute_fromthread (Suc (Suc n)) E F ob m =
      execute_round E F ob m \<bind> (\<lambda>(ob, m). execute_fromthread (Suc n) E F ob m)"
    by (rule execute_fromthread.simps(2))
  also have "\<dots> = execute_round E F ob m \<bind>
      (\<lambda>(ob, m). execute_fromthread n E F ob m \<bind> (\<lambda>(ob, m). execute_round E F ob m))"
    by (simp only: Suc.IH)
  finally show ?case by (cases "execute_round E F ob m") auto
qed

subsection \<open>What the statistics hold\<close>

text \<open>The values of the two tools for the rounds with the given start and end times.\<close>

definition runtimes :: "'f fpu \<Rightarrow> (u64 \<times> u64) list \<Rightarrow> 'f list" where
  "runtimes F ps = map (\<lambda>(s, e). fmul F (of_ull F (e - s)) (lit_1E_3 F)) (drop 2 ps)"

definition periods :: "'f fpu \<Rightarrow> (u64 \<times> u64) list \<Rightarrow> 'f list" where
  "periods F ps =
     map (\<lambda>k. fmul F (of_ull F (fst (ps ! k) - fst (ps ! (k - 1)))) (lit_1E_6 F)) [2..<length ps]"

lemma runtimes_snoc:
  "runtimes F (ps @ [p]) = (if 2 \<le> length ps
     then runtimes F ps @ [fmul F (of_ull F (snd p - fst p)) (lit_1E_3 F)] else runtimes F ps)"
  by (auto simp: runtimes_def split: prod.split)

lemma periods_snoc:
  "periods F (ps @ [p]) = (if 2 \<le> length ps
     then periods F ps @ [fmul F (of_ull F (fst p - fst (last ps))) (lit_1E_6 F)] else periods F ps)"
proof (cases "2 \<le> length ps")
  case True
  then have "ps \<noteq> []" by auto
  have "map (\<lambda>k. fmul F (of_ull F (fst ((ps @ [p]) ! k) - fst ((ps @ [p]) ! (k - 1)))) (lit_1E_6 F))
      [2..<length ps] = periods F ps"
    unfolding periods_def by (rule map_cong) (auto simp: nth_append)
  with True \<open>ps \<noteq> []\<close> show ?thesis
    by (simp add: periods_def nth_append last_conv_nth)
qed (simp add: periods_def)

definition times_recorded :: "'f fpu \<Rightarrow> (u64 \<times> u64) list \<Rightarrow> ('f, 'x) rpi_base_scheme \<Rightarrow> bool" where
  "times_recorded F ps ob \<longleftrightarrow> m_count ob = of_nat (length ps) \<and>
     (ps \<noteq> [] \<longrightarrow> m_laststart ob = fst (last ps) \<and> m_lastruntime ob = snd (last ps) - fst (last ps)) \<and>
     m_runtime ob = stat_run F (runtimes F ps) \<and> m_period ob = stat_run F (periods F ps)"

lemma record_times_recorded:
  assumes "times_recorded F ps ob" and "length ps < 2 ^ 64"
  shows "times_recorded F (ps @ [(s, e)]) (record_times F s e ob)"
proof -
  have "1 < (of_nat (length ps) :: u64) \<longleftrightarrow> 2 \<le> length ps"
    using assms(2) by (simp add: word_less_nat_alt unat_of_nat) linarith
  moreover have "2 \<le> length ps \<Longrightarrow> ps \<noteq> []" by auto
  ultimately show ?thesis
    using assms(1)
    by (auto simp: times_recorded_def record_times_def Let_def runtimes_snoc periods_snoc)
qed

lemma cycle_spec_times: "cycle_spec ob as st ob1 \<Longrightarrow> times_recorded F ps ob1 = times_recorded F ps ob"
  by (erule cycle_specE) (simp_all add: times_recorded_def)

lemma execute_recorded:
  assumes "execute_fromthread n E F ob m = Some (ob', m')" and "times_recorded F [] ob" and "n \<le> 2 ^ 64"
  shows "\<exists>ps as. length ps = n \<and> emits m m' as \<and>
     clock_readings as = concat (map (\<lambda>(s, e). [s, e]) ps) \<and> times_recorded F ps ob'"
  using assms
proof (induction n arbitrary: ob' m')
  case 0
  then show ?case by (auto intro!: exI [of _ "[]"])
next
  case (Suc n)
  from Suc.prems(1) obtain ob1 m1 where run: "execute_fromthread n E F ob m = Some (ob1, m1)"
    and round: "execute_round E F ob1 m1 = Some (ob', m')"
    by (auto simp: execute_fromthread_snoc bind_Some_iff simp del: execute_fromthread.simps)
  from Suc.IH [OF run Suc.prems(2)] Suc.prems(3) obtain ps as where IH: "length ps = n" "emits m m1 as"
    "clock_readings as = concat (map (\<lambda>(s, e). [s, e]) ps)" "times_recorded F ps ob1" by auto
  from execute_round_emits [OF round] obtain r bs st ob2 t0 t1 r1 r2 where
    c: "cycle_spec ob1 bs st ob2"
    and e: "emits m1 m' (round_actions (m_devhndl ob1) r bs t0 t1 r1 r2)"
    and ob': "ob' = record_times F (ns_of (fst t0) (snd t0)) (ns_of (fst t1) (snd t1)) ob2" by blast
  let ?p = "(ns_of (fst t0) (snd t0), ns_of (fst t1) (snd t1))"
  have "times_recorded F (ps @ [?p]) ob'"
    unfolding ob' using IH(1,4) Suc.prems(3) c by (intro record_times_recorded) (simp_all add: cycle_spec_times)
  moreover have "clock_readings (as @ round_actions (m_devhndl ob1) r bs t0 t1 r1 r2) =
      concat (map (\<lambda>(s, e). [s, e]) (ps @ [?p]))"
    using IH(3) clock_readings_round [OF c] by simp
  ultimately show ?case using emits_trans [OF IH(2) e] IH(1)
    by (intro exI [of _ "ps @ [?p]"] exI conjI) auto
qed

subsection \<open>When start-up returns\<close>

lemma responsive_read_long:
  assumes "responsive E P" and "P (env m)" and "a \<in> {HW_CFG, BYTE_TEST}"
  shows "\<exists>v m'. Read_Long E a m = Some (v, m') \<and> P (env m')"
proof -
  obtain v m' where r: "Read_Reg E a 4 m = Some (v, m')" using Read_Reg_total [of 4 E a m] by auto
  with responsive_read [OF assms(1,2) _ r] assms(3) show ?thesis by (auto simp: Read_Long_def)
qed

lemma is_resetneeded_returns:
  assumes "responsive E P" and "P (env m)"
  shows "\<exists>e m'. is_resetneeded E m = Some (e, m') \<and> P (env m')"
proof -
  obtain v m1 where 1: "Read_Long E HW_CFG m = Some (v, m1)" "P (env m1)"
    using responsive_read_long [OF assms, of HW_CFG] by blast
  obtain t m2 where 2: "Read_Long E BYTE_TEST m1 = Some (t, m2)" "P (env m2)"
    using responsive_read_long [OF assms(1) 1(2), of BYTE_TEST] by blast
  show ?thesis unfolding is_resetneeded_def using 1 2 by simp
qed

lemma do_resetshield_returns:
  assumes "responsive E P" and "P (env m)"
  shows "\<exists>e m'. do_resetshield E m = Some (e, m') \<and> P (env m')"
proof -
  let ?r = "\<lambda>m. ext_do E (Usleep 2000) (Write_Reg E RESET_CTL DIGITAL_RST m)"
  have "P (env (?r (?r m)))" by (intro responsive_reset [OF assms(1)] assms(2))
  then obtain t m2 where "Read_Long E BYTE_TEST (?r (?r m)) = Some (t, m2)" "P (env m2)"
    using responsive_read_long [OF assms(1)] by blast
  then show ?thesis unfolding do_resetshield_def by simp
qed

lemma Write_Reg_Wait_returns:
  assumes "responsive E P" and "P (env m)"
  shows "\<exists>m'. Write_Reg_Wait E a d m = Some m' \<and> P (env m')"
proof -
  let ?m1 = "Write_Reg E ECAT_CSR_DATA d m"
  have "P (env ?m1)" by (rule responsive_write [OF assms]) simp
  then obtain v m2 where "poll (Read_Long E ECAT_CSR_CMD) csr_busy (Write_Reg E ECAT_CSR_CMD
      (ucast (csr_command (indet E (env ?m1)) a 4 ESC_WRITE)) ?m1) = Some (v, m2)" "P (env m2)"
    using responsive_csr [OF assms(1), of ?m1 4 ESC_WRITE] by blast
  then show ?thesis by (simp add: Write_Reg_Wait_def Let_def)
qed

lemma do_initirq_returns:
  assumes "responsive E P" and "P (env m)"
  shows "\<exists>e ob' m'. do_initirq E ob m = Some (e, ob', m') \<and> P (env m')"
proof -
  obtain m1 where w: "Write_Reg_Wait E AL_EVENT_MASK_REG_0 0x100 m = Some m1" "P (env m1)"
    using Write_Reg_Wait_returns [OF assms] by blast
  let ?m = "Write_Reg E INT_EN 1 (Write_Reg E IRQ_CFG 0x111 m1)"
  have "P (env ?m)" by (intro responsive_write [OF assms(1)] w(2)) simp_all
  moreover obtain h m2 where h: "ext_call E (Open_RDWR device_path) ?m = (h, m2)" by fastforce
  ultimately have "P (env m2)"
    using undisturbed_ext_call [OF responsive_undisturbed [OF assms(1)] h] by (simp add: off_bus_def)
  with w h show ?thesis by (simp add: do_initirq_def Let_def)
qed

lemma spi_init_undisturbed:
  assumes "undisturbed E P" and "P (env m)"
  shows "P (env (snd (spi_init E m)))"
proof -
  have *: "P (env (snd (ext_call E c x)))" if "P (env x)" "off_bus c" for c x
    using undisturbed_call [OF assms(1) that(2,1)] by (simp add: ext_do_def)
  show ?thesis
    using assms(2)
    by (auto simp: spi_init_def Let_def off_bus_def ext_do_def split: prod.split
        dest!: arg_cong [where f = snd] intro!: *)
qed

text \<open>\<open>init\<close> returns when the chip is at rest once the SPI has been set up, if it gets so far; then
  the chip is at rest at its end.\<close>

lemma init_returns_if:
  assumes "responsive E P" and "fst (spi_init E m) = 0 \<Longrightarrow> P (env (snd (spi_init E m)))"
  shows "\<exists>e ob' m'. init E ob m = Some (e, ob', m') \<and> (P (env (snd (spi_init E m))) \<longrightarrow> P (env m'))"
proof -
  obtain e1 m1 where spi: "spi_init E m = (e1, m1)" by fastforce
  show ?thesis
  proof (cases "e1 = 0")
    case True
    with assms(2) spi have P1: "P (env m1)" by simp
    obtain e2 m2 where need: "is_resetneeded E m1 = Some (e2, m2)" "P (env m2)"
      using is_resetneeded_returns [OF assms(1) P1] by blast
    obtain e3 m3 where reset: "do_resetshield E m2 = Some (e3, m3)" "P (env m3)"
      using do_resetshield_returns [OF assms(1) need(2)] by blast
    show ?thesis
      using do_initirq_returns [OF assms(1) need(2), of ob] do_initirq_returns [OF assms(1) reset(2), of ob]
        spi need reset True
      by (auto simp: init_def)
  next
    case False
    with spi show ?thesis by (simp add: init_def)
  qed
qed

text \<open>What start-up has to find: a state (\<open>unset\<close>) that the calls before it leave alone, from which
  the set-up of the SPI, if it succeeds, comes to rest.\<close>

definition starts_up :: "'w platform \<Rightarrow> ('w \<Rightarrow> bool) \<Rightarrow> ('w \<Rightarrow> bool) \<Rightarrow> bool" where
  "starts_up E unset at_rest \<longleftrightarrow> undisturbed E unset \<and>
     (\<forall>m m'. unset (env m) \<longrightarrow> spi_init E m = (0, m') \<longrightarrow> at_rest (env m'))"

subsection \<open>A chip that is up\<close>

definition up_regs :: "u16 \<Rightarrow> u32" where
  "up_regs a = (if a = HW_CFG then READY else if a = BYTE_TEST then TEST_PATTERN
     else if a = ECAT_PRAM_RD_CMD then 0x0801 else if a = ECAT_PRAM_WR_CMD then 0x0801 else 0)"

text \<open>The watchdog is served and the EtherCAT state is OP.\<close>

definition op_core :: "u16 \<Rightarrow> u32" where
  "op_core a = (if a = WDOG_STATUS then 1 else if a = AL_STATUS_REG_0 then 8 else 0)"

abbreviation up_chip :: "(u8 list \<times> u16) platform" where
  "up_chip \<equiv> regs (\<lambda>c. 3) up_regs op_core"

definition raw_shield :: "'f fpu \<Rightarrow> 'f etherberry_9252" where
  "raw_shield F = rpi_base.extend (static_object F) \<lparr>m_devhndl = - 1\<rparr>"

lemma up_chip_responsive: "responsive up_chip (\<lambda>w. True)"
proof -
  have "answers up_chip a busy (\<lambda>m'. True) m" if "\<not> busy (up_regs a)" and "a \<noteq> ECAT_CSR_DATA" for a busy m
    using Read_Long_regs [OF that(2), of "\<lambda>c. 3" up_regs op_core m] that(1)
    by (auto intro: answers_at_once)
  then show ?thesis
    by (simp add: responsive_def undisturbed_def up_regs_def csr_busy_def rd_fifo_wait_def wr_fifo_wait_def
        slice_get_def)
qed

lemma raw_shield_facts:
  "m_devhndl (raw_shield F) = - 1" "m_count (raw_shield F) = 0" "m_runtime (raw_shield F) = reset F"
  "m_period (raw_shield F) = reset F" "ring_bounds (raw_shield F)"
  by (simp_all add: raw_shield_def static_object_def rpi_base.defs ring_bounds_def wf_object_def)

text \<open>With a platform that grants every call, only the chip can keep \<open>init\<close> from opening the device.\<close>

lemma init_up_chip: "\<exists>ob' m'. init up_chip ob m = Some (0, ob', m') \<and> m_devhndl ob' = 3"
proof -
  have "fst (spi_init up_chip m) = 0"
    by (auto simp: spi_init_def Let_def split: prod.split dest!: ext_call_regsD)
  then obtain m1 where spi: "spi_init up_chip m = (0, m1)" by (cases "spi_init up_chip m") simp
  obtain m2 where hw: "Read_Long up_chip HW_CFG m1 = Some (up_regs HW_CFG, m2)"
    using Read_Long_regs [of HW_CFG] by fastforce
  obtain m3 where bt: "Read_Long up_chip BYTE_TEST m2 = Some (up_regs BYTE_TEST, m3)"
    using Read_Long_regs [of BYTE_TEST] by fastforce
  have need: "is_resetneeded up_chip m1 = Some (0, m3)"
    unfolding is_resetneeded_def using hw bt by (simp add: up_regs_def)
  obtain m4 where w: "Write_Reg_Wait up_chip AL_EVENT_MASK_REG_0 0x100 m3 = Some m4"
    using Write_Reg_Wait_returns [OF up_chip_responsive] by blast
  have "\<exists>ob' m'. do_initirq up_chip ob m3 = Some (0, ob', m') \<and> m_devhndl ob' = 3"
    using w by (auto simp: do_initirq_def Let_def split: prod.split dest!: ext_call_regsD)
  with spi need show ?thesis by (simp add: init_def)
qed

lemma init_spec_result:
  assumes "init_spec as err h"
  shows "err \<in> {0, - 9, - 10, - 27}"
    and "err = 0 \<Longrightarrow> \<exists>x. h = Some x \<and> x \<noteq> - 1 \<and>
           Reg_read BYTE_TEST (le_bytes 4 (TEST_PATTERN :: ULONG)) \<in> set as"
    and "err \<noteq> 0 \<Longrightarrow> h = None \<or> h = Some (- 1)"
  using assms
  by (auto elim!: init_specE chip_check.cases simp: reset_actions_def split: if_splits)

lemma Getns_undisturbed: "undisturbed E P \<Longrightarrow> Getns E m = (t, m') \<Longrightarrow> P (env m) \<Longrightarrow> P (env m')"
  by (auto simp: Getns_def split: prod.splits intro: undisturbed_clock)

lemma wait_undisturbed:
  assumes "undisturbed E P" and "waitforirq_or_timeout E ob n m = (err, m')" and "P (env m)"
  shows "P (env m')"
  using assms(2,3)
  by (auto simp: waitforirq_or_timeout_def Let_def off_bus_def split: if_splits
      intro: undisturbed_ext_call [OF assms(1)])

lemma execute_round_returns:
  assumes "responsive E P" and "P (env m)" and "ring_bounds ob"
  shows "\<exists>ob' m'. execute_round E F ob m = Some (ob', m') \<and> P (env m') \<and> ring_bounds ob'"
proof -
  note calm = responsive_undisturbed [OF assms(1)]
  obtain err m1 where w: "waitforirq_or_timeout E ob 100 m = (err, m1)" by fastforce
  obtain a m2 where g0: "Getns E m1 = (a, m2)" by fastforce
  have "P (env (ext_do E (Gpio_set OUT) m2))"
    using wait_undisturbed [OF calm w assms(2)] Getns_undisturbed [OF calm g0]
    by (auto intro: undisturbed_call [OF calm] simp: off_bus_def)
  then obtain st ob1 m3 where main: "MainTask E ob (ext_do E (Gpio_set OUT) m2) = Some (st, ob1, m3)"
    and P3: "P (env m3)"
    using MainTask_returns_if [OF assms(1) _ assms(3)] by blast
  have rb: "ring_bounds ob1" using MainTask_cycle [OF main] assms(3) cycle_spec_ring(1) by blast
  obtain b m4 where g1: "Getns E (ext_do E (Gpio_clr OUT) m3) = (b, m4)" by fastforce
  have "P (env m4)"
    using Getns_undisturbed [OF calm g1] undisturbed_call [OF calm _ P3] by (simp add: off_bus_def)
  moreover have "execute_round E F ob m = Some (record_times F a b ob1, m4)"
    using w g0 main g1 by (simp add: execute_round_def)
  moreover have "ring_bounds (record_times F a b ob1) = ring_bounds ob1"
    by (simp add: record_times_def ring_bounds_def wf_object_def Let_def)
  ultimately show ?thesis using rb by simp
qed

lemma execute_fromthread_returns:
  assumes "responsive E P"
  shows "P (env m) \<Longrightarrow> ring_bounds ob \<Longrightarrow>
    \<exists>ob' m'. execute_fromthread n E F ob m = Some (ob', m') \<and> P (env m') \<and> ring_bounds ob'"
proof (induction n arbitrary: ob m)
  case 0
  then show ?case by simp
next
  case (Suc n)
  obtain ob1 m1 where r: "execute_round E F ob m = Some (ob1, m1)" "P (env m1)" "ring_bounds ob1"
    using execute_round_returns [OF assms Suc.prems] by blast
  with Suc.IH [OF r(2,3)] show ?case by simp
qed

text \<open>A cycle on that chip is operational.\<close>

lemma MainTask_up_chip:
  assumes "ring_bounds ob"
  shows "\<exists>ob' m'. MainTask up_chip ob m = Some (ESM_OP, ob', m')"
proof -
  have idle: "\<not> csr_busy (up_regs ECAT_CSR_CMD)"
    by (simp add: up_regs_def csr_busy_def slice_get_def)
  obtain r1 m1 where r1: "Read_Reg_Wait up_chip WDOG_STATUS 1 m = Some (r1, m1)"
    and b1: "Byte (ucast r1 :: ULONG) 0 = 1"
    using Read_Reg_Wait_regs [of up_regs, OF idle, of "\<lambda>c. 3" op_core WDOG_STATUS m]
    by (auto simp: op_core_def slice_get_def)
  obtain r2 m2 where r2: "Read_Reg_Wait up_chip AL_STATUS_REG_0 1 m1 = Some (r2, m2)"
    and b2: "Byte (ucast r2 :: ULONG) 0 = 8"
    using Read_Reg_Wait_regs [of up_regs, OF idle, of "\<lambda>c. 3" op_core AL_STATUS_REG_0 m1]
    by (auto simp: op_core_def slice_get_def)
  obtain st ob' m' where run: "MainTask up_chip ob m = Some (st, ob', m')"
    using MainTask_returns_if [OF up_chip_responsive _ assms] by blast
  with MainTask_after_status [OF r1 r2, of ob] have "st = cycle_status 1 8"
    by (auto simp: Let_def b1 b2 Some_bind_iff bind_Some_iff simp del: not_not)
  then have "st = ESM_OP" by (simp add: cycle_status_def)
  with run show ?thesis by blast
qed

subsection \<open>Properties\<close>

text \<open>C15: \<open>init\<close>, when it returns, has followed the start-up sequence \<open>init_spec\<close>: the library and
  the SPI first, then the check of the chip, the double reset exactly when the check fails, then
  the interrupt set-up over the CSR protocol and the opening of the device; it stops at the first
  failure with that step's code, and only the device handle of the object changes.\<close>

theorem init_refines:
  assumes "init E ob m = Some (err, ob', m')"
  shows "\<exists>as h. emits m m' as \<and> init_spec as err h \<and>
           ob' = (case h of None \<Rightarrow> ob | Some x \<Rightarrow> ob\<lparr>m_devhndl := x\<rparr>)"
  by (rule init_emits [OF assms])

theorem init_refines_witness:
  "\<exists>ob' m'. init up_chip (raw_shield real_fpu) (start ([], 0)) = Some (0, ob', m') \<and>
     (\<exists>as h. emits (start ([], 0)) m' as \<and> init_spec as 0 h \<and>
        ob' = (case h of None \<Rightarrow> raw_shield real_fpu | Some x \<Rightarrow> (raw_shield real_fpu)\<lparr>m_devhndl := x\<rparr>))"
proof -
  obtain ob' m' where run: "init up_chip (raw_shield real_fpu) (start ([], 0)) = Some (0, ob', m')"
    using init_up_chip by blast
  show ?thesis using run init_refines [OF run] by blast
qed

text \<open>\<open>init\<close> has four results: 0, -10 (no bcm2835 library), -9 (no SPI, or a chip that stays
  dead after the reset) and -27 (no device). On 0 the test register has been read correctly and
  the device is open; otherwise no device is left open by this call.\<close>

lemma init_results:
  assumes "init E ob m = Some (err, ob', m')" and "m_devhndl ob = - 1"
  shows "err \<in> {0, - 9, - 10, - 27} \<and> (err = 0 \<longleftrightarrow> m_devhndl ob' \<noteq> - 1) \<and>
         (err = 0 \<longrightarrow> (\<exists>as. emits m m' as \<and>
            Reg_read BYTE_TEST (le_bytes 4 (TEST_PATTERN :: ULONG)) \<in> set as))"
proof -
  from init_emits [OF assms(1)] obtain as h where run: "emits m m' as" "init_spec as err h"
    and ob': "ob' = (case h of None \<Rightarrow> ob | Some x \<Rightarrow> ob\<lparr>m_devhndl := x\<rparr>)" by blast
  have "err = 0 \<longleftrightarrow> m_devhndl ob' \<noteq> - 1"
    using init_spec_result(2,3) [OF run(2)] assms(2) by (cases "err = 0") (auto simp: ob')
  then show ?thesis using run init_spec_result(1,2) [OF run(2)] by blast
qed

text \<open>One round of the real-time thread waits for the interrupt device (only when it is open,
  with a timeout of 100 ms), takes the time, runs one cycle of \<open>MainTask\<close> between the set and the
  clear of the measuring pin, and takes the time again; an error of the wait changes nothing.\<close>

lemma execute_round_refines:
  assumes "execute_round E F ob m = Some (ob', m')"
  shows "\<exists>r as st ob1 t0 t1 r1 r2. cycle_spec ob as st ob1 \<and>
     emits m m' (round_actions (m_devhndl ob) r as t0 t1 r1 r2) \<and>
     ob' = record_times F (ns_of (fst t0) (snd t0)) (ns_of (fst t1) (snd t1)) ob1"
  by (rule execute_round_emits [OF assms])

text \<open>C25: After \<open>n\<close> rounds of the thread the statistics hold exactly what the clock readings of
  these rounds say: the run times and the periods of all rounds but the first two, and the
  number, the start and the run time of the last round.\<close>

theorem execute_statistics:
  assumes "execute_fromthread n E F ob m = Some (ob', m')" and "n \<le> 2 ^ 64"
    and "m_count ob = 0" and "m_runtime ob = reset F" and "m_period ob = reset F"
  shows "\<exists>ps as. length ps = n \<and> emits m m' as \<and>
     clock_readings as = concat (map (\<lambda>(s, e). [s, e]) ps) \<and> times_recorded F ps ob'"
proof -
  have "times_recorded F [] ob"
    using assms(3-5) by (simp add: times_recorded_def runtimes_def periods_def)
  from execute_recorded [OF assms(1) this assms(2)] show ?thesis .
qed

theorem execute_statistics_witness:
  "\<exists>ob' m'. execute_fromthread 3 up_chip real_fpu (raw_shield real_fpu) (start ([], 0)) = Some (ob', m') \<and>
     (3 :: nat) \<le> 2 ^ 64 \<and> m_count (raw_shield real_fpu) = 0 \<and>
     m_runtime (raw_shield real_fpu) = reset real_fpu \<and> m_period (raw_shield real_fpu) = reset real_fpu \<and>
     (\<exists>ps as. length ps = 3 \<and> emits (start ([], 0)) m' as \<and>
        clock_readings as = concat (map (\<lambda>(s, e). [s, e]) ps) \<and> times_recorded real_fpu ps ob')"
proof -
  obtain ob' m' where run: "execute_fromthread 3 up_chip real_fpu (raw_shield real_fpu) (start ([], 0)) = Some (ob', m')"
    using execute_fromthread_returns [OF up_chip_responsive _ raw_shield_facts(5)] by blast
  have n: "(3 :: nat) \<le> 2 ^ 64" by simp
  show ?thesis
    using run n raw_shield_facts(2-4) execute_statistics [OF run n raw_shield_facts(2-4)] by blast
qed

end
