(* ===== verification/Sched.thy ===== *)
theory Sched
  imports Prelude
begin

section \<open>Priorities and processors\<close>

text \<open>
  \<open>raise_soft_prio\<close>, \<open>setscheduler\<close> and \<open>rtthread::get_nextcpu\<close> of \<open>thread/src/thread.cpp\<close>. The
  scheduler and the resource limits of the operating system are a parameter: a record of
  functions on a state of arbitrary type. A call that fails is given by the value it leaves in
  \<open>errno\<close>, a call that succeeds by 0.
\<close>

subsection \<open>The operating system\<close>

record 'o sched_os =
  os_priority_max :: "int \<Rightarrow> 'o \<Rightarrow> int option"
  os_setscheduler :: "int \<Rightarrow> int \<Rightarrow> int \<Rightarrow> 'o \<Rightarrow> int \<times> 'o"
  os_getrlimit :: "'o \<Rightarrow> int \<times> u64 \<times> u64"
  os_setrlimit :: "u64 \<Rightarrow> u64 \<Rightarrow> 'o \<Rightarrow> int \<times> 'o"
  os_errno :: "'o \<Rightarrow> int"

abbreviation (input) RLIM_INFINITY :: u64 where "RLIM_INFINITY \<equiv> - 1"
abbreviation (input) EPERM :: int where "EPERM \<equiv> 1"

text \<open>Conversions to and from \<open>int\<close>, which has 32 bits.\<close>

definition int_of :: "u64 \<Rightarrow> int" where
  "int_of x = sint (ucast x :: u32)"

subsection \<open>The functions\<close>

text \<open>\<open>os_priority_max\<close> is \<open>None\<close> when the call returns -1; then \<open>errno\<close> is the result.\<close>

definition raise_soft_prio :: "'o sched_os \<Rightarrow> int \<Rightarrow> int \<Rightarrow> 'o \<Rightarrow> int \<times> 'o" where
  "raise_soft_prio S policy prio s =
     (case os_priority_max S policy s of
        None \<Rightarrow> (os_errno S s, s)
      | Some policy_max \<Rightarrow>
          (let (err, rlim_cur, rlim_max) = os_getrlimit S s in
           if err \<noteq> 0 then (err, s)
           else (let soft_max = (if rlim_cur = RLIM_INFINITY then policy_max else int_of rlim_cur);
                     hard_max = (if rlim_max = RLIM_INFINITY then policy_max else int_of rlim_max)
                 in if soft_max < prio \<and> prio \<le> hard_max
                    then os_setrlimit S (word_of_int prio) rlim_max s
                    else (- 1, s))))"

text \<open>The jump back to \<open>try_again\<close> has no bound in the code.\<close>

partial_function (option) setscheduler ::
  "'o sched_os \<Rightarrow> int \<Rightarrow> int \<Rightarrow> int \<Rightarrow> 'o \<Rightarrow> (int \<times> 'o) option" where
  "setscheduler S pid policy prio s =
     (let (err, s) = os_setscheduler S pid policy prio s in
      if err \<noteq> 0 then
        (if err = EPERM then
           (let (err1, s) = raise_soft_prio S policy prio s in
            if err1 = 0 then setscheduler S pid policy prio s else Some (err, s))
         else Some (err, s))
      else Some (err, s))"

text \<open>What the code relies on: limits that were set are the ones that are read afterwards, and
  setting the scheduler does not change them.\<close>

definition limits_kept :: "'o sched_os \<Rightarrow> bool" where
  "limits_kept S \<longleftrightarrow>
     (\<forall>c h s s'. os_setrlimit S c h s = (0, s') \<longrightarrow> os_getrlimit S s' = (0, c, h)) \<and>
     (\<forall>pid policy prio s. os_getrlimit S (snd (os_setscheduler S pid policy prio s)) = os_getrlimit S s)"

lemma int_of_small: "0 \<le> x \<Longrightarrow> x < 2 ^ 31 \<Longrightarrow> int_of (word_of_int x) = x"
  by (simp add: int_of_def unsigned_of_int take_bit_int_eq_self signed_of_int
      signed_take_bit_int_eq_self)

text \<open>After the soft limit was raised to the priority, raising it once more fails.\<close>

lemma raise_soft_prio_success:
  assumes "raise_soft_prio S policy prio s = (0, s')"
    and "limits_kept S" and "\<And>x. os_errno S x \<noteq> 0" and "0 \<le> prio" and "prio < 2 ^ 31"
    and "os_getrlimit S t = os_getrlimit S s'"
  shows "fst (raise_soft_prio S policy prio t) \<noteq> 0"
proof -
  from assms(1,3) obtain pm c h where pm: "os_priority_max S policy s = Some pm"
    and lim: "os_getrlimit S s = (0, c, h)"
    and set: "os_setrlimit S (word_of_int prio) h s = (0, s')"
    by (auto simp: raise_soft_prio_def Let_def split: option.splits if_splits prod.splits)
  with assms(2,6) have t: "os_getrlimit S t = (0, word_of_int prio, h)"
    by (auto simp: limits_kept_def)
  have "(word_of_int prio :: u64) \<noteq> RLIM_INFINITY"
  proof
    assume "(word_of_int prio :: u64) = RLIM_INFINITY"
    then have "uint (word_of_int prio :: u64) = 2 ^ 64 - 1"
      by (simp add: unsigned_minus_1_eq_mask mask_eq_exp_minus_1)
    with assms(4,5) show False by (simp add: uint_word_of_int)
  qed
  with t assms(3-5) show ?thesis
    by (auto simp: raise_soft_prio_def int_of_small split: option.split)
qed

subsection \<open>The loop makes at most two attempts\<close>

definition two_attempts :: "'o sched_os \<Rightarrow> int \<Rightarrow> int \<Rightarrow> int \<Rightarrow> 'o \<Rightarrow> int \<times> 'o" where
  "two_attempts S pid policy prio s =
     (let (e1, s1) = os_setscheduler S pid policy prio s in
      if e1 \<noteq> EPERM then (e1, s1)
      else (let (r, s2) = raise_soft_prio S policy prio s1 in
            if r \<noteq> 0 then (e1, s2)
            else (let (e2, s3) = os_setscheduler S pid policy prio s2 in
                  if e2 \<noteq> EPERM then (e2, s3) else (e2, snd (raise_soft_prio S policy prio s3)))))"

lemma setscheduler_eq:
  assumes "limits_kept S" and "\<And>x. os_errno S x \<noteq> 0" and "0 \<le> prio" and "prio < 2 ^ 31"
  shows "setscheduler S pid policy prio s = Some (two_attempts S pid policy prio s)"
proof -
  obtain e1 s1 where a1: "os_setscheduler S pid policy prio s = (e1, s1)" by fastforce
  obtain r s2 where ra: "raise_soft_prio S policy prio s1 = (r, s2)" by fastforce
  obtain e2 s3 where a2: "os_setscheduler S pid policy prio s2 = (e2, s3)" by fastforce
  obtain r2 s4 where rb: "raise_soft_prio S policy prio s3 = (r2, s4)" by fastforce
  have "os_getrlimit S s3 = os_getrlimit S s2"
    using assms(1) a2 unfolding limits_kept_def by (metis snd_conv)
  then have r2: "r2 \<noteq> 0" if "r = 0"
    using raise_soft_prio_success [OF _ assms, of policy s1 s2 s3] ra rb that by auto
  have "setscheduler S pid policy prio s2 =
      Some (if e2 \<noteq> EPERM then (e2, s3) else (e2, s4))" if "r = 0"
    using a2 rb r2 [OF that] by (subst setscheduler.simps) simp
  with a1 ra a2 rb show ?thesis
    by (subst setscheduler.simps) (simp add: two_attempts_def)
qed

text \<open>The documented behaviour of the limit for real-time priorities: a priority is granted up to
  the soft limit, and the soft limit may be raised up to the hard limit.\<close>

definition within :: "int \<Rightarrow> u64 \<Rightarrow> bool" where
  "within prio l \<longleftrightarrow> l = RLIM_INFINITY \<or> prio \<le> int_of l"

definition rt_limits :: "'o sched_os \<Rightarrow> bool" where
  "rt_limits S \<longleftrightarrow>
     (\<forall>pid policy prio s. fst (os_setscheduler S pid policy prio s) =
        (if within prio (fst (snd (os_getrlimit S s))) then 0 else EPERM)) \<and>
     (\<forall>prio s. within prio (snd (snd (os_getrlimit S s))) \<longrightarrow>
        fst (os_setrlimit S (word_of_int prio) (snd (snd (os_getrlimit S s))) s) = 0)"

subsection \<open>The next processor\<close>

text \<open>The static variables \<open>sc_cpu\<close> and, inside \<open>get_nextcpu\<close>, \<open>nproc\<close>; \<open>online\<close> is the reply of
  \<open>sysconf(_SC_NPROCESSORS_ONLN)\<close>.\<close>

record cpu_statics =
  sc_cpu :: u32
  nproc :: int

definition cpu_statics_init :: cpu_statics where
  "cpu_statics_init = \<lparr>sc_cpu = 0, nproc = - 1\<rparr>"

definition InterlockedIncrement :: "u32 \<Rightarrow> u32" where
  "InterlockedIncrement x = x + 1"

definition get_nextcpu :: "int \<Rightarrow> cpu_statics \<Rightarrow> int \<times> cpu_statics" where
  "get_nextcpu online g =
     (let g = (if nproc g = - 1 then
                 (let g = g\<lparr>nproc := online\<rparr> in g\<lparr>sc_cpu := word_of_int (nproc g - 1)\<rparr>)
               else g);
          g = g\<lparr>sc_cpu := InterlockedIncrement (sc_cpu g)\<rparr>;
          cpu = sint (sc_cpu g mod word_of_int (nproc g))
      in (cpu, g))"

fun next_cpus :: "nat \<Rightarrow> int \<Rightarrow> cpu_statics \<Rightarrow> int list" where
  "next_cpus 0 online g = []"
| "next_cpus (Suc k) online g =
     (let (cpu, g) = get_nextcpu online g in cpu # next_cpus k online g)"

lemma get_nextcpu_running:
  assumes "nproc g = int n" and "0 < n" and "n < 2 ^ 31" and "unat (sc_cpu g) + 1 < 2 ^ 32"
  shows "get_nextcpu online g = (int ((unat (sc_cpu g) + 1) mod n), g\<lparr>sc_cpu := sc_cpu g + 1\<rparr>)"
proof -
  let ?w = "(sc_cpu g + 1) mod word_of_int (int n)"
  have "unat (sc_cpu g + 1) = unat (sc_cpu g) + 1"
    using assms(4) by (simp add: unat_word_ariths)
  moreover have "unat (word_of_int (int n) :: u32) = n"
    using assms(3) by (simp add: unat_of_nat)
  ultimately have u: "unat ?w = (unat (sc_cpu g) + 1) mod n"
    by (simp add: unat_mod_distrib)
  also have "\<dots> < n" using assms(2) by simp
  finally have "sint ?w = int (unat ?w)" using assms(3) by (intro sint_small) simp
  with u assms(1,2) show ?thesis
    by (simp add: get_nextcpu_def InterlockedIncrement_def Let_def)
qed

lemma next_cpus_running:
  assumes "nproc g = int n" and "0 < n" and "n < 2 ^ 31" and "unat (sc_cpu g) + k < 2 ^ 32"
  shows "next_cpus k online g = map (\<lambda>i. int ((unat (sc_cpu g) + 1 + i) mod n)) [0..<k]"
  using assms
proof (induction k arbitrary: g)
  case 0
  then show ?case by simp
next
  case (Suc k)
  then have step: "get_nextcpu online g =
      (int ((unat (sc_cpu g) + 1) mod n), g\<lparr>sc_cpu := sc_cpu g + 1\<rparr>)"
    by (intro get_nextcpu_running) simp_all
  from Suc.prems(4) have u: "unat (sc_cpu g + 1) = unat (sc_cpu g) + 1"
    by (simp add: unat_word_ariths)
  have "next_cpus k online (g\<lparr>sc_cpu := sc_cpu g + 1\<rparr>) =
      map (\<lambda>i. int ((unat (sc_cpu g) + 1 + 1 + i) mod n)) [0..<k]"
    using Suc.IH [of "g\<lparr>sc_cpu := sc_cpu g + 1\<rparr>"] Suc.prems u by simp
  also have "\<dots> = map (\<lambda>i. int ((unat (sc_cpu g) + 1 + i) mod n)) [1..<Suc k]"
    by (simp only: map_Suc_upt [symmetric] One_nat_def map_map) simp
  finally show ?case using step by (simp add: upt_conv_Cons del: upt_Suc)
qed

text \<open>The first call sets the counter to the number of processors less one, which is then
  incremented, so the first processor is number 0.\<close>

lemma next_cpus_first:
  assumes "0 < n" and "n < 2 ^ 31" and "k + n \<le> 2 ^ 32"
  shows "next_cpus k (int n) cpu_statics_init = map (\<lambda>i. int (i mod n)) [0..<k]"
proof (cases k)
  case 0
  then show ?thesis by simp
next
  case (Suc j)
  let ?g = "\<lparr>sc_cpu = of_nat (n - 1), nproc = int n\<rparr>"
  have w: "(word_of_int (int n - 1) :: u32) = of_nat (n - 1)"
    using assms(1) by (simp add: of_nat_diff)
  have "get_nextcpu (int n) cpu_statics_init = get_nextcpu (int n) ?g"
    using assms(1) w by (simp add: get_nextcpu_def cpu_statics_init_def Let_def)
  then have "next_cpus k (int n) cpu_statics_init = next_cpus k (int n) ?g"
    unfolding Suc by simp
  moreover have u: "unat (sc_cpu ?g) = n - 1" using assms by (simp add: unat_of_nat del: of_nat_diff)
  moreover have "next_cpus k (int n) ?g = map (\<lambda>i. int ((unat (sc_cpu ?g) + 1 + i) mod n)) [0..<k]"
    using assms u by (intro next_cpus_running) simp_all
  ultimately show ?thesis using assms(1) by simp
qed

text \<open>With those limits the result is 0 exactly when the hard limit allows the priority.\<close>

lemma two_attempts_within:
  assumes "limits_kept S" and "rt_limits S" and "os_getrlimit S s = (0, c, h)"
    and "os_priority_max S policy = (\<lambda>s. Some pm)" and "0 \<le> prio" and "prio \<le> pm" and "prio < 2 ^ 31"
    and le: "c = RLIM_INFINITY \<longrightarrow> h = RLIM_INFINITY" "h \<noteq> RLIM_INFINITY \<longrightarrow> int_of c \<le> int_of h"
  shows "fst (two_attempts S pid policy prio s) = 0 \<longleftrightarrow> within prio h"
proof -
  obtain e1 s1 where a1: "os_setscheduler S pid policy prio s = (e1, s1)" by fastforce
  have e1: "e1 = (if within prio c then 0 else EPERM)"
    using assms(2,3) a1 unfolding rt_limits_def by (metis fst_conv snd_conv)
  have lim1: "os_getrlimit S s1 = (0, c, h)"
    using assms(1,3) a1 unfolding limits_kept_def by (metis snd_conv)
  show ?thesis
  proof (cases "within prio c")
    case True
    with le have "within prio h" by (auto simp: within_def)
    with True e1 a1 show ?thesis by (simp add: two_attempts_def)
  next
    case False
    then have c: "c \<noteq> RLIM_INFINITY" "int_of c < prio" by (auto simp: within_def)
    show ?thesis
    proof (cases "within prio h")
      case True
      with c assms(4,6) lim1 have ra: "raise_soft_prio S policy prio s1 = os_setrlimit S (word_of_int prio) h s1"
        by (auto simp: raise_soft_prio_def within_def)
      obtain r s2 where r: "os_setrlimit S (word_of_int prio) h s1 = (r, s2)" by fastforce
      have "r = 0" using assms(2) lim1 True r unfolding rt_limits_def by (metis fst_conv snd_conv)
      with r assms(1) have "os_getrlimit S s2 = (0, word_of_int prio, h)"
        by (auto simp: limits_kept_def)
      moreover have "within prio (word_of_int prio)"
        using assms(5,7) by (simp add: within_def int_of_small)
      ultimately have "fst (os_setscheduler S pid policy prio s2) = 0"
        using assms(2) unfolding rt_limits_def by (metis fst_conv snd_conv)
      then obtain s3 where "os_setscheduler S pid policy prio s2 = (0, s3)"
        by (metis prod.collapse)
      with True False e1 a1 ra r \<open>r = 0\<close> show ?thesis by (simp add: two_attempts_def)
    next
      case h: False
      with c assms(4) lim1 have "raise_soft_prio S policy prio s1 = (- 1, s1)"
        by (auto simp: raise_soft_prio_def within_def)
      with False h e1 a1 show ?thesis by (simp add: two_attempts_def)
    qed
  qed
qed

subsection \<open>A concrete system\<close>

text \<open>The state is the pair of the soft and the hard limit; the greatest priority is 99.\<close>

definition plain_os :: "(u64 \<times> u64) sched_os" where
  "plain_os = \<lparr>os_priority_max = (\<lambda>policy s. Some 99),
     os_setscheduler = (\<lambda>pid policy prio s. (if within prio (fst s) then 0 else EPERM, s)),
     os_getrlimit = (\<lambda>s. (0, s)), os_setrlimit = (\<lambda>c h s. (0, c, h)), os_errno = (\<lambda>s. EPERM)\<rparr>"

lemma plain_os_laws: "limits_kept plain_os" "rt_limits plain_os" "os_errno plain_os x \<noteq> 0"
  by (simp_all add: plain_os_def limits_kept_def rt_limits_def)

subsection \<open>Properties\<close>

text \<open>C31: \<open>setscheduler\<close> always returns: when limits that were set are read back, the jump back is
  taken at most once, so the loop equals the straight code of two attempts.\<close>

theorem setscheduler_two_attempts:
  assumes "limits_kept S" and "\<And>x. os_errno S x \<noteq> 0" and "0 \<le> prio" and "prio < 2 ^ 31"
  shows "setscheduler S pid policy prio s = Some (two_attempts S pid policy prio s)"
  by (rule setscheduler_eq [OF assms])

theorem setscheduler_two_attempts_witness:
  "limits_kept plain_os \<and> (\<forall>x. os_errno plain_os x \<noteq> 0) \<and> (0 :: int) \<le> 88 \<and> (88 :: int) < 2 ^ 31 \<and>
   setscheduler plain_os 0 1 88 (0, 99) = Some (two_attempts plain_os 0 1 88 (0, 99))"
proof -
  have p: "(0 :: int) \<le> 88" "(88 :: int) < 2 ^ 31" by simp_all
  show ?thesis
    using plain_os_laws p setscheduler_two_attempts [OF plain_os_laws(1) plain_os_laws(3) p, of 0 1 "(0, 99)"]
    by blast
qed

text \<open>A thread gets its real-time priority exactly when the hard limit allows it, also when
  the soft limit is too low.\<close>

lemma setscheduler_grants:
  assumes "limits_kept S" and "rt_limits S" and "\<And>x. os_errno S x \<noteq> 0"
    and "os_getrlimit S s = (0, c, h)" and "os_priority_max S policy = (\<lambda>s. Some pm)"
    and "0 \<le> prio" and "prio \<le> pm" and "prio < 2 ^ 31"
    and "c = RLIM_INFINITY \<longrightarrow> h = RLIM_INFINITY" and "h \<noteq> RLIM_INFINITY \<longrightarrow> int_of c \<le> int_of h"
  shows "(\<exists>s'. setscheduler S pid policy prio s = Some (0, s')) \<longleftrightarrow> within prio h"
  using two_attempts_within [OF assms(1,2,4-8) assms(9,10), of pid]
    setscheduler_eq [OF assms(1,3,6,8), of pid policy s]
  by (cases "two_attempts S pid policy prio s") auto

text \<open>\<open>get_nextcpu\<close> hands out the processors in turn, starting with number 0, until its 32-bit
  counter wraps around.\<close>

lemma get_nextcpu_round_robin:
  assumes "0 < n" and "n < 2 ^ 31" and "k + n \<le> 2 ^ 32"
  shows "next_cpus k (int n) cpu_statics_init = map (\<lambda>i. int (i mod n)) [0..<k]"
  by (rule next_cpus_first [OF assms])

end
