(* ===== verification/Thread_Name.thy ===== *)
theory Thread_Name
  imports C_String
begin

section \<open>Names of threads\<close>

text \<open>
  \<open>fix_threadname\<close> of \<open>thread/src/thread.cpp\<close>, which shortens a name for \<open>pthread_setname_np\<close>
  (at most 15 characters) and makes it different by a number. The counter \<open>s_threadunique\<close> is
  state; the result \<open>None\<close> stands for a write outside the buffer.
\<close>

subsection \<open>The function\<close>

text \<open>The name that is returned, the buffer and the counter.\<close>

definition fix_threadname :: "string \<Rightarrow> char list \<Rightarrow> nat \<Rightarrow> u32 \<Rightarrow> (string \<times> char list \<times> u32) option"
where
  "fix_threadname cname buffer maxsize s_threadunique =
     (if 12 < length cname then do {
        buffer \<leftarrow> strncpy (maxsize - 1) cname buffer;
        buffer \<leftarrow> store 11 [CHR ''@''] buffer;
        buffer \<leftarrow> store 12 [NUL] buffer;
        let temp = replicate 10 NUL;
        let s_threadunique = s_threadunique + 1;
        temp \<leftarrow> snprintf 9 (dec_int (sint (s_threadunique - 1))) temp;
        buffer \<leftarrow> strncat (maxsize - 1) (c_string temp) buffer;
        Some (c_string buffer, buffer, s_threadunique)
      } else Some (cname, buffer, s_threadunique))"

text \<open>The name that results for a long one.\<close>

definition short_name :: "string \<Rightarrow> u32 \<Rightarrow> string" where
  "short_name cname u = take 11 cname @ CHR ''@'' # take 8 (dec_int (sint u))"

lemma dec_int_no_NUL: "NUL \<notin> set (dec_int i)"
  by (simp add: dec_int_def dec_no_NUL)

text \<open>The first twelve cells after the copy and the two stores.\<close>

lemma fix_prefix:
  assumes "12 < length cname" and "13 < maxsize" and "maxsize \<le> length buffer" and "NUL \<notin> set cname"
  shows "\<exists>b rest. strncpy (maxsize - 1) cname buffer = Some b \<and>
     store 11 [CHR ''@''] b \<bind> store 12 [NUL] =
       Some (take 11 cname @ [CHR ''@''] @ NUL # rest) \<and> length rest + 13 = length buffer"
proof -
  let ?c = "take (maxsize - 1) (cname @ replicate (maxsize - 1 - length cname) NUL)"
  let ?b = "?c @ drop (maxsize - 1) buffer"
  have len: "length ?c = maxsize - 1" by simp
  have b: "strncpy (maxsize - 1) cname buffer = Some ?b"
    using assms(2,3) store_Some [of 0 ?c buffer] unfolding strncpy_def len by simp
  have "length ?b = length buffer" "take 11 ?b = take 11 cname" using assms(1-3) by simp_all
  with b obtain b where b: "strncpy (maxsize - 1) cname buffer = Some b"
    and lb: "length b = length buffer" and t: "take 11 b = take 11 cname" by blast
  have n: "13 < length b" using assms(2,3) lb by simp
  have s1: "store 11 [CHR ''@''] b = Some (take 11 cname @ [CHR ''@''] @ drop 12 b)"
    using n t unfolding store_def by simp
  have "length (take 11 cname) = 11" using assms(1) by simp
  then have s2: "store 12 [NUL] (take 11 cname @ [CHR ''@''] @ drop 12 b) =
      Some (take 11 cname @ [CHR ''@''] @ NUL # drop 13 b)"
    using n unfolding store_def by simp
  have "length (drop 13 b) + 13 = length buffer" using lb n by simp
  with b s1 s2 show ?thesis by (intro exI [of _ b] exI [of _ "drop 13 b"]) simp
qed

lemma fix_threadname_long:
  assumes "12 < length cname" and "NUL \<notin> set cname" and "21 \<le> maxsize" and "maxsize \<le> length buffer"
  shows "\<exists>b. fix_threadname cname buffer maxsize u = Some (short_name cname u, b, u + 1) \<and>
           length b = length buffer"
proof -
  obtain b rest where pre: "strncpy (maxsize - 1) cname buffer = Some b"
    "store 11 [CHR ''@''] b \<bind> store 12 [NUL] = Some (take 11 cname @ [CHR ''@''] @ NUL # rest)"
    and len: "length rest + 13 = length buffer"
    using fix_prefix [OF assms(1) _ assms(4,2)] assms(3) by auto
  define B where "B = take 11 cname @ [CHR ''@''] @ NUL # rest"
  obtain temp where temp: "snprintf 9 (dec_int (sint u)) (replicate 10 NUL) = Some temp"
    "c_string temp = take 8 (dec_int (sint u))"
    using snprintf_Some [of 9 "replicate 10 NUL" "dec_int (sint u)"] dec_int_no_NUL by auto
  have nul: "NUL \<notin> set (take 11 cname @ [CHR ''@''])"
    using assms(2) by (auto dest: in_set_takeD)
  then have cb: "c_string B = take 11 cname @ [CHR ''@'']"
    using c_string_text [OF nul, of rest] by (simp add: B_def)
  have nt: "NUL \<notin> set (c_string temp)" by (rule c_string_no_NUL)
  have lb: "length B = length buffer" using assms(1) len by (simp add: B_def)
  have "length (c_string B) + length (c_string temp) < length B"
    "length (c_string temp) \<le> maxsize - 1"
    using assms(1,3,4) temp(2) by (simp_all add: lb cb)
  from strncat_Some [OF this(1) this(2) nt] obtain b' where b': "strncat (maxsize - 1) (c_string temp) B = Some b'"
    "c_string b' = c_string B @ c_string temp" "length b' = length B" by blast
  have "fix_threadname cname buffer maxsize u = (store 11 [CHR ''@''] b \<bind> store 12 [NUL]) \<bind>
      (\<lambda>buffer. strncat (maxsize - 1) (c_string temp) buffer \<bind>
        (\<lambda>buffer. Some (c_string buffer, buffer, u + 1)))"
    using assms(1) pre(1) temp(1) by (simp add: fix_threadname_def del: One_nat_def)
  also have "\<dots> = Some (c_string b', b', u + 1)"
    unfolding pre(2) B_def [symmetric] using b'(1) by simp
  also have "c_string b' = short_name cname u" by (simp add: b'(2) cb temp(2) short_name_def)
  finally show ?thesis using b'(3) lb by simp
qed

lemma short_name_length:
  assumes "12 < length cname" and "unat u < 2 ^ 31"
  shows "length (short_name cname u) \<le> 15 \<longleftrightarrow> unat u < 1000"
proof -
  have s: "sint u = int (unat u)" using assms(2) by (rule sint_small)
  show ?thesis
  proof (cases "unat u < 1000")
    case True
    with length_dec_le [of "unat u" 3] assms(1) s show ?thesis
      by (simp add: short_name_def dec_int_def)
  next
    case False
    with length_dec_ge [of 3 "unat u"] assms(1) s show ?thesis
      by (simp add: short_name_def dec_int_def)
  qed
qed

lemma short_name_inject:
  assumes "unat u < 10 ^ 8" and "unat v < 10 ^ 8" and "12 < length c" and "12 < length d"
    and "short_name c u = short_name d v"
  shows "u = v"
proof -
  have s: "dec_int (sint w) = dec (unat w)" if "unat w < 10 ^ 8" for w :: u32
    using sint_small [of w] that by (simp add: dec_int_def)
  from assms(5) assms(3,4) have "take 8 (dec_int (sint u)) = take 8 (dec_int (sint v))"
    by (simp add: short_name_def append_eq_append_conv)
  with s [OF assms(1)] s [OF assms(2)] length_dec_le [OF assms(1)] length_dec_le [OF assms(2)]
  have "dec (unat u) = dec (unat v)" by simp
  then have "unat u = unat v" using undec_dec by metis
  then show ?thesis by (rule unsigned_word_eqI)
qed

subsection \<open>Properties\<close>

text \<open>C32: \<open>fix_threadname\<close> never leaves its buffer and leaves names of up to twelve characters and
  the counter alone; a longer one is cut to eleven characters, an at sign and the counter, and no
  two of the first hundred million names that it makes are equal.\<close>

theorem fix_threadname_shortens:
  assumes "NUL \<notin> set cname" and "21 \<le> maxsize" and "maxsize \<le> length buffer"
  shows "\<exists>name b u'. fix_threadname cname buffer maxsize u = Some (name, b, u') \<and>
     length b = length buffer \<and>
     (if length cname \<le> 12 then name = cname \<and> u' = u
      else name = short_name cname u \<and> u' = u + 1 \<and>
        (\<forall>d v. 12 < length d \<and> unat u < 10 ^ 8 \<and> unat v < 10 ^ 8 \<and> v \<noteq> u \<longrightarrow>
           short_name d v \<noteq> name))"
proof (cases "length cname \<le> 12")
  case True
  then show ?thesis by (simp add: fix_threadname_def)
next
  case False
  then have "12 < length cname" by simp
  with fix_threadname_long [OF this assms, of u] False show ?thesis
    using short_name_inject [of u _ cname] by fastforce
qed

theorem fix_threadname_shortens_witness:
  "NUL \<notin> set ''process data thread'' \<and> (21 :: nat) \<le> 63 \<and> 63 \<le> length (replicate 64 NUL) \<and>
   (\<exists>b. fix_threadname ''process data thread'' (replicate 64 NUL) 63 7 = Some (''process dat@7'', b, 8) \<and>
      length b = 64)"
proof -
  have h: "NUL \<notin> set ''process data thread''" "(21 :: nat) \<le> 63" "63 \<le> length (replicate 64 NUL)"
    by simp_all
  obtain name b u' where f: "fix_threadname ''process data thread'' (replicate 64 NUL) 63 7 = Some (name, b, u')"
    "length b = length (replicate 64 NUL)" "name = short_name ''process data thread'' 7" "u' = 7 + 1"
    using fix_threadname_shortens [OF h, of 7] by auto
  have "short_name ''process data thread'' 7 = ''process dat@7''"
    by (simp add: short_name_def dec_int_def dec.simps digit_def char_of_def bit_Suc_0_iff)
  with f h show ?thesis by auto
qed

text \<open>A shortened name respects the limit of \<open>pthread_setname_np\<close> (15 characters) exactly for
  the first thousand long names of the process; later ones are too long.\<close>

lemma fix_threadname_limit:
  assumes "12 < length cname" and "NUL \<notin> set cname" and "unat u < 2 ^ 31"
  shows "\<exists>name b. fix_threadname cname (replicate 64 NUL) 63 u = Some (name, b, u + 1) \<and>
           (length name \<le> 15 \<longleftrightarrow> unat u < 1000)"
  using fix_threadname_long [OF assms(1,2), of 63 "replicate 64 NUL" u] short_name_length [OF assms(1,3)]
  by auto

end
