(* ===== verification/Threads.thy ===== *)
theory Threads
  imports Shield Sched Thread_Name
begin

section \<open>Thread objects\<close>

text \<open>
  The classes \<open>threadbase\<close>, \<open>thread\<close>, \<open>rtthread\<close> and \<open>rttestthread\<close> of \<open>include/thread/thread.h\<close> and
  \<open>thread/src/thread.cpp\<close>. The memory block that \<open>imp_buf\<close> points to belongs to the object, so it
  is a value in it, \<open>None\<close> for a null pointer; the start mutex in it is used only by calls of the
  pthread library.
\<close>

subsection \<open>The objects\<close>

record HALTHREADID =
  m_thread :: int

record threadbase =
  m_priority :: int
  m_ref :: u64
  m_cpu :: int
  m_isrt :: int
  m_rcpu :: int
  m_activ :: u32
  m_crrunning :: u32
  imp_buf_size :: nat
  imp_buf :: "HALTHREADID option"

abbreviation (input) HALTHREADID_size :: nat where "HALTHREADID_size \<equiv> 56"

definition u32_of :: "bool \<Rightarrow> u32" where
  "u32_of b = (if b then 1 else 0)"

definition threadbase_ctor :: "int \<Rightarrow> u64 \<Rightarrow> int \<Rightarrow> bool \<Rightarrow> threadbase \<Rightarrow> threadbase" where
  "threadbase_ctor priority ref cpu crrunning ob =
     ob\<lparr>m_isrt := 0, m_priority := priority, m_ref := ref, m_activ := 0, m_rcpu := cpu, m_cpu := cpu,
        m_crrunning := u32_of crrunning, imp_buf_size := 0, imp_buf := None\<rparr>"

text \<open>\<open>baseobj::Name\<close>, which no class overrides.\<close>

definition Name :: string where
  "Name = ''rttest''"

text \<open>The memory of a static object before its constructor runs.\<close>

definition static_threadbase :: threadbase where
  "static_threadbase = \<lparr>m_priority = 0, m_ref = 0, m_cpu = 0, m_isrt = 0, m_rcpu = 0, m_activ = 0,
     m_crrunning = 0, imp_buf_size = 0, imp_buf = None\<rparr>"

subsection \<open>Class thread\<close>

definition thread_ctor :: "'w platform \<Rightarrow> int \<Rightarrow> u64 \<Rightarrow> int \<Rightarrow> bool \<Rightarrow> nat \<Rightarrow> threadbase \<Rightarrow> 'w machine \<Rightarrow>
    threadbase \<times> 'w machine" where
  "thread_ctor E priority ref cpu crrunning stacksize ob m =
     (let ob = threadbase_ctor priority ref cpu crrunning ob;
          ob = ob\<lparr>m_priority := priority\<rparr>;
          ob = ob\<lparr>m_ref := ref\<rparr>;
          ob = ob\<lparr>m_activ := 0\<rparr>;
          ob = ob\<lparr>m_cpu := cpu\<rparr>;
          ob = ob\<lparr>m_crrunning := u32_of crrunning\<rparr>;
          stacksize = (if stacksize = 0 then 128 * 1024 else stacksize);
          ob = ob\<lparr>imp_buf_size := HALTHREADID_size\<rparr>;
          (p, m) = ext_call E (Malloc (imp_buf_size ob)) m
      in if p = 0 then (ob, m)
         else (let ob = ob\<lparr>imp_buf := Some \<lparr>m_thread = 0\<rparr>\<rparr>;
                   m = ext_do E Mutex_init m;
                   m = ext_do E Mutex_lock m;
                   m = ext_do E Attr_init m;
                   m = (if stacksize \<noteq> 0 then ext_do E (Attr_setstacksize stacksize) m else m);
                   (nproc, m) = ext_call E Sysconf_nprocessors m;
                   (h, m) = ext_call E Pthread_create m;
                   ob = ob\<lparr>imp_buf := Some \<lparr>m_thread = h\<rparr>\<rparr>;
                   m = (if cpu < nproc \<and> cpu \<noteq> - 1 then ext_do E (Sched_setaffinity h cpu) m else m);
                   m = ext_do E Attr_destroy m;
                   m = (if crrunning then ext_do E Mutex_unlock m else m)
               in (ob, m)))"

definition thread_Resume :: "'w platform \<Rightarrow> threadbase \<Rightarrow> 'w machine \<Rightarrow> 'w machine option" where
  "thread_Resume E ob m =
     (case imp_buf ob of None \<Rightarrow> None | Some pthread \<Rightarrow> Some (ext_do E Mutex_unlock m))"

definition thread_Terminate :: "'w platform \<Rightarrow> threadbase \<Rightarrow> 'w machine \<Rightarrow>
    bool \<times> threadbase \<times> 'w machine" where
  "thread_Terminate E ob m =
     (let term = False;
          (term, ob, m) =
            (case imp_buf ob of
               None \<Rightarrow> (term, ob, m)
             | Some pthread \<Rightarrow>
                 if imp_buf_size ob \<noteq> 0 \<and> m_thread pthread \<noteq> 0
                 then (let m = ext_do E Mutex_destroy m;
                           m = ext_do E (Pthread_cancel (m_thread pthread)) m;
                           m = ext_do E (Pthread_join (m_thread pthread)) m;
                           ob = ob\<lparr>imp_buf := Some (pthread\<lparr>m_thread := 0\<rparr>)\<rparr>
                       in (True, ob, m))
                 else (term, ob, m));
          ob = (if term then ob\<lparr>m_activ := 0\<rparr> else ob)
      in (term, ob, m))"

definition thread_dtor :: "'w platform \<Rightarrow> threadbase \<Rightarrow> 'w machine \<Rightarrow> threadbase \<times> 'w machine" where
  "thread_dtor E ob m =
     (let (ob, m) =
            (if imp_buf ob \<noteq> None \<and> imp_buf_size ob \<noteq> 0
             then (let (term, ob, m) = thread_Terminate E ob m;
                       ob = ob\<lparr>imp_buf_size := 0\<rparr>;
                       m = ext_do E Free m;
                       ob = ob\<lparr>imp_buf := None\<rparr>
                   in (ob, m))
             else (ob, m));
          ob = ob\<lparr>m_activ := 0\<rparr>
      in (ob, m))"

subsection \<open>Class rtthread\<close>

text \<open>The static variables of the file.\<close>

record thread_statics = cpu_statics +
  s_threadunique :: u32

text \<open>Here the block is cleared without a check, so \<open>None\<close> stands for the crash on a failed
  \<open>malloc\<close> (or a write outside the name buffer).\<close>

definition rtthread_ctor :: "'w platform \<Rightarrow> int \<Rightarrow> u64 \<Rightarrow> int \<Rightarrow> bool \<Rightarrow> nat \<Rightarrow> threadbase \<Rightarrow>
    thread_statics \<Rightarrow> 'w machine \<Rightarrow> (threadbase \<times> thread_statics \<times> 'w machine) option" where
  "rtthread_ctor E priority ref cpu crrunning stacksize ob g m = do {
     let ob = threadbase_ctor priority ref cpu crrunning ob;
     let ob = ob\<lparr>m_priority := priority\<rparr>;
     let ob = ob\<lparr>m_ref := ref\<rparr>;
     let ob = ob\<lparr>m_activ := 0\<rparr>;
     let ob = ob\<lparr>m_crrunning := u32_of crrunning\<rparr>;
     let ob = ob\<lparr>m_isrt := 1\<rparr>;
     let ob = ob\<lparr>imp_buf_size := HALTHREADID_size\<rparr>;
     let (p, m) = ext_call E (Malloc (imp_buf_size ob)) m;
     ob \<leftarrow> (if p = 0 then None else Some (ob\<lparr>imp_buf := Some \<lparr>m_thread = 0\<rparr>\<rparr>));
     let stacksize = (if stacksize = 0 then 128 * 1024 else stacksize);
     let m = ext_do E Mutex_init m;
     let m = ext_do E Mutex_lock m;
     let m = ext_do E Attr_init m;
     let m = (if stacksize \<noteq> 0 then ext_do E (Attr_setstacksize stacksize) m else m);
     let m = ext_do E Attr_setschedpolicy_FIFO m;
     let m = ext_do E Attr_setschedparam m;
     let (nprocs, m) = ext_call E Sysconf_nprocessors m;
     let (h, m) = ext_call E Pthread_create m;
     let ob = ob\<lparr>imp_buf := Some \<lparr>m_thread = h\<rparr>\<rparr>;
     let (cpu, ob, g, m) =
       (if cpu = - 1 then
          (let (online, m) =
                 (if nproc g = - 1 then ext_call E Sysconf_nprocessors m else (nproc g, m));
               (c, s) = get_nextcpu online (cpu_statics.truncate g)
           in (c, ob\<lparr>m_rcpu := c\<rparr>, g\<lparr>sc_cpu := sc_cpu s, nproc := nproc s\<rparr>, m))
        else (cpu, ob, g, m));
     let m = (if cpu < nprocs then ext_do E (Sched_setaffinity h cpu) m else m);
     (cname, namebuf, u) \<leftarrow> fix_threadname Name (replicate 64 NUL) (64 - 1) (s_threadunique g);
     let g = g\<lparr>s_threadunique := u\<rparr>;
     let m = ext_do E (Pthread_setname h cname) m;
     let m = ext_do E Attr_destroy m;
     let m = (if crrunning then ext_do E Mutex_unlock m else m);
     Some (ob, g, m)
   }"

definition rtthread_Resume :: "'w platform \<Rightarrow> threadbase \<Rightarrow> 'w machine \<Rightarrow> 'w machine option" where
  "rtthread_Resume E ob m =
     (case imp_buf ob of None \<Rightarrow> None | Some pthread \<Rightarrow> Some (ext_do E Mutex_unlock m))"

definition rtthread_Suspend :: "'w platform \<Rightarrow> threadbase \<Rightarrow> 'w machine \<Rightarrow> 'w machine option" where
  "rtthread_Suspend E ob m =
     (case imp_buf ob of
        None \<Rightarrow> None
      | Some pthread \<Rightarrow> Some (ext_do E (Pthread_cancel (m_thread pthread)) m))"

text \<open>Unlike \<open>thread::Terminate\<close> this one leaves the handle in the object.\<close>

definition rtthread_Terminate :: "'w platform \<Rightarrow> threadbase \<Rightarrow> 'w machine \<Rightarrow>
    bool \<times> threadbase \<times> 'w machine" where
  "rtthread_Terminate E ob m =
     (let term = False;
          (term, m) =
            (case imp_buf ob of
               None \<Rightarrow> (term, m)
             | Some pthread \<Rightarrow>
                 if imp_buf_size ob \<noteq> 0 \<and> m_thread pthread \<noteq> 0
                 then (let m = ext_do E Mutex_destroy m;
                           m = ext_do E (Pthread_cancel (m_thread pthread)) m;
                           m = ext_do E (Pthread_join (m_thread pthread)) m
                       in (True, m))
                 else (term, m));
          ob = (if term then ob\<lparr>m_activ := 0\<rparr> else ob)
      in (term, ob, m))"

definition rtthread_dtor :: "'w platform \<Rightarrow> threadbase \<Rightarrow> 'w machine \<Rightarrow> threadbase \<times> 'w machine" where
  "rtthread_dtor E ob m =
     (let (ob, m) =
            (if imp_buf ob \<noteq> None \<and> imp_buf_size ob \<noteq> 0
             then (let (term, ob, m) = rtthread_Terminate E ob m;
                       ob = ob\<lparr>imp_buf_size := 0\<rparr>;
                       m = ext_do E Free m;
                       ob = ob\<lparr>imp_buf := None\<rparr>
                   in (ob, m))
             else (ob, m));
          ob = ob\<lparr>m_activ := 0\<rparr>
      in (ob, m))"

subsection \<open>Class genericthread\<close>

text \<open>\<open>sget_threadid\<close>: the symbol \<open>__GNUC_LINUX__\<close> is not defined by the compiler, so the handle of the
  running thread is not asked for.\<close>

definition sget_threadid :: int where
  "sget_threadid = (let id = 0 in id)"

definition register_this_thread :: "'w platform \<Rightarrow> thread_statics \<Rightarrow> 'w machine \<Rightarrow>
    (thread_statics \<times> 'w machine) option" where
  "register_this_thread E g m = do {
     let id = sget_threadid;
     namebuf \<leftarrow> store (64 - 1) [NUL] (replicate 64 NUL);
     namebuf \<leftarrow> snprintf (64 - 1) (dec_int id) namebuf;
     (cname, namebuf, u) \<leftarrow> fix_threadname Name namebuf (64 - 1) (s_threadunique g);
     let g = g\<lparr>s_threadunique := u\<rparr>;
     let m = ext_do E (Pthread_setname id cname) m;
     Some (g, m)
   }"

lemma register_this_thread_names_nobody:
  "register_this_thread E g m = Some (g, ext_do E (Pthread_setname 0 ''rttest'') m)"
  by (simp add: register_this_thread_def sget_threadid_def store_def snprintf_def dec_int_def
      fix_threadname_def Name_def)

subsection \<open>The thread's own code\<close>

abbreviation (input) SCHED_FIFO :: int where "SCHED_FIFO \<equiv> 1"

text \<open>\<open>Execute\<close> is the virtual member function of the class at hand.\<close>

definition ExecThread :: "'w platform \<Rightarrow> 'o sched_os \<Rightarrow> ('w machine \<Rightarrow> (u32 \<times> 'w machine) option) \<Rightarrow>
    threadbase \<Rightarrow> 'o \<Rightarrow> 'w machine \<Rightarrow> (u32 \<times> 'o \<times> 'w machine) option" where
  "ExecThread E S Execute ob os m = do {
     (err, os) \<leftarrow> (if m_isrt ob \<noteq> 0 then setscheduler S 0 SCHED_FIFO (m_priority ob) os
                   else Some (0, os));
     let m = (if m_rcpu ob \<noteq> - 1 then ext_do E (Pthread_setaffinity_self (m_rcpu ob)) m else m);
     (stat, m) \<leftarrow> Execute m;
     Some (stat, os, m)
   }"

text \<open>\<open>__Start_thread\<close>; \<open>Mutex_lock\<close> returns when the creator has unlocked the start mutex.\<close>

definition Start_thread :: "'w platform \<Rightarrow> 'o sched_os \<Rightarrow> ('w machine \<Rightarrow> (u32 \<times> 'w machine) option) \<Rightarrow>
    threadbase \<Rightarrow> 'o \<Rightarrow> 'w machine \<Rightarrow> (u32 \<times> threadbase \<times> 'o \<times> 'w machine) option" where
  "Start_thread E S Execute tobj os m = do {
     let m = ext_do E Pthread_setcancelstate_ENABLE m;
     let m = ext_do E Pthread_setcanceltype_ASYNCHRONOUS m;
     let m = ext_do E Mutex_lock m;
     let tobj = tobj\<lparr>m_activ := 1\<rparr>;
     (stat, os, m) \<leftarrow> ExecThread E S Execute tobj os m;
     let tobj = tobj\<lparr>m_activ := 0\<rparr>;
     Some (stat, tobj, os, m)
   }"

subsection \<open>Class rttestthread\<close>

definition rttestthread_ctor :: "'w platform \<Rightarrow> threadbase \<Rightarrow> thread_statics \<Rightarrow> 'w machine \<Rightarrow>
    (threadbase \<times> thread_statics \<times> 'w machine) option" where
  "rttestthread_ctor E ob g m = rtthread_ctor E 88 0 (- 1) False 0 ob g m"

text \<open>\<open>Execute\<close> after \<open>n\<close> rounds: either it has returned, or it is still in the loop of the device.\<close>

definition rttestthread_Execute :: "nat \<Rightarrow> 'w platform \<Rightarrow> 'f fpu \<Rightarrow> 'f etherberry_9252 option \<Rightarrow>
    'w machine \<Rightarrow> (u32 + 'f etherberry_9252 \<times> 'w machine) option" where
  "rttestthread_Execute n E F device m =
     (case device of
        Some d \<Rightarrow> map_option Inr (execute_fromthread n E F d m)
      | None \<Rightarrow> Some (Inl 0xFFFFFFF))"

subsection \<open>Joining\<close>

text \<open>The handle of the thread that an object still has to join, 0 for none.\<close>

definition live_handle :: "threadbase \<Rightarrow> int" where
  "live_handle ob =
     (case imp_buf ob of None \<Rightarrow> 0 | Some t \<Rightarrow> if imp_buf_size ob \<noteq> 0 then m_thread t else 0)"

fun joined :: "action list \<Rightarrow> int list" where
  "joined [] = []"
| "joined (Ext (Pthread_join h) r # as) = h # joined as"
| "joined (_ # as) = joined as"

lemma joined_append [simp]: "joined (xs @ ys) = joined xs @ joined ys"
  by (induction xs rule: joined.induct) simp_all

text \<open>The blocks of memory that are freed.\<close>

fun frees :: "action list \<Rightarrow> nat" where
  "frees [] = 0"
| "frees (Ext Free r # as) = Suc (frees as)"
| "frees (_ # as) = frees as"

lemma frees_append [simp]: "frees (xs @ ys) = frees xs + frees ys"
  by (induction xs rule: frees.induct) simp_all

text \<open>
  What destructors and callers rely on in a function that terminates a thread: it joins the
  thread of a live object once, and does nothing to an object without a thread. A class whose
  function also forgets the handle joins at most once over any number of calls.
\<close>

locale terminator =
  fixes terminate :: "'o \<Rightarrow> 'w machine \<Rightarrow> bool \<times> 'o \<times> 'w machine"
    and handle :: "'o \<Rightarrow> int"
  assumes live: "handle ob \<noteq> 0 \<Longrightarrow> terminate ob m = (t, ob', m') \<Longrightarrow>
      t \<and> (\<exists>as. emits m m' as \<and> joined as = [handle ob] \<and> frees as = 0)"
    and dead: "handle ob = 0 \<Longrightarrow> terminate ob m = (False, ob, m)"
begin

text \<open>A number of calls in a row.\<close>

fun terminate_times :: "nat \<Rightarrow> 'o \<Rightarrow> 'w machine \<Rightarrow> 'o \<times> 'w machine" where
  "terminate_times 0 ob m = (ob, m)"
| "terminate_times (Suc n) ob m =
     (let (t, ob, m) = terminate ob m in terminate_times n ob m)"

lemma dead_times: "handle ob = 0 \<Longrightarrow> terminate_times n ob m = (ob, m)"
  by (induction n) (simp_all add: dead)

end

locale forgetting_terminator = terminator +
  assumes forgets: "terminate ob m = (t, ob', m') \<Longrightarrow> handle ob' = 0"
begin

lemma joins_once:
  assumes "terminate_times (Suc n) ob m = (ob', m')"
  shows "handle ob' = 0 \<and>
    (\<exists>as. emits m m' as \<and> joined as = (if handle ob = 0 then [] else [handle ob]) \<and> frees as = 0)"
proof -
  obtain t ob1 m1 where 1: "terminate ob m = (t, ob1, m1)" by (cases "terminate ob m") auto
  with assms have "terminate_times n ob1 m1 = (ob', m')" by simp
  with dead_times [OF forgets [OF 1]] have "ob' = ob1" "m' = m1" by simp_all
  moreover have "\<exists>as. emits m m1 as \<and> joined as = (if handle ob = 0 then [] else [handle ob]) \<and> frees as = 0"
  proof (cases "handle ob = 0")
    case True
    with dead [OF True, of m] 1 show ?thesis by (auto intro!: exI [of _ "[]"])
  next
    case False
    with live [OF False 1] show ?thesis by simp
  qed
  ultimately show ?thesis using forgets [OF 1] by simp
qed

end

text \<open>The three calls both functions make.\<close>

lemma emits_join:
  "\<exists>as. emits m (ext_do E (Pthread_join h) (ext_do E (Pthread_cancel h) (ext_do E Mutex_destroy m))) as \<and>
        joined as = [h] \<and> frees as = 0"
proof -
  let ?m1 = "ext_do E Mutex_destroy m" let ?m2 = "ext_do E (Pthread_cancel h) ?m1"
  have "emits m (ext_do E (Pthread_join h) ?m2)
      [Ext Mutex_destroy (fst (ext_call E Mutex_destroy m)),
       Ext (Pthread_cancel h) (fst (ext_call E (Pthread_cancel h) ?m1)),
       Ext (Pthread_join h) (fst (ext_call E (Pthread_join h) ?m2))]"
    by (intro emits_Cons [OF emits_ext_do] emits_ext_do) simp_all
  then show ?thesis by (intro exI conjI) (assumption, simp_all)
qed

lemma thread_Terminate_cases:
  "live_handle ob = 0 \<Longrightarrow> thread_Terminate E ob m = (False, ob, m)"
  "live_handle ob \<noteq> 0 \<Longrightarrow> thread_Terminate E ob m =
     (True, ob\<lparr>imp_buf := Some \<lparr>m_thread = 0\<rparr>, m_activ := 0\<rparr>,
      ext_do E (Pthread_join (live_handle ob)) (ext_do E (Pthread_cancel (live_handle ob))
        (ext_do E Mutex_destroy m)))"
  by (auto simp: live_handle_def thread_Terminate_def Let_def split: option.splits if_splits)

lemma rtthread_Terminate_cases:
  "live_handle ob = 0 \<Longrightarrow> rtthread_Terminate E ob m = (False, ob, m)"
  "live_handle ob \<noteq> 0 \<Longrightarrow> rtthread_Terminate E ob m =
     (True, ob\<lparr>m_activ := 0\<rparr>,
      ext_do E (Pthread_join (live_handle ob)) (ext_do E (Pthread_cancel (live_handle ob))
        (ext_do E Mutex_destroy m)))"
  by (auto simp: live_handle_def rtthread_Terminate_def Let_def split: option.splits if_splits)

interpretation plain_thread: forgetting_terminator "thread_Terminate E" live_handle for E
proof unfold_locales
  fix ob t ob' and m m' :: "'a machine"
  assume "live_handle ob \<noteq> 0" "thread_Terminate E ob m = (t, ob', m')"
  then show "t \<and> (\<exists>as. emits m m' as \<and> joined as = [live_handle ob] \<and> frees as = 0)"
    using emits_join by (auto simp: thread_Terminate_cases(2))
next
  fix ob t ob' and m m' :: "'a machine"
  assume t: "thread_Terminate E ob m = (t, ob', m')"
  show "live_handle ob' = 0"
  proof (cases "live_handle ob = 0")
    case True
    with t show ?thesis by (simp add: thread_Terminate_cases(1))
  next
    case False
    with t have "imp_buf ob' = Some \<lparr>m_thread = 0\<rparr>" by (auto simp: thread_Terminate_cases(2))
    then show ?thesis by (simp add: live_handle_def)
  qed
qed (rule thread_Terminate_cases(1))

interpretation rt_thread: terminator "rtthread_Terminate E" live_handle for E
proof unfold_locales
  fix ob t ob' and m m' :: "'a machine"
  assume "live_handle ob \<noteq> 0" "rtthread_Terminate E ob m = (t, ob', m')"
  then show "t \<and> (\<exists>as. emits m m' as \<and> joined as = [live_handle ob] \<and> frees as = 0)"
    using emits_join by (auto simp: rtthread_Terminate_cases(2))
qed (rule rtthread_Terminate_cases(1))

subsection \<open>Whole lives of objects\<close>

datatype thread_op = Op_Resume | Op_Terminate

fun run_thread :: "'w platform \<Rightarrow> thread_op list \<Rightarrow> threadbase \<Rightarrow> 'w machine \<Rightarrow>
    (threadbase \<times> 'w machine) option" where
  "run_thread E [] ob m = Some (ob, m)"
| "run_thread E (Op_Resume # ops) ob m = do {
     m \<leftarrow> thread_Resume E ob m;
     run_thread E ops ob m
   }"
| "run_thread E (Op_Terminate # ops) ob m =
     (let (term, ob, m) = thread_Terminate E ob m in run_thread E ops ob m)"

definition to_join :: "threadbase \<Rightarrow> int list" where
  "to_join ob = (if live_handle ob = 0 then [] else [live_handle ob])"

lemma thread_Terminate_joins:
  assumes "thread_Terminate E ob m = (t, ob', m')"
  shows "to_join ob' = [] \<and> (\<exists>as. emits m m' as \<and> joined as = to_join ob \<and> frees as = 0)"
proof -
  have "plain_thread.terminate_times E (Suc 0) ob m = (ob', m')" using assms by simp
  from plain_thread.joins_once [OF this] show ?thesis by (simp add: to_join_def)
qed

lemma thread_Resume_joins:
  "thread_Resume E ob m = Some m' \<Longrightarrow> \<exists>as. emits m m' as \<and> joined as = [] \<and> frees as = 0"
  by (auto simp: thread_Resume_def split: option.splits intro!: exI emits_ext_do)

lemma run_thread_joins:
  "run_thread E ops ob m = Some (ob', m') \<Longrightarrow>
   \<exists>as. emits m m' as \<and> joined as @ to_join ob' = to_join ob \<and> frees as = 0"
proof (induction E ops ob m rule: run_thread.induct)
  case (1 E ob m)
  then show ?case by (auto intro!: exI [of _ "[]"])
next
  case (2 E ops ob m)
  then obtain m1 where r: "thread_Resume E ob m = Some m1" "run_thread E ops ob m1 = Some (ob', m')"
    by (auto simp: bind_Some_iff)
  from thread_Resume_joins [OF r(1)] obtain as where as: "emits m m1 as" "joined as = []" "frees as = 0" by blast
  from 2(1) [OF r] obtain bs where "emits m1 m' bs" "joined bs @ to_join ob' = to_join ob" "frees bs = 0" by blast
  with emits_trans [OF as(1)] as show ?case by (intro exI [of _ "as @ bs"]) simp
next
  case (3 E ops ob m)
  obtain t ob1 m1 where t: "thread_Terminate E ob m = (t, ob1, m1)" by (cases "thread_Terminate E ob m") auto
  with 3(2) have r: "run_thread E ops ob1 m1 = Some (ob', m')" by simp
  from thread_Terminate_joins [OF t] obtain as where
    as: "emits m m1 as" "joined as = to_join ob" "to_join ob1 = []" "frees as = 0" by blast
  from 3(1) [OF t [symmetric] refl refl r] as(3) obtain bs where
    "emits m1 m' bs" "joined bs @ to_join ob' = []" "frees bs = 0" by auto
  with emits_trans [OF as(1)] as show ?case by (intro exI [of _ "as @ bs"]) simp
qed

lemma emits_free: "\<exists>as. emits m (ext_do E Free m) as \<and> joined as = [] \<and> frees as = 1"
  by (intro exI conjI, rule emits_ext_do) simp_all

text \<open>The calls of the destructor: at most a join and the one \<open>free\<close>, which comes last.\<close>

lemma thread_dtor_joins:
  assumes "thread_dtor E ob m = (ob', m')" and "imp_buf_size ob \<noteq> 0"
  shows "imp_buf ob' = None \<and> (\<exists>as. emits m m' as \<and> joined as = to_join ob \<and>
    frees as = (if imp_buf ob = None then 0 else 1) \<and>
    (imp_buf ob = None \<or> (\<exists>r bs. as = bs @ [Ext Free r])))"
proof (cases "imp_buf ob")
  case None
  with assms(1) have "m' = m" "imp_buf ob' = None" by (auto simp: thread_dtor_def)
  with None show ?thesis by (auto simp: to_join_def live_handle_def intro!: exI [of _ "[]"])
next
  case (Some pt)
  obtain t ob1 m1 where t: "thread_Terminate E ob m = (t, ob1, m1)" by (cases "thread_Terminate E ob m") auto
  with assms Some have r: "m' = ext_do E Free m1" "imp_buf ob' = None"
    by (auto simp: thread_dtor_def Let_def)
  from thread_Terminate_joins [OF t] obtain as where
    as: "emits m m1 as" "joined as = to_join ob" "frees as = 0" by blast
  have "emits m1 m' [Ext Free (fst (ext_call E Free m1))]" unfolding r by (rule emits_ext_do) simp_all
  with emits_trans [OF as(1)] as(2,3) r(2) Some show ?thesis
    by (intro conjI exI [of _ "as @ [Ext Free (fst (ext_call E Free m1))]"]) auto
qed

text \<open>No call before the destructor takes the block away.\<close>

lemma run_thread_block:
  "run_thread E ops ob m = Some (ob', m') \<Longrightarrow> imp_buf ob' = None \<longleftrightarrow> imp_buf ob = None"
proof (induction E ops ob m rule: run_thread.induct)
  case (3 E ops ob m)
  obtain t ob1 m1 where t: "thread_Terminate E ob m = (t, ob1, m1)" by (cases "thread_Terminate E ob m") auto
  with 3(2) have "run_thread E ops ob1 m1 = Some (ob', m')" by simp
  with 3(1) [OF t [symmetric] refl refl] have "imp_buf ob' = None \<longleftrightarrow> imp_buf ob1 = None" by blast
  moreover from t have "imp_buf ob1 = None \<longleftrightarrow> imp_buf ob = None"
    by (cases "live_handle ob = 0") (auto simp: thread_Terminate_cases live_handle_def)
  ultimately show ?case by simp
qed (auto simp: bind_Some_iff)

lemma thread_Terminate_size: "thread_Terminate E ob m = (t, ob', m') \<Longrightarrow> imp_buf_size ob' = imp_buf_size ob"
  by (cases "live_handle ob = 0") (auto simp: thread_Terminate_cases)

lemma run_thread_size:
  "run_thread E ops ob m = Some (ob', m') \<Longrightarrow> imp_buf_size ob' = imp_buf_size ob"
proof (induction E ops ob m rule: run_thread.induct)
  case (3 E ops ob m)
  then show ?case
    by (cases "thread_Terminate E ob m") (auto dest: thread_Terminate_size)
qed (auto simp: bind_Some_iff)

lemma thread_ctor_size: "imp_buf_size (fst (thread_ctor E p r c cr st ob m)) = HALTHREADID_size"
  by (simp add: thread_ctor_def threadbase_ctor_def Let_def split: prod.split)

lemma rtthread_twice:
  assumes "live_handle ob \<noteq> 0" and "rtthread_Terminate E ob m = (t, ob1, m1)"
    and "rtthread_dtor E ob1 m1 = (ob2, m2)"
  shows "\<exists>as. emits m m2 as \<and> joined as = [live_handle ob, live_handle ob]"
proof -
  from rt_thread.live [OF assms(1,2)] obtain as where as: "emits m m1 as" "joined as = [live_handle ob]"
    by blast
  have ob1: "live_handle ob1 = live_handle ob" "imp_buf ob1 \<noteq> None" "imp_buf_size ob1 \<noteq> 0"
    using assms(1,2) by (auto simp: rtthread_Terminate_cases(2) live_handle_def split: option.splits if_splits)
  obtain t' ob3 m3 where t: "rtthread_Terminate E ob1 m1 = (t', ob3, m3)"
    by (cases "rtthread_Terminate E ob1 m1") auto
  with ob1 assms(3) have m2: "m2 = ext_do E Free m3" by (auto simp: rtthread_dtor_def Let_def)
  from rt_thread.live [OF _ t] ob1(1) assms(1) obtain bs where
    bs: "emits m1 m3 bs" "joined bs = [live_handle ob]" by auto
  obtain cs where cs: "emits m3 m2 cs" "joined cs = []" unfolding m2 using emits_free by blast
  from emits_trans [OF as(1) emits_trans [OF bs(1) cs(1)]] as(2) bs(2) cs(2)
  show ?thesis by (intro exI [of _ "as @ bs @ cs"]) simp
qed

lemma rtthread_ctor_handle:
  assumes "\<And>m. fst (ext_call E (Malloc HALTHREADID_size) m) \<noteq> 0"
    and "\<And>m. fst (ext_call E Pthread_create m) = h"
  shows "\<exists>ob' g' m'. rtthread_ctor E pr r c cr st ob g m = Some (ob', g', m') \<and> live_handle ob' = h \<and>
    m_priority ob' = pr"
proof -
  have c: "ext_call E Pthread_create x = (a, b) \<Longrightarrow> a = h" for x a b
    using assms(2) [of x] by simp
  obtain p m1 where "ext_call E (Malloc HALTHREADID_size) m = (p, m1)" "p \<noteq> 0"
    using assms(1) by (metis prod.collapse)
  then show ?thesis
    by (auto simp: rtthread_ctor_def threadbase_ctor_def Let_def fix_threadname_def Name_def
        live_handle_def split: prod.split dest!: c)
qed

subsection \<open>Properties\<close>

text \<open>C27: In the life of a \<open>thread\<close> object, from its constructor over any calls of \<open>Resume\<close> and \<open>Terminate\<close> to
  its destructor, the thread it created is joined exactly once, and its memory block, when the constructor got
  one, is freed exactly once: by the last call of the destructor, so nothing uses it afterwards. Without a block
  nothing is joined or freed.\<close>

theorem thread_joined_once:
  assumes "thread_ctor E p r c cr st raw m = (ob, m1)" and "run_thread E ops ob m1 = Some (ob2, m2)"
    and "thread_dtor E ob2 m2 = (ob3, m3)"
  shows "imp_buf ob3 = None \<and> (\<exists>as. emits m1 m3 as \<and> joined as = to_join ob \<and>
    frees as = (if imp_buf ob = None then 0 else 1) \<and>
    (imp_buf ob = None \<or> (\<exists>r bs. as = bs @ [Ext Free r])))"
proof -
  from run_thread_joins [OF assms(2)] obtain as where
    as: "emits m1 m2 as" "joined as @ to_join ob2 = to_join ob" "frees as = 0" by blast
  have "imp_buf_size ob2 \<noteq> 0"
    using run_thread_size [OF assms(2)] thread_ctor_size [of E p r c cr st raw m] assms(1) by simp
  from thread_dtor_joins [OF assms(3) this] obtain bs where
    bs: "imp_buf ob3 = None" "emits m2 m3 bs" "joined bs = to_join ob2"
    "frees bs = (if imp_buf ob = None then 0 else 1)" "imp_buf ob = None \<or> (\<exists>r cs. bs = cs @ [Ext Free r])"
    unfolding run_thread_block [OF assms(2)] by blast
  from bs(5) have "imp_buf ob = None \<or> (\<exists>r cs. as @ bs = cs @ [Ext Free r])" by (metis append_assoc)
  with emits_trans [OF as(1) bs(2)] as(2,3) bs(1,3,4) show ?thesis by (intro conjI exI [of _ "as @ bs"]) auto
qed

theorem thread_joined_once_witness:
  "\<exists>ob m1 ob2 m2 ob3 m3.
     thread_ctor up_chip 10 0 (- 1) False 0 static_threadbase (start ([], 0)) = (ob, m1) \<and>
     run_thread up_chip [Op_Resume, Op_Terminate, Op_Terminate] ob m1 = Some (ob2, m2) \<and>
     thread_dtor up_chip ob2 m2 = (ob3, m3) \<and> to_join ob = [3] \<and> imp_buf ob \<noteq> None \<and> imp_buf ob3 = None \<and>
     (\<exists>bs r. emits m1 m3 (bs @ [Ext Free r]) \<and> joined bs = [3] \<and> frees bs = 0)"
proof -
  obtain ob m1 where c: "thread_ctor up_chip 10 0 (- 1) False 0 static_threadbase (start ([], 0)) = (ob, m1)" by fastforce
  then have b: "imp_buf ob = Some \<lparr>m_thread = 3\<rparr>" "imp_buf_size ob = HALTHREADID_size"
    by (auto simp: thread_ctor_def threadbase_ctor_def Let_def split: prod.splits dest!: ext_call_regsD)
  then have j: "to_join ob = [3]" by (simp add: to_join_def live_handle_def)
  obtain ob2 m2 where r: "run_thread up_chip [Op_Resume, Op_Terminate, Op_Terminate] ob m1 = Some (ob2, m2)"
    using b by (auto simp: thread_Resume_def thread_Terminate_def Let_def)
  obtain ob3 m3 where d: "thread_dtor up_chip ob2 m2 = (ob3, m3)" by fastforce
  from thread_joined_once [OF c r d] b(1) j obtain as v bs where
    as: "imp_buf ob3 = None" "emits m1 m3 as" "joined as = [3]" "frees as = 1" "as = bs @ [Ext Free v]" by auto
  then have "emits m1 m3 (bs @ [Ext Free v])" "joined bs = [3]" "frees bs = 0" by auto
  with as(1) b(1) c r d j show ?thesis by blast
qed

text \<open>C38: \<open>rtthread::Terminate\<close> keeps the handle, so a \<open>rtthread\<close> object that is terminated before it
  is destroyed joins (and cancels) its thread twice; the second time the handle is no longer valid.\<close>

theorem rtthread_joined_twice:
  assumes "live_handle ob \<noteq> 0" and "rtthread_Terminate E ob m = (t, ob1, m1)"
    and "rtthread_dtor E ob1 m1 = (ob2, m2)"
  shows "\<exists>as. emits m m2 as \<and> joined as = [live_handle ob, live_handle ob]"
  by (rule rtthread_twice [OF assms])

theorem rtthread_joined_twice_witness:
  "\<exists>ob g m t ob1 m1 ob2 m2.
     rttestthread_ctor up_chip static_threadbase \<lparr>sc_cpu = 0, nproc = - 1, s_threadunique = 0\<rparr> (start ([], 0)) =
       Some (ob, g, m) \<and> live_handle ob = 3 \<and> rtthread_Terminate up_chip ob m = (t, ob1, m1) \<and>
     rtthread_dtor up_chip ob1 m1 = (ob2, m2) \<and> (\<exists>as. emits m m2 as \<and> joined as = [3, 3])"
proof -
  have "\<exists>ob g m. rttestthread_ctor up_chip static_threadbase
      \<lparr>sc_cpu = 0, nproc = - 1, s_threadunique = 0\<rparr> (start ([], 0)) = Some (ob, g, m) \<and> live_handle ob = 3 \<and> m_priority ob = 88"
    unfolding rttestthread_ctor_def by (rule rtthread_ctor_handle) simp_all
  then obtain ob g m where c: "rttestthread_ctor up_chip static_threadbase
      \<lparr>sc_cpu = 0, nproc = - 1, s_threadunique = 0\<rparr> (start ([], 0)) = Some (ob, g, m)"
    and h: "live_handle ob = 3"
    by blast
  obtain t ob1 m1 where t: "rtthread_Terminate up_chip ob m = (t, ob1, m1)"
    by (cases "rtthread_Terminate up_chip ob m") auto
  obtain ob2 m2 where d: "rtthread_dtor up_chip ob1 m1 = (ob2, m2)" by fastforce
  from h have "live_handle ob \<noteq> 0" by simp
  from rtthread_joined_twice [OF this t d] h c t d show ?thesis by auto
qed

end
