(* ===== verification/Console.thy ===== *)
theory Console
  imports Process_Data
begin

section \<open>The console: the status line, sleeping and the keyboard\<close>

text \<open>
  \<open>rpi_base::bashoutput\<close>, \<open>milisleep\<close>, \<open>_getch\<close>, \<open>_kbhit\<close> and \<open>utl_kbkey\<close> of
  \<open>rpi_base/src/rpi_base.cpp\<close>.
\<close>

subsection \<open>The status line\<close>

text \<open>
  \<open>fmt\<close> gives the text of a \<open>double\<close> under the format \<open>%f\<close>. The status line has ten fields, each
  with a label; the first one is copied, the others are appended.
\<close>

definition append_field :: "('f \<Rightarrow> string) \<Rightarrow> string \<times> 'f \<Rightarrow> ('f, 'x) rpi_base_scheme \<Rightarrow>
    ('f, 'x) rpi_base_scheme option" where
  "append_field fmt lv ob = do {
     n \<leftarrow> snprintf (64 - 1) (fmt (snd lv)) (numeric ob);
     let ob = ob\<lparr>numeric := n\<rparr>;
     out \<leftarrow> strncat (256 - 1) (fst lv) (outbuffer ob);
     let ob = ob\<lparr>outbuffer := out\<rparr>;
     out \<leftarrow> strncat (256 - 1) (c_string (numeric ob)) (outbuffer ob);
     Some (ob\<lparr>outbuffer := out\<rparr>)
   }"

definition more_fields :: "('f, 'x) rpi_base_scheme \<Rightarrow> (string \<times> 'f) list" where
  "more_fields ob =
     [('' per_range:'', vrange (m_period ob)), ('' per_stddev:'', vstddev (m_period ob)),
      ('' per_max:'', vmax (m_period ob)), ('' per_min:'', vmin (m_period ob)),
      ('' runtime(us):'', vmean (m_runtime ob)), ('' runt_range:'', vrange (m_runtime ob)),
      ('' runt_stddev:'', vstddev (m_runtime ob)), ('' runt_max:'', vmax (m_runtime ob)),
      ('' runt_min:'', vmin (m_runtime ob))]"

text \<open>The object and the text that is printed after the carriage return and the space.\<close>

definition bashoutput :: "('f \<Rightarrow> string) \<Rightarrow> ('f, 'x) rpi_base_scheme \<Rightarrow>
    (('f, 'x) rpi_base_scheme \<times> string) option" where
  "bashoutput fmt ob = do {
     out \<leftarrow> store (256 - 1) [NUL] (outbuffer ob);
     let ob = ob\<lparr>outbuffer := out\<rparr>;
     n \<leftarrow> store (64 - 1) [NUL] (numeric ob);
     let ob = ob\<lparr>numeric := n\<rparr>;
     n \<leftarrow> snprintf (64 - 1) (fmt (vmean (m_period ob))) (numeric ob);
     let ob = ob\<lparr>numeric := n\<rparr>;
     out \<leftarrow> strncpy (256 - 1) ''period(ms):'' (outbuffer ob);
     let ob = ob\<lparr>outbuffer := out\<rparr>;
     out \<leftarrow> strncat (256 - 1) (c_string (numeric ob)) (outbuffer ob);
     let ob = ob\<lparr>outbuffer := out\<rparr>;
     ob \<leftarrow> fold_option (append_field fmt) (more_fields ob) ob;
     Some (ob, c_string (outbuffer ob))
   }"

text \<open>The text of a field: a number is cut to 62 characters.\<close>

definition field_text :: "('f \<Rightarrow> string) \<Rightarrow> string \<times> 'f \<Rightarrow> string" where
  "field_text fmt lv = fst lv @ take 62 (fmt (snd lv))"

definition status_text :: "('f \<Rightarrow> string) \<Rightarrow> ('f, 'x) rpi_base_scheme \<Rightarrow> string" where
  "status_text fmt ob =
     concat (map (field_text fmt) ((''period(ms):'', vmean (m_period ob)) # more_fields ob))"

text \<open>Appending succeeds exactly when the text and its end fit.\<close>

lemma strncat_iff:
  assumes "length src \<le> n"
  shows "(\<exists>buf'. strncat n src buf = Some buf') \<longleftrightarrow> length (c_string buf) + length src < length buf"
  using assms by (simp add: strncat_def store_def)

lemma append_field_fits:
  assumes "length (outbuffer ob) = 256" and "length (numeric ob) = 64"
    and "NUL \<notin> set (fst lv)" and "\<And>x. NUL \<notin> set (fmt x)" and "length (fst lv) \<le> 255"
    and "length (c_string (outbuffer ob)) + length (field_text fmt lv) < 256"
  shows "\<exists>ob'. append_field fmt lv ob = Some ob' \<and>
     c_string (outbuffer ob') = c_string (outbuffer ob) @ field_text fmt lv \<and>
     length (outbuffer ob') = 256 \<and> length (numeric ob') = 64"
proof -
  obtain n where n: "snprintf 63 (fmt (snd lv)) (numeric ob) = Some n" "c_string n = take 62 (fmt (snd lv))"
    "length n = 64"
    using snprintf_Some [of 63 "numeric ob" "fmt (snd lv)"] assms(2,4) by auto
  obtain o1 where o1: "strncat 255 (fst lv) (outbuffer ob) = Some o1"
    "c_string o1 = c_string (outbuffer ob) @ fst lv" "length o1 = 256"
    using strncat_Some [of "outbuffer ob" "fst lv" 255] assms(1,3,5,6) by (auto simp: field_text_def)
  have "NUL \<notin> set (c_string n)" by (rule c_string_no_NUL)
  then obtain o2 where o2: "strncat 255 (c_string n) o1 = Some o2"
    "c_string o2 = c_string o1 @ c_string n" "length o2 = 256"
    using strncat_Some [of o1 "c_string n" 255] o1(2,3) n(2) assms(6) by (auto simp: field_text_def)
  show ?thesis
    using n o1 o2 by (simp add: append_field_def field_text_def)
qed

lemma append_field_overflows:
  assumes "length (outbuffer ob) = 256" and "length (numeric ob) = 64"
    and "NUL \<notin> set (fst lv)" and "\<And>x. NUL \<notin> set (fmt x)" and "length (fst lv) \<le> 255"
    and "256 \<le> length (c_string (outbuffer ob)) + length (field_text fmt lv)"
  shows "append_field fmt lv ob = None"
proof -
  obtain n where n: "snprintf 63 (fmt (snd lv)) (numeric ob) = Some n" "c_string n = take 62 (fmt (snd lv))"
    using snprintf_Some [of 63 "numeric ob" "fmt (snd lv)"] assms(2,4) by auto
  show ?thesis
  proof (cases "length (c_string (outbuffer ob)) + length (fst lv) < 256")
    case False
    then have "strncat 255 (fst lv) (outbuffer ob) = None"
      using strncat_iff [of "fst lv" 255 "outbuffer ob"] assms(1,5)
      by (cases "strncat 255 (fst lv) (outbuffer ob)") auto
    with n show ?thesis by (simp add: append_field_def)
  next
    case True
    then obtain o1 where o1: "strncat 255 (fst lv) (outbuffer ob) = Some o1"
      "c_string o1 = c_string (outbuffer ob) @ fst lv" "length o1 = 256"
      using strncat_Some [of "outbuffer ob" "fst lv" 255] assms(1,3,5) by auto
    have "\<not> length (c_string o1) + length (c_string n) < 256"
      using assms(6) o1(2) n(2) by (simp add: field_text_def)
    moreover have "length (c_string n) \<le> 255" using n(2) by simp
    ultimately have "strncat 255 (c_string n) o1 = None"
      using strncat_iff [of "c_string n" 255 o1] o1(3) by (cases "strncat 255 (c_string n) o1") auto
    with n o1 show ?thesis by (simp add: append_field_def)
  qed
qed

lemma append_fields:
  assumes "length (outbuffer ob) = 256" and "length (numeric ob) = 64"
    and "\<forall>lv \<in> set lvs. NUL \<notin> set (fst lv) \<and> length (fst lv) \<le> 255" and "\<And>x. NUL \<notin> set (fmt x)"
    and "length (c_string (outbuffer ob)) < 256"
  shows "if length (c_string (outbuffer ob) @ concat (map (field_text fmt) lvs)) < 256
    then \<exists>ob'. fold_option (append_field fmt) lvs ob = Some ob' \<and>
       c_string (outbuffer ob') = c_string (outbuffer ob) @ concat (map (field_text fmt) lvs)
    else fold_option (append_field fmt) lvs ob = None"
  using assms(1,2,3,5)
proof (induction lvs arbitrary: ob)
  case Nil
  then show ?case by simp
next
  case (Cons lv lvs)
  show ?case
  proof (cases "length (c_string (outbuffer ob)) + length (field_text fmt lv) < 256")
    case False
    then have "append_field fmt lv ob = None"
      using Cons.prems assms(4) by (intro append_field_overflows) auto
    with False show ?thesis by simp
  next
    case True
    then obtain ob1 where 1: "append_field fmt lv ob = Some ob1"
      "c_string (outbuffer ob1) = c_string (outbuffer ob) @ field_text fmt lv"
      "length (outbuffer ob1) = 256" "length (numeric ob1) = 64"
      using append_field_fits [of ob lv fmt] Cons.prems assms(4) by auto
    from Cons.IH [of ob1] Cons.prems(3) 1 True show ?thesis by (simp split: if_splits)
  qed
qed

lemma more_fields_frame:
  "more_fields (ob\<lparr>outbuffer := o1\<rparr>) = more_fields ob" "more_fields (ob\<lparr>numeric := n\<rparr>) = more_fields ob"
  "m_period (ob\<lparr>outbuffer := o1, numeric := n\<rparr>) = m_period ob"
  by (simp_all add: more_fields_def)

lemma more_fields_labels:
  "\<forall>lv \<in> set (more_fields ob). NUL \<notin> set (fst lv) \<and> length (fst lv) \<le> 255"
  by (simp add: more_fields_def)

lemma store_last:
  "length buf = Suc n \<Longrightarrow> \<exists>buf'. store n [NUL] buf = Some buf' \<and> length buf' = Suc n \<and> buf' ! n = NUL"
  by (simp add: store_def nth_append)

lemma strncpy_label:
  assumes "length buf = 256" and "NUL \<notin> set lab" and "length lab < 255"
  shows "\<exists>b. strncpy 255 lab buf = Some b \<and> c_string b = lab \<and> length b = 256"
proof -
  obtain k where k: "255 - length lab = Suc k" using assms(3) by (cases "255 - length lab") auto
  have l: "length (lab @ replicate (255 - length lab) NUL) = 255" using assms(3) by simp
  then have "strncpy 255 lab buf = Some (lab @ replicate (255 - length lab) NUL @ drop 255 buf)"
    using assms(1) by (simp add: strncpy_def store_def)
  moreover have "c_string (lab @ replicate (255 - length lab) NUL @ drop 255 buf) = lab"
    using c_string_text [OF assms(2)] by (simp add: k)
  ultimately show ?thesis using assms(1,3) by simp
qed

lemma bashoutput_outcome:
  assumes "length (outbuffer ob) = 256" and "length (numeric ob) = 64" and "\<And>x. NUL \<notin> set (fmt x)"
  shows "if length (status_text fmt ob) < 256
    then \<exists>ob'. bashoutput fmt ob = Some (ob', status_text fmt ob)
    else bashoutput fmt ob = None"
proof -
  obtain o0 where o0: "store 255 [NUL] (outbuffer ob) = Some o0" "length o0 = 256"
    using store_last [of "outbuffer ob" 255] assms(1) by auto
  obtain n0 where n0: "store 63 [NUL] (numeric ob) = Some n0" "length n0 = 64"
    using store_last [of "numeric ob" 63] assms(2) by auto
  let ?v = "vmean (m_period ob)"
  obtain n where n: "snprintf 63 (fmt ?v) n0 = Some n" "c_string n = take 62 (fmt ?v)" "length n = 64"
    using snprintf_Some [of 63 n0 "fmt ?v"] n0(2) assms(3) by auto
  obtain o1 where o1: "strncpy 255 ''period(ms):'' o0 = Some o1" "c_string o1 = ''period(ms):''"
    "length o1 = 256"
    using strncpy_label [of o0 "''period(ms):''"] o0(2) by auto
  have "length (c_string n) \<le> 62" using n(2) by simp
  then have "length (c_string o1) + length (c_string n) < length o1" "length (c_string n) \<le> 255"
    using o1 by simp_all
  from strncat_Some [OF this c_string_no_NUL] o1(3) obtain o2 where
    o2: "strncat 255 (c_string n) o1 = Some o2" "c_string o2 = c_string o1 @ c_string n" "length o2 = 256"
    by auto
  define ob2 where "ob2 = ob\<lparr>numeric := n, outbuffer := o2\<rparr>"
  have b: "bashoutput fmt ob =
      fold_option (append_field fmt) (more_fields ob) ob2 \<bind> (\<lambda>ob. Some (ob, c_string (outbuffer ob)))"
    using o0(1) n0(1) n(1) o1(1) o2(1) unfolding bashoutput_def ob2_def
    by (simp add: more_fields_frame)
  have c: "c_string (outbuffer ob2) = field_text fmt (''period(ms):'', ?v)"
    using o1(2) o2(2) n(2) by (simp add: ob2_def field_text_def)
  have "length (c_string (outbuffer ob2)) < 256"
    unfolding c by (simp add: field_text_def)
  then have "if length (c_string (outbuffer ob2) @ concat (map (field_text fmt) (more_fields ob))) < 256
    then \<exists>ob'. fold_option (append_field fmt) (more_fields ob) ob2 = Some ob' \<and>
       c_string (outbuffer ob') = c_string (outbuffer ob2) @ concat (map (field_text fmt) (more_fields ob))
    else fold_option (append_field fmt) (more_fields ob) ob2 = None"
    using o2(3) n(3) more_fields_labels assms(3) by (intro append_fields) (simp_all add: ob2_def)
  then show ?thesis
    unfolding b c status_text_def by (auto split: if_splits)
qed

text \<open>Only the two arrays change, and they keep their lengths.\<close>

definition same_but_text :: "('f, 'x) rpi_base_scheme \<Rightarrow> ('f, 'x) rpi_base_scheme \<Rightarrow> bool" where
  "same_but_text ob ob' \<longleftrightarrow> ob' = ob\<lparr>outbuffer := outbuffer ob', numeric := numeric ob'\<rparr> \<and>
     length (outbuffer ob') = length (outbuffer ob) \<and> length (numeric ob') = length (numeric ob)"

lemma same_but_text_refl: "same_but_text ob ob"
  by (simp add: same_but_text_def)

lemma same_but_text_update:
  "length out = length (outbuffer ob) \<Longrightarrow> length n = length (numeric ob) \<Longrightarrow>
   same_but_text ob (ob\<lparr>numeric := n, outbuffer := out\<rparr>)"
  by (simp add: same_but_text_def)

lemma same_but_text_trans:
  assumes "same_but_text a b" and "same_but_text b c"
  shows "same_but_text a c"
proof -
  obtain o1 n1 where b: "b = a\<lparr>outbuffer := o1, numeric := n1\<rparr>" "length o1 = length (outbuffer a)"
    "length n1 = length (numeric a)"
    using assms(1) unfolding same_but_text_def by blast
  obtain o2 n2 where "c = b\<lparr>outbuffer := o2, numeric := n2\<rparr>" "length o2 = length (outbuffer b)"
    "length n2 = length (numeric b)"
    using assms(2) unfolding same_but_text_def by blast
  then have "c = a\<lparr>outbuffer := o2, numeric := n2\<rparr>" "length o2 = length (outbuffer a)"
    "length n2 = length (numeric a)"
    using b by simp_all
  then show ?thesis by (simp add: same_but_text_def)
qed

lemma length_strings:
  "strncpy k src buf = Some buf' \<Longrightarrow> length buf' = length buf"
  "strncat k src buf = Some buf' \<Longrightarrow> length buf' = length buf"
  "snprintf k src buf = Some buf' \<Longrightarrow> length buf' = length buf"
  by (simp_all add: strncpy_def strncat_def snprintf_def length_store)

lemma append_field_frame:
  assumes "append_field fmt lv ob = Some ob'"
  shows "same_but_text ob ob'"
proof -
  from assms obtain n o1 o2 where "snprintf 63 (fmt (snd lv)) (numeric ob) = Some n"
    "strncat 255 (fst lv) (outbuffer ob) = Some o1" "strncat 255 (c_string n) o1 = Some o2"
    "ob' = ob\<lparr>numeric := n, outbuffer := o2\<rparr>"
    by (simp add: append_field_def bind_Some_iff Let_def) blast
  then show ?thesis by (simp add: same_but_text_update length_strings)
qed

lemma append_fields_frame: "fold_option (append_field fmt) lvs ob = Some ob' \<Longrightarrow> same_but_text ob ob'"
proof (induction lvs arbitrary: ob)
  case Nil
  then show ?case by (simp add: same_but_text_refl)
next
  case (Cons lv lvs)
  then show ?case
    using append_field_frame same_but_text_trans by (fastforce simp: bind_Some_iff)
qed

lemma bashoutput_frame:
  assumes "bashoutput fmt ob = Some (ob', line)"
  shows "same_but_text ob ob'"
proof -
  from assms obtain o0 n0 n o1 o2 where w: "store 255 [NUL] (outbuffer ob) = Some o0"
    "store 63 [NUL] (numeric ob) = Some n0"
    "snprintf 63 (fmt (vmean (m_period ob))) n0 = Some n" "strncpy 255 ''period(ms):'' o0 = Some o1"
    "strncat 255 (c_string n) o1 = Some o2"
    and f: "fold_option (append_field fmt) (more_fields ob) (ob\<lparr>numeric := n, outbuffer := o2\<rparr>) = Some ob'"
    by (simp add: bashoutput_def Let_def bind_Some_iff more_fields_frame) blast
  have "same_but_text ob (ob\<lparr>numeric := n, outbuffer := o2\<rparr>)"
    using w by (simp add: same_but_text_update length_strings length_store)
  from this append_fields_frame [OF f] show ?thesis by (rule same_but_text_trans)
qed

subsection \<open>Sleeping\<close>

text \<open>The request that \<open>milisleep\<close> passes to \<open>nanosleep\<close>, in exact arithmetic; the conversion of a
  \<open>double\<close> to an integer cuts the fraction.\<close>

definition truncate_double :: "real \<Rightarrow> int" where
  "truncate_double x = (if x < 0 then \<lceil>x\<rceil> else \<lfloor>x\<rfloor>)"

definition milisleep_request :: "int \<Rightarrow> int \<times> int" where
  "milisleep_request miliseconds =
     (let tv_sec = truncate_double (real_of_int miliseconds * (1 / 1000));
          tv_nsec = miliseconds * 1000000 - tv_sec * 1000000000
      in (tv_sec, tv_nsec))"

definition milisleep :: "'w platform \<Rightarrow> int \<Rightarrow> 'w machine \<Rightarrow> int \<times> 'w machine" where
  "milisleep E miliseconds m =
     (let (tv_sec, tv_nsec) = milisleep_request miliseconds
      in ext_call E (Nanosleep tv_sec tv_nsec) m)"

lemma milisleep_request_eq:
  assumes "0 \<le> ms"
  shows "milisleep_request ms = (ms div 1000, ms mod 1000 * 1000000)"
proof -
  have "\<lfloor>real_of_int ms * (1 / 1000)\<rfloor> = ms div 1000"
    using floor_divide_of_int_eq [of ms 1000] by simp
  with assms have s: "truncate_double (real_of_int ms * (1 / 1000)) = ms div 1000"
    by (simp add: truncate_double_def)
  have "ms * 1000000 - ms div 1000 * 1000000000 = ms mod 1000 * 1000000"
    using div_mult_mod_eq [of ms 1000] by linarith
  with s show ?thesis by (simp only: milisleep_request_def Let_def)
qed

subsection \<open>The keyboard\<close>

text \<open>The terminal: its local flags, the file status flags of the input and the characters waiting.\<close>

record tty =
  c_lflag :: u32
  f_flags :: u32
  pending :: "int list"

abbreviation (input) ICANON :: u32 where "ICANON \<equiv> 2"
abbreviation (input) ECHO :: u32 where "ECHO \<equiv> 8"
abbreviation (input) O_NONBLOCK :: u32 where "O_NONBLOCK \<equiv> 0x800"
abbreviation (input) EOF :: int where "EOF \<equiv> - 1"

text \<open>\<open>None\<close> stands for a call that waits for a key.\<close>

definition getchar :: "tty \<Rightarrow> (int \<times> tty) option" where
  "getchar t =
     (case pending t of
        c # cs \<Rightarrow> Some (c, t\<lparr>pending := cs\<rparr>)
      | [] \<Rightarrow> if f_flags t AND O_NONBLOCK \<noteq> 0 then Some (EOF, t) else None)"

definition getch :: "bool \<Rightarrow> tty \<Rightarrow> (int \<times> tty) option" where
  "getch echo t = do {
     let oldt = c_lflag t;
     let newt = oldt;
     let newt = newt AND NOT ICANON;
     let newt = (if echo then newt AND ECHO else newt AND NOT ECHO);
     let t = t\<lparr>c_lflag := newt\<rparr>;
     (ch, t) \<leftarrow> getchar t;
     let t = t\<lparr>c_lflag := oldt\<rparr>;
     Some (ch, t)
   }"

definition kbhit :: "tty \<Rightarrow> (int \<times> tty) option" where
  "kbhit t = do {
     let oldt = c_lflag t;
     let newt = oldt;
     let newt = newt AND NOT (ICANON OR ECHO);
     let t = t\<lparr>c_lflag := newt\<rparr>;
     let oldf = f_flags t;
     let t = t\<lparr>f_flags := oldf OR O_NONBLOCK\<rparr>;
     (ch, t) \<leftarrow> getchar t;
     let t = t\<lparr>c_lflag := oldt\<rparr>;
     let t = t\<lparr>f_flags := oldf\<rparr>;
     if ch \<noteq> EOF then Some (1, t\<lparr>pending := ch # pending t\<rparr>)
     else Some (0, t)
   }"

definition utl_kbkey :: "tty \<Rightarrow> (int \<times> tty) option" where
  "utl_kbkey t = do {
     (key, t) \<leftarrow> kbhit t;
     if key = 0 then Some (0, t) else getch False t
   }"

lemma nonblock: "(f OR O_NONBLOCK) AND O_NONBLOCK \<noteq> (0 :: u32)"
proof -
  have "bit ((f OR O_NONBLOCK) AND O_NONBLOCK) 11" by (simp add: bit_simps)
  then show ?thesis by (rule contrapos_pn) simp
qed

lemma kbhit_eq:
  assumes "EOF \<notin> set (pending t)"
  shows "kbhit t = Some (if pending t = [] then 0 else 1, t)"
  using assms nonblock [of "f_flags t"]
  by (cases "pending t") (auto simp: kbhit_def getchar_def Let_def)

lemma getch_eq: "pending t = c # cs \<Longrightarrow> getch echo t = Some (c, t\<lparr>pending := cs\<rparr>)"
  by (simp add: getch_def getchar_def Let_def)

subsection \<open>Properties\<close>

text \<open>C34: \<open>bashoutput\<close> prints the ten statistics with their labels when the line fits into the 256
  bytes of its buffer, and otherwise writes behind the end of the buffer: the bound it gives to
  \<open>strncat\<close> is not the room that is left.\<close>

theorem bashoutput_fits:
  assumes "length (outbuffer ob) = 256" and "length (numeric ob) = 64" and "\<And>x. NUL \<notin> set (fmt x)"
  shows "if length (status_text fmt ob) < 256
    then \<exists>ob'. bashoutput fmt ob = Some (ob', status_text fmt ob)
    else bashoutput fmt ob = None"
  by (rule bashoutput_outcome [OF assms])

theorem bashoutput_fits_witness:
  "(\<exists>ob'. bashoutput (\<lambda>x. ''0.5'') (static_object real_fpu) =
      Some (ob', status_text (\<lambda>x. ''0.5'') (static_object real_fpu))) \<and>
   bashoutput (\<lambda>x. replicate 15 (CHR ''9'')) (static_object real_fpu) = None"
proof -
  have b: "length (outbuffer (static_object real_fpu)) = 256" "length (numeric (static_object real_fpu)) = 64"
    by (simp_all add: static_object_def)
  have z: "\<And>x. NUL \<notin> set ((\<lambda>x :: real. ''0.5'') x)" "\<And>x. NUL \<notin> set ((\<lambda>x :: real. replicate 15 (CHR ''9'')) x)"
    by simp_all
  have l: "length (status_text (\<lambda>x. ''0.5'') (static_object real_fpu)) < 256"
    "\<not> length (status_text (\<lambda>x. replicate 15 (CHR ''9'')) (static_object real_fpu)) < 256"
    by (simp_all add: status_text_def more_fields_def field_text_def)
  show ?thesis
    using bashoutput_fits [where fmt = "\<lambda>x. ''0.5''", OF b z(1)]
      bashoutput_fits [where fmt = "\<lambda>x. replicate 15 (CHR ''9'')", OF b z(2)]
    unfolding if_P [OF l(1)] if_not_P [OF l(2)] by blast
qed

text \<open>\<open>utl_kbkey\<close> never waits: it gives the next key, or 0 when there is none, and leaves the
  terminal as it was but for the key.\<close>

lemma utl_kbkey_polls:
  assumes "EOF \<notin> set (pending t)"
  shows "utl_kbkey t = Some (case pending t of [] \<Rightarrow> (0, t) | c # cs \<Rightarrow> (c, t\<lparr>pending := cs\<rparr>))"
  using kbhit_eq [OF assms] getch_eq [of t] by (cases "pending t") (simp_all add: utl_kbkey_def)

end
