(* ===== verification/Slave_Test.thy ===== *)
theory Slave_Test
  imports Shield Threads Console
begin

section \<open>The main program\<close>

text \<open>
  \<open>main\<close> of \<open>slave_test/src/slave_test.cpp\<close>: the start-up, and the body of its endless loop (the
  code after the loop is never reached). The messages and the unused variables are left out. The
  loop runs in the main thread, with the machine as it is seen from there; a call of
  \<open>receive_input\<close> is given without the other thread here, its interleaved run is in \<open>Seqlock\<close>.
\<close>

subsection \<open>The program\<close>

text \<open>
  The start-up: \<open>Inl\<close> with the value that \<open>main\<close> returns after the initialization has failed, or
  \<open>Inr\<close> with the state in which the loop begins.
\<close>

definition main_start :: "'w platform \<Rightarrow> 'f etherberry_9252 \<Rightarrow> threadbase \<Rightarrow> 'w machine \<Rightarrow>
    (int \<times> 'f etherberry_9252 \<times> 'w machine + 'f etherberry_9252 \<times> 'w machine) option" where
  "main_start E ETHB mytestthread m = do {
     (status, ETHB, m) \<leftarrow> init E ETHB m;
     if status \<noteq> 0
     then (let m = ext_do E Bcm2835_spi_end m;
               m = ext_do E Bcm2835_close m
           in Some (Inl (status, ETHB, m)))
     else do {
       m \<leftarrow> rtthread_Resume E mytestthread m;
       Some (Inr (ETHB, m))
     }
   }"

record 'f main_state =
  ETHB :: "'f etherberry_9252"
  BufferfromEthCAT :: PROCBUFFER
  inputbuffer :: "u64 list"
  loop_counter :: u64

text \<open>One round of the loop.\<close>

definition main_round :: "'w platform \<Rightarrow> ('f \<Rightarrow> string) \<Rightarrow> 'f main_state \<Rightarrow> 'w machine \<Rightarrow>
    ('f main_state \<times> 'w machine) option" where
  "main_round E fmt st m = do {
     let (loopstartns, m) = Getns E m;
     let loopstartms = loopstartns div 1000000;
     b \<leftarrow> receive_input (ETHB st);
     let st = st\<lparr>BufferfromEthCAT := b\<rparr>;
     let st = st\<lparr>inputbuffer := (inputbuffer st)[0 := loopstartms]\<rparr>;
     let st = st\<lparr>inputbuffer := (inputbuffer st)[1 := loop_counter st]\<rparr>;
     let st = st\<lparr>inputbuffer := (inputbuffer st)[2 := 1]\<rparr>;
     let st = st\<lparr>inputbuffer := (inputbuffer st)[3 := 2]\<rparr>;
     let st = st\<lparr>loop_counter := loop_counter st + 1\<rparr>;
     ob \<leftarrow> send_output (inputbuffer st) (ETHB st);
     let st = st\<lparr>ETHB := ob\<rparr>;
     (ob, line) \<leftarrow> bashoutput fmt (ETHB st);
     let st = st\<lparr>ETHB := ob\<rparr>;
     let (r, m) = milisleep E 100 m;
     Some (st, m)
   }"

text \<open>The state before the first round.\<close>

definition main_init :: "'f etherberry_9252 \<Rightarrow> 'f main_state" where
  "main_init ob = \<lparr>ETHB = ob, BufferfromEthCAT = 0, inputbuffer = [0, 0, 0, 0], loop_counter = 0\<rparr>"

subsection \<open>What a round does\<close>

definition main_inv :: "'f main_state \<Rightarrow> bool" where
  "main_inv st \<longleftrightarrow> ring_bounds (ETHB st) \<and> length (inputbuffer st) = 4 \<and>
     length (outbuffer (ETHB st)) = 256 \<and> length (numeric (ETHB st)) = 64"

definition round_words :: "u64 \<Rightarrow> 'f main_state \<Rightarrow> u64 list" where
  "round_words t st = [t div 1000000, loop_counter st, 1, 2]"

lemma fill_four: "length xs = 4 \<Longrightarrow> xs[0 := a, 1 := b, 2 := c, 3 := d] = [a, b, c, d]"
  by (rule nth_equalityI) (auto simp: nth_list_update less_Suc_eq numeral_eq_Suc)

lemma same_but_text_ring:
  assumes "same_but_text ob ob'"
  shows "ring_bounds ob' = ring_bounds ob" and "ring_inv ob' = ring_inv ob"
    and "cur_output ob' = cur_output ob" and "past_output k ob' = past_output k ob"
    and "m_BufferOutEthToSlaveBuffer ob' = m_BufferOutEthToSlaveBuffer ob"
proof -
  obtain out n where "ob' = ob\<lparr>outbuffer := out, numeric := n\<rparr>"
    using assms unfolding same_but_text_def by blast
  then show "ring_bounds ob' = ring_bounds ob" "ring_inv ob' = ring_inv ob"
    "cur_output ob' = cur_output ob" "past_output k ob' = past_output k ob"
    "m_BufferOutEthToSlaveBuffer ob' = m_BufferOutEthToSlaveBuffer ob"
    by (simp_all add: ring_bounds_def ring_inv_def wf_object_def cur_output_def past_output_def)
qed

lemma send_output_frame:
  assumes "send_output xs ob = Some ob'" and "ring_bounds ob" and "length xs = 4"
  shows "outbuffer ob' = outbuffer ob" and "numeric ob' = numeric ob"
    and "m_BufferOutEthToSlaveBuffer ob' = m_BufferOutEthToSlaveBuffer ob"
  using assms(1) send_output_eq [OF assms(2,3)] by auto

lemma main_round_cases:
  assumes "main_round E fmt st m = Some (st', m')" and "main_inv st"
  obtains t m1 ob1 ob2 l r where "Getns E m = (t, m1)"
    and "send_output (round_words t st) (ETHB st) = Some ob1" and "bashoutput fmt ob1 = Some (ob2, l)"
    and "ext_call E (Nanosleep 0 100000000) m1 = (r, m')"
    and "st' = \<lparr>ETHB = ob2, BufferfromEthCAT = m_BufferOutEthToSlaveBuffer (ETHB st),
       inputbuffer = round_words t st, loop_counter = loop_counter st + 1\<rparr>"
proof -
  obtain t m1 where g: "Getns E m = (t, m1)" by fastforce
  obtain r m2 where n: "ext_call E (Nanosleep 0 100000000) m1 = (r, m2)" by fastforce
  have f: "(inputbuffer st)[0 := t div 1000000, 1 := loop_counter st, 2 := 1, 3 := 2] = round_words t st"
    unfolding round_words_def by (rule fill_four) (use assms(2) in \<open>simp add: main_inv_def\<close>)
  have s: "milisleep_request 100 = (0, 100000000)" by (subst milisleep_request_eq) simp_all
  from assms(1) g n f s obtain ob1 ob2 l where
    "send_output (round_words t st) (ETHB st) = Some ob1" "bashoutput fmt ob1 = Some (ob2, l)"
    "m' = m2"
    "st' = st\<lparr>ETHB := ob2, BufferfromEthCAT := m_BufferOutEthToSlaveBuffer (ETHB st),
       inputbuffer := round_words t st, loop_counter := loop_counter st + 1\<rparr>"
    by (auto simp: main_round_def receive_input_eq Let_def bind_Some_iff milisleep_def
        simp del: One_nat_def)
  with g n that show thesis by simp
qed

subsection \<open>The static objects\<close>

text \<open>The memory of \<open>ETHB\<close> before its constructor runs: all zero, with any content in the two
  statistics.\<close>

definition static_memory :: "'f fpu \<Rightarrow> 'f STATBUFFER \<Rightarrow> 'f STATBUFFER \<Rightarrow> 'f etherberry_9252" where
  "static_memory F a b = rpi_base.extend ((static_object F)\<lparr>m_runtime := a, m_period := b\<rparr>) \<lparr>m_devhndl = 0\<rparr>"

lemma isrealtime_returns: "\<exists>err m'. isrealtime E m = Some (err, m')"
proof -
  obtain h m1 where h: "ext_call E (Fopen_rb ''/sys/kernel/realtime'') m = (h, m1)" by fastforce
  obtain d m2 where d: "file_read E 62 m1 = (d, m2)" by fastforce
  obtain r m3 where "ext_call E Mlockall_current_future (ext_do E Fclose m2) = (r, m3)" by fastforce
  with isrealtime_cases [OF h d] show ?thesis by auto
qed

text \<open>The constructor of the shield, on the zeroed memory of the static object, always returns
  and leaves what the rest of the program relies on: no device, no round counted, empty
  statistics, an even sequence counter, and the invariant under which \<open>main\<close> runs its rounds.\<close>

lemma etherberry_ctor_ready:
  "\<exists>ob m'. etherberry_ctor E F (static_memory F a b) m = Some (ob, m') \<and> main_inv (main_init ob) \<and>
     m_devhndl ob = - 1 \<and> m_count ob = 0 \<and> m_runtime ob = reset F \<and> m_period ob = reset F \<and>
     m_atomiccounter ob = 0"
proof -
  obtain err m' where "isrealtime E m = Some (err, m')" using isrealtime_returns by blast
  then show ?thesis
    by (simp add: etherberry_ctor_def rpi_base_ctor_def static_memory_def static_object_def
        rpi_base.defs main_inv_def main_init_def ring_bounds_def wf_object_def)
qed

text \<open>The constructor makes no call that the chip would notice.\<close>

lemma etherberry_ctor_undisturbed:
  assumes "undisturbed E P" and "etherberry_ctor E F ob m = Some (ob', m')" and "P (env m)"
  shows "P (env m')"
proof -
  from assms(2) obtain err where r: "isrealtime E m = Some (err, m')"
    by (auto simp: etherberry_ctor_def rpi_base_ctor_def Let_def bind_Some_iff)
  obtain h m1 where h: "ext_call E (Fopen_rb ''/sys/kernel/realtime'') m = (h, m1)" by fastforce
  obtain d m2 where d: "file_read E 62 m1 = (d, m2)" by fastforce
  have P1: "P (env m1)" using undisturbed_ext_call [OF assms(1) h _ assms(3)] by (simp add: off_bus_def)
  then have P2: "P (env (ext_do E Fclose m2))"
    using undisturbed_file [OF assms(1) d] undisturbed_call [OF assms(1)] by (simp add: off_bus_def)
  have "P (env (snd (ext_call E Mlockall_current_future (ext_do E Fclose m2))))"
    using undisturbed_call [OF assms(1) _ P2, of Mlockall_current_future] by (simp add: off_bus_def ext_do_def)
  with r isrealtime_cases [OF h d] P1 P2 show ?thesis by (auto split: if_splits)
qed

text \<open>The start-up ends when the chip answers; when it has succeeded the chip is at rest.\<close>

lemma main_start_returns:
  assumes "responsive E P" and "starts_up E U P" and "U (env m)" and "imp_buf t \<noteq> None"
  shows "\<exists>out. main_start E ob t m = Some out \<and> (\<forall>ob' m'. out = Inr (ob', m') \<longrightarrow> P (env m'))"
proof -
  have ready: "fst (spi_init E m) = 0 \<Longrightarrow> P (env (snd (spi_init E m)))"
    using assms(2,3) unfolding starts_up_def by (metis prod.collapse)
  obtain err ob1 m1 where i: "init E ob m = Some (err, ob1, m1)"
    and P: "P (env (snd (spi_init E m))) \<longrightarrow> P (env m1)"
    using init_returns_if [OF assms(1) ready] by blast
  show ?thesis
  proof (cases "err = 0")
    case True
    with i have "fst (spi_init E m) = 0" by (auto simp: init_def split: prod.splits if_splits)
    with ready P have "P (env (ext_do E Mutex_unlock m1))"
      by (intro undisturbed_call [OF responsive_undisturbed [OF assms(1)]]) (simp_all add: off_bus_def)
    with i assms(4) True show ?thesis
      by (auto simp: main_start_def rtthread_Resume_def Let_def)
  next
    case False
    with i show ?thesis by (auto simp: main_start_def Let_def)
  qed
qed

lemma main_start_inv:
  assumes "main_start E ob t m = Some (Inr (ob', m'))" and "main_inv (main_init ob)"
  shows "main_inv (main_init ob')"
proof -
  from assms(1) obtain m1 where "init E ob m = Some (0, ob', m1)"
    by (auto simp: main_start_def Let_def bind_Some_iff split: if_splits)
  from init_emits [OF this] obtain h where
    "ob' = (case h of None \<Rightarrow> ob | Some x \<Rightarrow> ob\<lparr>m_devhndl := x\<rparr>)" by blast
  with assms(2) show ?thesis
    by (cases h) (simp_all add: main_inv_def main_init_def ring_bounds_def wf_object_def)
qed

subsection \<open>Properties\<close>

text \<open>C26: The start-up of \<open>main\<close> either fails with one of the three codes of \<open>init\<close>, after it has
  ended the SPI and closed the library in this order, and never lets the thread run; or it has an
  open interrupt device and has, as its last action, opened the gate of the thread.\<close>

theorem main_start_outcome:
  assumes "main_start E ob t m = Some out" and "m_devhndl ob = - 1"
  shows "case out of
     Inl (status, ob', m') \<Rightarrow> status \<in> {- 9, - 10, - 27} \<and>
       (\<exists>as h r1 r2. init_spec as status h \<and> emits m m' (as @ [Ext Bcm2835_spi_end r1, Ext Bcm2835_close r2]))
   | Inr (ob', m') \<Rightarrow> m_devhndl ob' \<noteq> - 1 \<and>
       (\<exists>as r. init_spec as 0 (Some (m_devhndl ob')) \<and> emits m m' (as @ [Ext Mutex_unlock r]))"
proof -
  from assms(1) obtain err ob1 m1 where i: "init E ob m = Some (err, ob1, m1)"
    by (auto simp: main_start_def bind_Some_iff)
  from init_emits [OF i] obtain as h where as: "emits m m1 as" "init_spec as err h"
    and ob1: "ob1 = (case h of None \<Rightarrow> ob | Some x \<Rightarrow> ob\<lparr>m_devhndl := x\<rparr>)" by blast
  show ?thesis
  proof (cases "err = 0")
    case True
    with assms(1) i obtain m2 where r: "rtthread_Resume E t m1 = Some m2" and out: "out = Inr (ob1, m2)"
      by (auto simp: main_start_def bind_Some_iff)
    from r have m2: "m2 = ext_do E Mutex_unlock m1" by (simp add: rtthread_Resume_def split: option.splits)
    have "emits m1 m2 [Ext Mutex_unlock (fst (ext_call E Mutex_unlock m1))]"
      unfolding m2 by (rule emits_ext_do) simp_all
    from emits_trans [OF as(1) this] init_spec_result(2) [OF as(2) True] as(2) ob1 show ?thesis
      unfolding out True by auto
  next
    case False
    define m2 where "m2 = ext_do E Bcm2835_spi_end m1"
    define m3 where "m3 = ext_do E Bcm2835_close m2"
    from assms(1) i False have out: "out = Inl (err, ob1, m3)"
      by (auto simp: main_start_def Let_def m2_def m3_def)
    have e: "emits m1 m2 [Ext Bcm2835_spi_end (fst (ext_call E Bcm2835_spi_end m1))]"
      "emits m2 m3 [Ext Bcm2835_close (fst (ext_call E Bcm2835_close m2))]"
      unfolding m2_def m3_def by (rule emits_ext_do; simp)+
    from emits_trans [OF as(1) emits_Cons [OF e]] init_spec_result(1) [OF as(2)] as(2) False
    show ?thesis unfolding out by auto
  qed
qed

theorem main_start_outcome_witness:
  "\<exists>ob' m'. main_start up_chip (raw_shield real_fpu) (static_threadbase\<lparr>imp_buf := Some \<lparr>m_thread = 3\<rparr>\<rparr>)
       (start ([], 0)) = Some (Inr (ob', m')) \<and> m_devhndl (raw_shield real_fpu) = - 1 \<and>
     m_devhndl ob' \<noteq> - 1 \<and>
     (\<exists>as r. init_spec as 0 (Some (m_devhndl ob')) \<and> emits (start ([], 0)) m' (as @ [Ext Mutex_unlock r]))"
proof -
  let ?t = "static_threadbase\<lparr>imp_buf := Some \<lparr>m_thread = 3\<rparr>\<rparr>"
  obtain ob' m1 where "init up_chip (raw_shield real_fpu) (start ([], 0)) = Some (0, ob', m1)"
    using init_up_chip by blast
  then obtain m' where run: "main_start up_chip (raw_shield real_fpu) ?t (start ([], 0)) = Some (Inr (ob', m'))"
    by (simp add: main_start_def rtthread_Resume_def)
  show ?thesis using run raw_shield_facts(1) main_start_outcome [OF run raw_shield_facts(1)] by auto
qed

end
