(* ===== verification/Slave_System.thy ===== *)
theory Slave_System
  imports Slave_Test
begin

section \<open>The whole slave: main program and real-time thread\<close>

text \<open>
  The rounds of the main program and of the real-time thread in any order, and the slave they
  make up: a buffer for each direction, each overwritten by its producer, and a counter. The
  rounds are taken whole here; \<open>Seqlock\<close> and \<open>Out_Ring\<close> treat what happens when they overlap.
\<close>

subsection \<open>The rounds\<close>

datatype turn = Main_turn | Rt_turn

definition run_turn :: "'w platform \<Rightarrow> 'f fpu \<Rightarrow> ('f \<Rightarrow> string) \<Rightarrow> turn \<Rightarrow> 'f main_state \<times> 'w machine \<Rightarrow>
    ('f main_state \<times> 'w machine) option" where
  "run_turn E F fmt t = (\<lambda>(st, m).
     case t of
       Main_turn \<Rightarrow> main_round E fmt st m
     | Rt_turn \<Rightarrow> do {
         (ob, m) \<leftarrow> execute_round E F (ETHB st) m;
         Some (st\<lparr>ETHB := ob\<rparr>, m)
       })"

definition turn_step :: "'w platform \<Rightarrow> 'f fpu \<Rightarrow> ('f \<Rightarrow> string) \<Rightarrow> turn \<Rightarrow> 'f main_state \<times> 'w machine \<Rightarrow>
    action list \<Rightarrow> 'f main_state \<times> 'w machine \<Rightarrow> bool" where
  "turn_step E F fmt t s as s' \<longleftrightarrow> run_turn E F fmt t s = Some s' \<and> emits (snd s) (snd s') as"

subsection \<open>The slave\<close>

text \<open>The process data that an action writes to the master, or reads from it.\<close>

definition fifo_outputs :: "action list \<Rightarrow> u8 list list" where
  "fifo_outputs as = concat (map (\<lambda>a. case a of
     Reg_write r bs \<Rightarrow> if r = ECAT_PRAM_WR_DATA then [bs] else [] | _ \<Rightarrow> []) as)"

definition fifo_inputs :: "action list \<Rightarrow> u8 list list" where
  "fifo_inputs as = concat (map (\<lambda>a. case a of
     Reg_read r bs \<Rightarrow> if r = ECAT_PRAM_RD_DATA then [bs] else [] | _ \<Rightarrow> []) as)"

lemma fifo_append:
  "fifo_outputs (as @ bs) = fifo_outputs as @ fifo_outputs bs"
  "fifo_inputs (as @ bs) = fifo_inputs as @ fifo_inputs bs"
  by (simp_all add: fifo_outputs_def fifo_inputs_def)

text \<open>
  \<open>sl_out\<close> is what the next cycle sends, \<open>sl_in\<close> what was received last, \<open>sl_app\<close> what the
  application has, \<open>sl_count\<close> the number in its next message.
\<close>

record slave =
  sl_out :: PROCBUFFER
  sl_in :: PROCBUFFER
  sl_app :: PROCBUFFER
  sl_count :: u64

inductive slave_step :: "turn \<Rightarrow> slave \<Rightarrow> action list \<Rightarrow> slave \<Rightarrow> bool" where
  application:
    "slave_step Main_turn a [Clock s n, Ext (Nanosleep 0 100000000) r]
       (a\<lparr>sl_app := sl_in a, sl_out := pack [ns_of s n div 1000000, sl_count a, 1, 2],
          sl_count := sl_count a + 1\<rparr>)"
| exchange:
    "fifo_outputs as = [le_bytes 32 (sl_out a)] \<Longrightarrow> fifo_inputs as = [le_bytes 32 b] \<Longrightarrow>
     slave_step Rt_turn a as (a\<lparr>sl_in := b\<rparr>)"
| output_only:
    "fifo_outputs as = [le_bytes 32 (sl_out a)] \<Longrightarrow> fifo_inputs as = [] \<Longrightarrow>
     slave_step Rt_turn a as a"

inductive_cases main_turnE: "slave_step Main_turn a as a'"
inductive_cases rt_turnE: "slave_step Rt_turn a as a'"

definition slave_of :: "'f main_state \<times> 'w machine \<Rightarrow> slave \<Rightarrow> bool" where
  "slave_of s a \<longleftrightarrow> (let st = fst s in
     main_inv st \<and> cur_output (ETHB st) = Some (sl_out a) \<and>
     m_BufferOutEthToSlaveBuffer (ETHB st) = sl_in a \<and> BufferfromEthCAT st = sl_app a \<and>
     loop_counter st = sl_count a)"

subsection \<open>The simulation\<close>

lemma fifo_cycle_parts:
  "fifo_outputs (csr_read_actions r ws bs) = []" "fifo_inputs (csr_read_actions r ws bs) = []"
  "fifo_outputs (fifo_read_actions ws bs) = []" "fifo_inputs (fifo_read_actions ws bs) = [bs]"
  "fifo_outputs (fifo_write_actions ws bs) = [bs]" "fifo_inputs (fifo_write_actions ws bs) = []"
  by (simp_all add: fifo_outputs_def fifo_inputs_def csr_read_actions_def csr_poll_actions_def
      fifo_read_actions_def fifo_write_actions_def comp_def)

lemma cycle_spec_fifo:
  assumes "cycle_spec ob as st ob'"
  shows "\<exists>out. cur_output ob = Some out \<and> fifo_outputs as = [le_bytes 32 out] \<and>
     (fifo_inputs as = [le_bytes 32 (m_BufferOutEthToSlaveBuffer ob')] \<or>
      fifo_inputs as = [] \<and> m_BufferOutEthToSlaveBuffer ob' = m_BufferOutEthToSlaveBuffer ob)"
  using assms by (auto elim!: cycle_specE simp: fifo_append fifo_cycle_parts)

lemma fifo_round:
  "fifo_outputs (round_actions h r as t0 t1 r1 r2) = fifo_outputs as"
  "fifo_inputs (round_actions h r as t0 t1 r1 r2) = fifo_inputs as"
  by (simp_all add: round_actions_def wait_actions_def fifo_outputs_def fifo_inputs_def)

lemma record_times_frame:
  "ring_bounds (record_times F a b ob) = ring_bounds ob"
  "cur_output (record_times F a b ob) = cur_output ob"
  "m_BufferOutEthToSlaveBuffer (record_times F a b ob) = m_BufferOutEthToSlaveBuffer ob"
  "outbuffer (record_times F a b ob) = outbuffer ob" "numeric (record_times F a b ob) = numeric ob"
  "m_atomiccounter (record_times F a b ob) = m_atomiccounter ob"
  by (simp_all add: record_times_def ring_bounds_def wf_object_def cur_output_def Let_def)

lemma cycle_spec_text:
  "cycle_spec ob as st ob' \<Longrightarrow> outbuffer ob' = outbuffer ob \<and> numeric ob' = numeric ob"
  by (erule cycle_specE) simp_all

text \<open>What a round of the main program does, with what is seen of it.\<close>

lemma main_round_log:
  assumes "main_round E fmt st m = Some (st', m')" and "main_inv st"
  obtains sec ns r ob1 ob2 l where "emits m m' [Clock sec ns, Ext (Nanosleep 0 100000000) r]"
    and "send_output (round_words (ns_of sec ns) st) (ETHB st) = Some ob1"
    and "bashoutput fmt ob1 = Some (ob2, l)"
    and "st' = \<lparr>ETHB = ob2, BufferfromEthCAT = m_BufferOutEthToSlaveBuffer (ETHB st),
       inputbuffer = round_words (ns_of sec ns) st, loop_counter = loop_counter st + 1\<rparr>"
proof -
  from main_round_cases [OF assms] obtain t m1 ob1 ob2 l r where
    g: "Getns E m = (t, m1)" and s: "send_output (round_words t st) (ETHB st) = Some ob1"
    and p: "bashoutput fmt ob1 = Some (ob2, l)" and n: "ext_call E (Nanosleep 0 100000000) m1 = (r, m')"
    and st': "st' = \<lparr>ETHB = ob2, BufferfromEthCAT = m_BufferOutEthToSlaveBuffer (ETHB st),
       inputbuffer = round_words t st, loop_counter = loop_counter st + 1\<rparr>"
    by blast
  from Getns_emits [OF g] obtain sec ns where t: "t = ns_of sec ns" "emits m m1 [Clock sec ns]" by blast
  have "emits m1 m' [Ext (Nanosleep 0 100000000) r]"
    using emits_ext_call [of "Nanosleep 0 100000000" m1 E] n by simp
  from that [OF emits_Cons [OF t(2) this]] s p st' t(1) show thesis by blast
qed

lemma main_turn_sim:
  assumes "slave_of (st, m) a" and "main_round E fmt st m = Some (st', m')" and "emits m m' as"
  shows "\<exists>a'. slave_step Main_turn a as a' \<and> slave_of (st', m') a'"
proof -
  from assms(1) have inv: "main_inv st" by (simp add: slave_of_def Let_def)
  then have b: "ring_bounds (ETHB st)" by (simp add: main_inv_def)
  from main_round_log [OF assms(2) inv] obtain sec ns r ob1 ob2 l where
    e: "emits m m' [Clock sec ns, Ext (Nanosleep 0 100000000) r]"
    and s: "send_output (round_words (ns_of sec ns) st) (ETHB st) = Some ob1"
    and p: "bashoutput fmt ob1 = Some (ob2, l)"
    and st': "st' = \<lparr>ETHB = ob2, BufferfromEthCAT = m_BufferOutEthToSlaveBuffer (ETHB st),
       inputbuffer = round_words (ns_of sec ns) st, loop_counter = loop_counter st + 1\<rparr>"
    by blast
  note as = emits_unique [OF assms(3) e]
  have len: "length (round_words (ns_of sec ns) st) = 4" by (simp add: round_words_def)
  from send_output_ring [OF b len] s have
    o1: "ring_inv ob1" "cur_output ob1 = Some (pack (round_words (ns_of sec ns) st))"
    by (metis option.inject)+
  note f = same_but_text_ring [OF bashoutput_frame [OF p]] send_output_frame [OF s b len]
  have "length (outbuffer ob2) = 256" "length (numeric ob2) = 64"
    using bashoutput_frame [OF p] inv f(6,7) by (simp_all add: same_but_text_def main_inv_def)
  then have "slave_of (st', m') (a\<lparr>sl_app := sl_in a, sl_out := pack [ns_of sec ns div 1000000, sl_count a, 1, 2],
          sl_count := sl_count a + 1\<rparr>)"
    using assms(1) f o1 by (simp add: slave_of_def st' main_inv_def round_words_def ring_inv_def)
  with slave_step.application [of a sec ns r] show ?thesis unfolding as by blast
qed

lemma rt_turn_sim:
  assumes "slave_of (st, m) a" and "execute_round E F (ETHB st) m = Some (ob', m')" and "emits m m' as"
  shows "\<exists>a'. slave_step Rt_turn a as a' \<and> slave_of (st\<lparr>ETHB := ob'\<rparr>, m') a'"
proof -
  from execute_round_emits [OF assms(2)] obtain r bs code ob1 t0 t1 r1 r2 where
    c: "cycle_spec (ETHB st) bs code ob1"
    and e: "emits m m' (round_actions (m_devhndl (ETHB st)) r bs t0 t1 r1 r2)"
    and ob': "ob' = record_times F (ns_of (fst t0) (snd t0)) (ns_of (fst t1) (snd t1)) ob1"
    by blast
  note as = emits_unique [OF assms(3) e]
  let ?b = "m_BufferOutEthToSlaveBuffer ob1"
  have new: "slave_of (st\<lparr>ETHB := ob'\<rparr>, m') (a\<lparr>sl_in := ?b\<rparr>)"
    using assms(1) cycle_spec_ring [OF c] cycle_spec_text [OF c]
    by (simp add: slave_of_def main_inv_def ob' record_times_frame)
  have io: "fifo_outputs as = [le_bytes 32 (sl_out a)]"
    "fifo_inputs as = [le_bytes 32 ?b] \<or> fifo_inputs as = [] \<and> ?b = sl_in a"
    using cycle_spec_fifo [OF c] assms(1) by (auto simp: as fifo_round slave_of_def)
  show ?thesis
  proof (cases "fifo_inputs as = []")
    case True
    with io have "slave_step Rt_turn a as a" "a\<lparr>sl_in := ?b\<rparr> = a" by (auto intro: output_only)
    with new show ?thesis by metis
  next
    case False
    with io have "slave_step Rt_turn a as (a\<lparr>sl_in := ?b\<rparr>)" by (auto intro: exchange)
    with new show ?thesis by blast
  qed
qed

interpretation slave: simulation "turn_step E F fmt" slave_step slave_of for E F fmt
proof unfold_locales
  fix s a t as s'
  assume "slave_of s a" "turn_step E F fmt t s as s'"
  moreover obtain st m where "s = (st, m)" by (cases s)
  moreover obtain st' m' where "s' = (st', m')" by (cases s')
  ultimately show "\<exists>a'. slave_step t a as a' \<and> slave_of s' a'"
    using main_turn_sim rt_turn_sim
    by (cases t) (fastforce simp: turn_step_def run_turn_def bind_Some_iff)+
qed

subsection \<open>Every round leaves a log with a meaning\<close>

lemma slave_of_exists:
  assumes "main_inv (fst s)"
  shows "\<exists>a. slave_of s a \<and> sl_in a = m_BufferOutEthToSlaveBuffer (ETHB (fst s)) \<and>
     sl_count a = loop_counter (fst s)"
proof -
  obtain out where "cur_output (ETHB (fst s)) = Some out"
    using assms by (auto simp: main_inv_def ring_bounds_def wf_object_def cur_output_def slot_def)
  with assms show ?thesis
    by (intro exI [of _ "\<lparr>sl_out = out, sl_in = m_BufferOutEthToSlaveBuffer (ETHB (fst s)),
         sl_app = BufferfromEthCAT (fst s), sl_count = loop_counter (fst s)\<rparr>"])
       (simp add: slave_of_def)
qed

lemma main_round_emits:
  assumes "main_round E fmt st m = Some (st', m')" and "main_inv st"
  shows "\<exists>as. emits m m' as"
  using main_round_log [OF assms] by metis

lemma run_turn_emits:
  assumes "run_turn E F fmt t s = Some s'" and "main_inv (fst s)"
  shows "\<exists>as. emits (snd s) (snd s') as \<and> main_inv (fst s')"
proof -
  obtain st m st' m' where s: "s = (st, m)" "s' = (st', m')" by (cases s, cases s')
  have "\<exists>as. emits (snd s) (snd s') as"
  proof (cases t)
    case Main_turn
    with assms main_round_emits show ?thesis unfolding s by (simp add: run_turn_def)
  next
    case Rt_turn
    with assms obtain ob where "execute_round E F (ETHB st) m = Some (ob, m')"
      unfolding s by (auto simp: run_turn_def bind_Some_iff)
    from execute_round_emits [OF this] show ?thesis unfolding s by auto
  qed
  then obtain as where e: "emits (snd s) (snd s') as" by blast
  obtain a where "slave_of s a" using slave_of_exists [OF assms(2)] by blast
  from slave.step_sim [OF this, of E F fmt t as s'] assms(1) e have "main_inv (fst s')"
    by (auto simp: turn_step_def slave_of_def Let_def)
  with e show ?thesis by blast
qed

lemma turns_steps:
  "fold_option (run_turn E F fmt) ts s = Some s' \<Longrightarrow> main_inv (fst s) \<Longrightarrow>
   \<exists>as. emits (snd s) (snd s') as \<and> steps (turn_step E F fmt) ts s as s'"
proof (induction ts arbitrary: s)
  case Nil
  then show ?case by auto
next
  case (Cons t ts)
  then obtain s1 where s1: "run_turn E F fmt t s = Some s1" "fold_option (run_turn E F fmt) ts s1 = Some s'"
    by (auto simp: bind_Some_iff)
  obtain as1 where e1: "emits (snd s) (snd s1) as1" and inv: "main_inv (fst s1)"
    using run_turn_emits [OF s1(1) Cons.prems(2)] by blast
  obtain as2 where e2: "emits (snd s1) (snd s') as2" "steps (turn_step E F fmt) ts s1 as2 s'"
    using Cons.IH [OF s1(2) inv] by blast
  have "turn_step E F fmt t s as1 s1" using s1(1) e1 by (simp add: turn_step_def)
  with e2(2) have "steps (turn_step E F fmt) (t # ts) s (as1 @ as2) s'"
    unfolding steps.simps by blast
  with emits_trans [OF e1 e2(1)] show ?case by blast
qed

lemma turns_slave:
  assumes "fold_option (run_turn E F fmt) ts s = Some s'" and "slave_of s a"
  shows "\<exists>as a'. emits (snd s) (snd s') as \<and> steps slave_step ts a as a' \<and> slave_of s' a'"
proof -
  from assms(2) have "main_inv (fst s)" by (simp add: slave_of_def Let_def)
  from turns_steps [OF assms(1) this] obtain as where
    "emits (snd s) (snd s') as" "steps (turn_step E F fmt) ts s as s'" by blast
  with slave.steps_sim [OF assms(2) this(2)] show ?thesis by blast
qed

subsection \<open>Runs of the slave\<close>

text \<open>The last input is in \<open>sl_in\<close>, and a round of the application takes it over.\<close>

lemma slave_inputs:
  "steps slave_step ts a as a' \<Longrightarrow> le_bytes 32 (sl_in a') = last (le_bytes 32 (sl_in a) # fifo_inputs as)"
proof (induction ts arbitrary: a as)
  case Nil
  then show ?case by (simp add: fifo_inputs_def)
next
  case (Cons t ts)
  from Cons.prems obtain as1 a1 as2 where s: "slave_step t a as1 a1" "steps slave_step ts a1 as2 a'"
    and as: "as = as1 @ as2" by auto
  from s(1) have "le_bytes 32 (sl_in a1) = last (le_bytes 32 (sl_in a) # fifo_inputs as1)"
    by (cases rule: slave_step.cases) (auto simp: fifo_inputs_def)
  with Cons.IH [OF s(2)] show ?case unfolding as fifo_append by (auto simp: last_append)
qed

text \<open>Rounds of the thread send what the application has left.\<close>

lemma slave_outputs:
  "steps slave_step (replicate n Rt_turn) a as a' \<Longrightarrow> fifo_outputs as = replicate n (le_bytes 32 (sl_out a))"
proof (induction n arbitrary: a as)
  case 0
  then show ?case by (simp add: fifo_outputs_def)
next
  case (Suc n)
  from Suc.prems obtain as1 a1 as2 where s: "slave_step Rt_turn a as1 a1"
    "steps slave_step (replicate n Rt_turn) a1 as2 a'" and as: "as = as1 @ as2" by auto
  from s(1) have "fifo_outputs as1 = [le_bytes 32 (sl_out a)]" "sl_out a1 = sl_out a"
    by (auto elim!: rt_turnE)
  with Suc.IH [OF s(2)] show ?case by (simp add: as fifo_append)
qed

subsection \<open>Inputs in operational state\<close>

text \<open>
  What the log shows of the state of the slave: the register of the core that the CSR command named last,
  and the watchdog status and the AL status as they were read last. An input counts when it is read while these
  two say that the watchdog is served and the state is OP.
\<close>

record status_seen =
  csr_named :: "u8 list"
  wd_seen :: u8
  al_seen :: u8

definition nothing_seen :: status_seen where
  "nothing_seen = \<lparr>csr_named = [], wd_seen = 0, al_seen = 0\<rparr>"

fun see_status :: "action \<Rightarrow> status_seen \<Rightarrow> status_seen" where
  "see_status (Reg_write r bs) q = (if r = ECAT_CSR_CMD then q\<lparr>csr_named := take 2 bs\<rparr> else q)"
| "see_status (Reg_read r bs) q =
     (if r \<noteq> ECAT_CSR_DATA then q
      else if csr_named q = [Byte WDOG_STATUS 0, Byte WDOG_STATUS 1] then q\<lparr>wd_seen := hd bs\<rparr>
      else if csr_named q = [Byte AL_STATUS_REG_0 0, Byte AL_STATUS_REG_0 1] then q\<lparr>al_seen := hd bs\<rparr>
      else q)"
| "see_status _ q = q"

fun operational_inputs :: "status_seen \<Rightarrow> action list \<Rightarrow> u8 list list" where
  "operational_inputs q [] = []"
| "operational_inputs q (a # as) =
     (if cycle_operational (wd_seen q) (al_seen q) then fifo_inputs [a] else []) @
     operational_inputs (see_status a q) as"

lemma operational_append:
  "operational_inputs q (as @ bs) = operational_inputs q as @ operational_inputs (fold see_status as q) bs"
  by (induction as arbitrary: q) simp_all

lemma operational_none: "fifo_inputs as = [] \<Longrightarrow> operational_inputs q as = []"
proof (induction as arbitrary: q)
  case Nil
  then show ?case by simp
next
  case (Cons a as)
  then have "fifo_inputs [a] = []" "fifo_inputs as = []"
    using fifo_append(2) [of "[a]" as] by simp_all
  with Cons.IH show ?case by simp
qed

text \<open>One input, between accesses that are none.\<close>

lemma operational_one:
  assumes "fifo_inputs xs = []" and "fifo_inputs ys = []" and "fold see_status xs q = q1"
    and "cycle_operational (wd_seen q1) (al_seen q1)"
  shows "operational_inputs q (xs @ [a] @ ys) = fifo_inputs (xs @ [a] @ ys)"
  using assms unfolding operational_append fifo_append by (simp add: operational_none)

lemma see_polls: "fold see_status (csr_poll_actions ws) q = q"
  by (induction ws) (simp_all add: csr_poll_actions_def)

lemma see_csr_read:
  "fold see_status (csr_read_actions WDOG_STATUS ws1 [wd] @ csr_read_actions AL_STATUS_REG_0 ws2 [al]) q =
     \<lparr>csr_named = [Byte AL_STATUS_REG_0 0, Byte AL_STATUS_REG_0 1], wd_seen = wd, al_seen = al\<rparr>"
  by (cases q) (simp add: csr_read_actions_def see_polls slice_get_def)

lemma see_fifo_read:
  "fold see_status (butlast (fifo_read_actions ws bs)) q = q"
proof -
  have "fold see_status (map (\<lambda>w. Reg_read ECAT_PRAM_RD_CMD (le_bytes 4 w)) ws) q = q" for q
    by (induction ws) simp_all
  then show ?thesis by (simp add: fifo_read_actions_def butlast_append)
qed

lemma cycle_spec_operational:
  assumes "cycle_spec ob as st ob'"
  shows "operational_inputs q as = fifo_inputs as"
  using assms
proof cases
  case (operational wd al out ws1 ws2 ws3 ws4 b)
  let ?s = "csr_read_actions WDOG_STATUS ws1 [wd] @ csr_read_actions AL_STATUS_REG_0 ws2 [al]"
  let ?r = "butlast (fifo_read_actions ws3 (le_bytes 32 b))" and ?w = "fifo_write_actions ws4 (le_bytes 32 out)"
  have as: "as = (?s @ ?r) @ [Reg_read ECAT_PRAM_RD_DATA (le_bytes 32 b)] @ ?w"
    by (simp add: operational(1) fifo_read_actions_def butlast_append)
  have "fifo_inputs ?r = []"
    by (simp add: fifo_inputs_def fifo_read_actions_def butlast_append comp_def)
  then have none: "fifo_inputs (?s @ ?r) = []" by (simp add: fifo_append fifo_cycle_parts)
  let ?q = "\<lparr>csr_named = [Byte AL_STATUS_REG_0 0, Byte AL_STATUS_REG_0 1], wd_seen = wd, al_seen = al\<rparr>"
  have q: "fold see_status (?s @ ?r) q = ?q"
    using see_csr_read [of ws1 wd ws2 al q] see_fifo_read [of ws3 "le_bytes 32 b" ?q]
    unfolding fold_append comp_def by simp
  have "cycle_operational (wd_seen ?q) (al_seen ?q)" using operational by simp
  from operational_one [OF none fifo_cycle_parts(6) q this] show ?thesis unfolding as .
next
  case (safe wd al out ws1 ws2 ws4)
  then have "fifo_inputs as = []" by (simp add: fifo_append fifo_cycle_parts)
  then show ?thesis by (simp add: operational_none)
qed

lemma run_turn_operational:
  assumes "run_turn E F fmt t s = Some s'" and "main_inv (fst s)" and "emits (snd s) (snd s') as"
  shows "operational_inputs q as = fifo_inputs as"
proof -
  obtain st m st' m' where s: "s = (st, m)" "s' = (st', m')" by (cases s, cases s')
  show ?thesis
  proof (cases t)
    case Main_turn
    with assms s have "main_round E fmt st m = Some (st', m')" "main_inv st" by (simp_all add: run_turn_def)
    then obtain sec ns r where e: "emits m m' [Clock sec ns, Ext (Nanosleep 0 100000000) r]"
      by (rule main_round_log) (rule that)
    from assms(3) s have "emits m m' as" by simp
    then have "as = [Clock sec ns, Ext (Nanosleep 0 100000000) r]" by (rule emits_unique [OF _ e])
    then have "fifo_inputs as = []" by (simp add: fifo_inputs_def)
    then show ?thesis by (simp add: operational_none)
  next
    case Rt_turn
    with assms(1) s obtain ob where "execute_round E F (ETHB st) m = Some (ob, m')"
      by (auto simp: run_turn_def bind_Some_iff)
    from execute_round_emits [OF this] obtain r bs code ob1 t0 t1 r1 r2 where
      c: "cycle_spec (ETHB st) bs code ob1"
      and e: "emits m m' (round_actions (m_devhndl (ETHB st)) r bs t0 t1 r1 r2)" by blast
    have as: "as = round_actions (m_devhndl (ETHB st)) r bs t0 t1 r1 r2"
      using emits_unique [OF _ e] assms(3) s by simp
    obtain xs ys where "as = xs @ bs @ ys" "fifo_inputs xs = []" "fifo_inputs ys = []"
    proof
      show "as = (wait_actions (m_devhndl (ETHB st)) r @ [Clock (fst t0) (snd t0), Ext (Gpio_set OUT) r1]) @ bs @
          [Ext (Gpio_clr OUT) r2, Clock (fst t1) (snd t1)]"
        unfolding as by (simp add: round_actions_def)
    qed (simp_all add: wait_actions_def fifo_inputs_def)
    then show ?thesis
      by (simp add: operational_append fifo_append operational_none cycle_spec_operational [OF c])
  qed
qed

text \<open>Every input is read in operational state.\<close>

lemma turns_operational:
  "fold_option (run_turn E F fmt) ts s = Some s' \<Longrightarrow> main_inv (fst s) \<Longrightarrow> emits (snd s) (snd s') as \<Longrightarrow>
   operational_inputs q as = fifo_inputs as"
proof (induction ts arbitrary: s as q)
  case Nil
  then have "emits (snd s) (snd s) as" by simp
  then have "as = []" by (rule emits_unique [OF _ emits_refl])
  then show ?case by (simp add: fifo_inputs_def)
next
  case (Cons t ts)
  then obtain s1 where s1: "run_turn E F fmt t s = Some s1" "fold_option (run_turn E F fmt) ts s1 = Some s'"
    by (auto simp: bind_Some_iff)
  obtain as1 where e1: "emits (snd s) (snd s1) as1" and inv: "main_inv (fst s1)"
    using run_turn_emits [OF s1(1) Cons.prems(2)] by blast
  obtain as2 where e2: "emits (snd s1) (snd s') as2" using turns_steps [OF s1(2) inv] by blast
  have "as = as1 @ as2" using emits_unique [OF Cons.prems(3) emits_trans [OF e1 e2]] .
  then show ?case
    using run_turn_operational [OF s1(1) Cons.prems(2) e1] Cons.IH [OF s1(2) inv e2]
    by (simp add: operational_append fifo_append)
qed

subsection \<open>When the rounds end\<close>

text \<open>Numbers of at most 14 characters leave room for the labels of the status line.\<close>

definition short_numbers :: "('f \<Rightarrow> string) \<Rightarrow> bool" where
  "short_numbers fmt \<longleftrightarrow> (\<forall>x. length (fmt x) \<le> 14 \<and> NUL \<notin> set (fmt x))"

lemma status_text_short:
  assumes "short_numbers fmt"
  shows "length (status_text fmt ob) < 256"
proof -
  have n: "length (field_text fmt lv) \<le> length (fst lv) + 14" for lv
    using assms by (simp add: field_text_def short_numbers_def min.coboundedI1)
  have "length (status_text fmt ob) =
      sum_list (map (\<lambda>lv. length (field_text fmt lv)) ((''period(ms):'', vmean (m_period ob)) # more_fields ob))"
    by (simp add: status_text_def length_concat comp_def)
  also have "\<dots> \<le> sum_list (map (\<lambda>lv. length (fst lv) + 14) ((''period(ms):'', vmean (m_period ob)) # more_fields ob))"
    by (rule sum_list_mono) (rule n)
  also have "\<dots> < 256" by (simp add: more_fields_def)
  finally show ?thesis .
qed

lemma milisleep_undisturbed:
  "undisturbed E P \<Longrightarrow> milisleep E n m = (r, m') \<Longrightarrow> P (env m) \<Longrightarrow> P (env m')"
  by (auto simp: milisleep_def off_bus_def split: prod.splits intro: undisturbed_ext_call)

lemma main_round_returns:
  assumes "main_inv st" and "short_numbers fmt" and "undisturbed E P" and "P (env m)"
  shows "\<exists>st' m'. main_round E fmt st m = Some (st', m') \<and> P (env m')"
proof -
  obtain t m1 where g: "Getns E m = (t, m1)" by fastforce
  have f: "(inputbuffer st)[0 := t div 1000000, 1 := loop_counter st, 2 := 1, 3 := 2] = round_words t st"
    unfolding round_words_def by (rule fill_four) (use assms(1) in \<open>simp add: main_inv_def\<close>)
  have b: "ring_bounds (ETHB st)" and len: "length (round_words t st) = 4"
    using assms(1) by (simp_all add: main_inv_def round_words_def)
  obtain ob1 where s: "send_output (round_words t st) (ETHB st) = Some ob1"
    using send_output_ring [OF b len] by blast
  have "length (outbuffer ob1) = 256" "length (numeric ob1) = 64"
    using send_output_frame [OF s b len] assms(1) by (simp_all add: main_inv_def)
  then obtain ob2 where p: "bashoutput fmt ob1 = Some (ob2, status_text fmt ob1)"
    using bashoutput_outcome [of ob1 fmt] status_text_short [OF assms(2), of ob1] assms(2)
    by (auto simp: short_numbers_def)
  obtain r m2 where n: "milisleep E 100 m1 = (r, m2)" by fastforce
  have "P (env m2)"
    using milisleep_undisturbed [OF assms(3) n Getns_undisturbed [OF assms(3) g assms(4)]] .
  then show ?thesis
    using g f s p n by (simp add: main_round_def receive_input_eq Let_def del: One_nat_def)
qed

lemma run_turn_returns:
  assumes "responsive E P" and "short_numbers fmt" and "main_inv (fst s)" and "P (env (snd s))"
  shows "\<exists>s'. run_turn E F fmt t s = Some s' \<and> P (env (snd s'))"
proof -
  obtain st m where s: "s = (st, m)" by (cases s)
  show ?thesis
  proof (cases t)
    case Main_turn
    with main_round_returns [OF _ assms(2) responsive_undisturbed [OF assms(1)], of st m] assms(3,4)
    show ?thesis by (auto simp: s run_turn_def)
  next
    case Rt_turn
    from assms(3) have "ring_bounds (ETHB st)" by (simp add: s main_inv_def)
    with execute_round_returns [OF assms(1), of m "ETHB st" F] assms(4)
    obtain ob m' where "execute_round E F (ETHB st) m = Some (ob, m')" "P (env m')" by (auto simp: s)
    with Rt_turn show ?thesis by (simp add: s run_turn_def)
  qed
qed

lemma turns_return:
  assumes "responsive E P" and "short_numbers fmt"
  shows "main_inv (fst s) \<Longrightarrow> P (env (snd s)) \<Longrightarrow>
    \<exists>s'. fold_option (run_turn E F fmt) ts s = Some s' \<and> main_inv (fst s') \<and> P (env (snd s'))"
proof (induction ts arbitrary: s)
  case Nil
  then show ?case by simp
next
  case (Cons t ts)
  obtain s1 where s1: "run_turn E F fmt t s = Some s1" "P (env (snd s1))"
    using run_turn_returns [OF assms Cons.prems] by blast
  with run_turn_emits [OF s1(1) Cons.prems(1)] Cons.IH [of s1] show ?case by auto
qed

lemma main_init_inv: "main_inv (main_init (raw_shield F))"
  using raw_shield_facts(5) [of F]
  by (simp add: main_inv_def main_init_def) (simp add: raw_shield_def static_object_def rpi_base.defs)

text \<open>On the chip that is up a cycle fetches an input.\<close>

lemma up_chip_round:
  assumes "ring_bounds ob"
  shows "\<exists>ob' m'. execute_round up_chip F ob m = Some (ob', m') \<and>
     m_atomiccounter ob' = m_atomiccounter ob + 2"
proof -
  obtain err m1 where w: "waitforirq_or_timeout up_chip ob 100 m = (err, m1)" by fastforce
  obtain a m2 where g0: "Getns up_chip m1 = (a, m2)" by fastforce
  obtain ob1 m4 where main: "MainTask up_chip ob (ext_do up_chip (Gpio_set OUT) m2) = Some (ESM_OP, ob1, m4)"
    using MainTask_up_chip [OF assms] by blast
  obtain b m5 where g1: "Getns up_chip (ext_do up_chip (Gpio_clr OUT) m4) = (b, m5)" by fastforce
  have "m_atomiccounter ob1 = m_atomiccounter ob + 2"
    using MainTask_cycle [OF main] cycle_status_operational by (auto elim!: cycle_specE)
  then have "m_atomiccounter (record_times F a b ob1) = m_atomiccounter ob + 2"
    by (simp add: record_times_frame)
  then show ?thesis using w g0 main g1 by (simp add: execute_round_def)
qed

lemma round_counts_inputs:
  assumes "execute_round E F ob m = Some (ob', m')" and "emits m m' as"
    and "m_atomiccounter ob' \<noteq> m_atomiccounter ob"
  shows "fifo_inputs as \<noteq> []"
proof -
  from execute_round_emits [OF assms(1)] obtain r bs code ob1 t0 t1 r1 r2 where
    c: "cycle_spec ob bs code ob1" and e: "emits m m' (round_actions (m_devhndl ob) r bs t0 t1 r1 r2)"
    and ob': "ob' = record_times F (ns_of (fst t0) (snd t0)) (ns_of (fst t1) (snd t1)) ob1"
    by blast
  from assms(3) have "m_atomiccounter ob1 \<noteq> m_atomiccounter ob"
    by (simp add: ob' record_times_frame)
  with c have "fifo_inputs bs \<noteq> []" by (auto elim!: cycle_specE simp: fifo_append fifo_cycle_parts)
  then show ?thesis by (simp add: emits_unique [OF assms(2) e] fifo_round)
qed

lemma up_chip_exchange:
  assumes "main_inv (fst s)" and "short_numbers fmt"
  shows "\<exists>s' as. fold_option (run_turn up_chip F fmt) ([Rt_turn] @ [Main_turn]) s = Some s' \<and>
     emits (snd s) (snd s') as \<and> fifo_inputs as \<noteq> []"
proof -
  obtain st m where s: "s = (st, m)" by (cases s)
  from assms(1) have "ring_bounds (ETHB st)" by (simp add: s main_inv_def)
  then obtain ob m1 where r: "execute_round up_chip F (ETHB st) m = Some (ob, m1)"
    "m_atomiccounter ob = m_atomiccounter (ETHB st) + 2"
    using up_chip_round by blast
  then have t: "run_turn up_chip F fmt Rt_turn s = Some (st\<lparr>ETHB := ob\<rparr>, m1)"
    by (simp add: s run_turn_def)
  from run_turn_emits [OF t assms(1)] obtain as1 where
    e1: "emits m m1 as1" and inv: "main_inv (st\<lparr>ETHB := ob\<rparr>)" by (auto simp: s)
  from round_counts_inputs [OF r(1) e1] r(2) have in1: "fifo_inputs as1 \<noteq> []" by simp
  obtain s' where t2: "run_turn up_chip F fmt Main_turn (st\<lparr>ETHB := ob\<rparr>, m1) = Some s'"
    using run_turn_returns [OF up_chip_responsive assms(2)] inv by fastforce
  obtain as2 where "emits m1 (snd s') as2"
    using run_turn_emits [OF t2] inv by auto
  from emits_trans [OF e1 this] in1 t t2 show ?thesis
    by (intro exI [of _ s'] exI [of _ "as1 @ as2"]) (simp add: s fifo_append)
qed

end
