(* ===== verification/Lan9252.thy ===== *)
theory Lan9252
  imports Shield
begin

section \<open>The code on a chip that behaves as documented\<close>

text \<open>
  The chip is not code of the repository. The properties of this theory say what the code achieves
  when the answers on the bus are those of a LAN9252: a run is followed by a chip (\<open>chip_run\<close>) whose
  registers and memory do what its data sheet says of the registers that the code uses. Where the
  data sheet says nothing, any next state is allowed: data that are read while a command is still in
  execution, more bytes than a FIFO has shown to hold, a command while another one is in execution.
  While the chip follows a run the master does not write.
\<close>

subsection \<open>The chip\<close>

text \<open>Memory is a function from addresses to bytes.\<close>

definition load :: "nat \<Rightarrow> nat \<Rightarrow> (nat \<Rightarrow> u8) \<Rightarrow> u8 list" where
  "load a n mem = map mem [a..<a + n]"

definition store :: "nat \<Rightarrow> u8 list \<Rightarrow> (nat \<Rightarrow> u8) \<Rightarrow> nat \<Rightarrow> u8" where
  "store a bs mem i = (if a \<le> i \<and> i < a + length bs then bs ! (i - a) else mem i)"

lemma length_load [simp]: "length (load a n mem) = n"
  by (simp add: load_def)

lemma load_store [simp]: "load a (length bs) (store a bs mem) = bs"
  by (rule nth_equalityI) (simp_all add: load_def store_def)

lemma load_1 [simp]: "load a (Suc 0) mem = [mem a]"
  by (simp add: load_def)

lemma store_other: "i < a \<or> a + length bs \<le> i \<Longrightarrow> store a bs mem i = mem i"
  by (auto simp: store_def)

text \<open>
  \<open>esc_mem\<close> is the memory of the EtherCAT core, registers and process RAM; \<open>csr_op\<close> the command in
  execution, with operation, address and number of bytes. For each FIFO there are the area given by
  address and length, the part that is still to be transferred, and how many bytes the status
  register has shown to be in the FIFO (or to be free). \<open>sys_regs\<close> are the other registers.
\<close>

record lan9252 =
  esc_mem :: "nat \<Rightarrow> u8"
  csr_data :: "u8 list"
  csr_op :: "(u8 \<times> nat \<times> nat) option"
  rd_area :: "nat \<times> nat"
  rd_left :: "nat \<times> nat"
  rd_shown :: nat
  wr_area :: "nat \<times> nat"
  wr_left :: "nat \<times> nat"
  wr_shown :: nat
  sys_regs :: "u16 \<Rightarrow> u8 list"

definition halves :: "u8 list \<Rightarrow> nat \<times> nat" where
  "halves bs = (unat (bs ! 0) + 256 * unat (bs ! 1), unat (bs ! 2) + 256 * unat (bs ! 3))"

definition csr_decode :: "u8 list \<Rightarrow> u8 \<times> nat \<times> nat" where
  "csr_decode bs = (bs ! 3, fst (halves bs), unat (bs ! 2))"

definition csr_finish :: "lan9252 \<Rightarrow> lan9252" where
  "csr_finish c =
     (case csr_op c of None \<Rightarrow> c
      | Some (cmd, a, n) \<Rightarrow>
          (if cmd = ESC_WRITE
           then c\<lparr>esc_mem := store a (take n (csr_data c)) (esc_mem c), csr_op := None\<rparr>
           else if cmd = ESC_READ then c\<lparr>csr_data := load a n (esc_mem c), csr_op := None\<rparr>
           else c\<lparr>csr_op := None\<rparr>))"

definition advance :: "nat \<Rightarrow> nat \<times> nat \<Rightarrow> nat \<times> nat" where
  "advance n area = (fst area + n, snd area - n)"

definition starts :: "u8 list \<Rightarrow> bool" where
  "starts bs \<longleftrightarrow> bs ! 3 AND 0x80 \<noteq> 0"

definition on_write :: "u16 \<Rightarrow> u8 list \<Rightarrow> lan9252 \<Rightarrow> lan9252 \<Rightarrow> bool" where
  "on_write a bs c c' =
     (if a = ECAT_CSR_DATA then c' = c\<lparr>csr_data := bs\<rparr>
      else if a = ECAT_CSR_CMD then csr_op c = None \<longrightarrow> c' = c\<lparr>csr_op := Some (csr_decode bs)\<rparr>
      else if a = ECAT_PRAM_RD_ADDR_LEN then c' = c\<lparr>rd_area := halves bs\<rparr>
      else if a = ECAT_PRAM_RD_CMD then
        c' = (if starts bs then c\<lparr>rd_left := rd_area c, rd_shown := 0\<rparr> else c)
      else if a = ECAT_PRAM_WR_ADDR_LEN then c' = c\<lparr>wr_area := halves bs\<rparr>
      else if a = ECAT_PRAM_WR_CMD then
        c' = (if starts bs then c\<lparr>wr_left := wr_area c, wr_shown := 0\<rparr> else c)
      else if a = ECAT_PRAM_WR_DATA then
        length bs \<le> wr_shown c \<and> length bs \<le> snd (wr_left c) \<longrightarrow>
          c' = c\<lparr>esc_mem := store (fst (wr_left c)) bs (esc_mem c),
                 wr_left := advance (length bs) (wr_left c), wr_shown := wr_shown c - length bs\<rparr>
      else if a = RESET_CTL then csr_op c' = None
      else c' = c\<lparr>sys_regs := (sys_regs c)(a := bs)\<rparr>)"

definition on_read :: "u16 \<Rightarrow> u8 list \<Rightarrow> lan9252 \<Rightarrow> lan9252 \<Rightarrow> bool" where
  "on_read a bs c c' =
     (if a = ECAT_CSR_DATA then
        c' = c \<and> (csr_op c = None \<longrightarrow> take (length (csr_data c)) bs = take (length bs) (csr_data c))
      else if a = ECAT_CSR_CMD then c' = (if starts bs then c else csr_finish c)
      else if a = ECAT_PRAM_RD_CMD then
        c' = (if bs ! 0 AND PRAM_READ_AVAIL \<noteq> 0 then c\<lparr>rd_shown := 4 * unat (bs ! 1)\<rparr> else c)
      else if a = ECAT_PRAM_WR_CMD then
        c' = (if bs ! 0 AND PRAM_WRITE_AVAIL \<noteq> 0 then c\<lparr>wr_shown := 4 * unat (bs ! 1)\<rparr> else c)
      else if a = ECAT_PRAM_RD_DATA then
        length bs \<le> rd_shown c \<and> length bs \<le> snd (rd_left c) \<longrightarrow>
          bs = load (fst (rd_left c)) (length bs) (esc_mem c) \<and>
          c' = c\<lparr>rd_left := advance (length bs) (rd_left c), rd_shown := rd_shown c - length bs\<rparr>
      else c' = c)"

fun chip_step :: "action \<Rightarrow> lan9252 \<Rightarrow> lan9252 \<Rightarrow> bool" where
  "chip_step (Reg_write a bs) c c' = on_write a bs c c'"
| "chip_step (Reg_read a bs) c c' = on_read a bs c c'"
| "chip_step _ c c' = (c' = c)"

fun chip_run :: "action list \<Rightarrow> lan9252 \<Rightarrow> lan9252 \<Rightarrow> bool" where
  "chip_run [] c c' = (c' = c)"
| "chip_run (a # as) c c' = (\<exists>c1. chip_step a c c1 \<and> chip_run as c1 c')"

lemma chip_run_append: "chip_run (as @ bs) c c' \<longleftrightarrow> (\<exists>c1. chip_run as c c1 \<and> chip_run bs c1 c')"
  by (induction as arbitrary: c) auto

text \<open>Calls do not concern the chip.\<close>

lemma chip_run_calls: "chip_run (map2 Ext cs rs) c c' \<Longrightarrow> c' = c"
  by (induction cs rs arbitrary: c rule: list_induct2') auto

subsection \<open>Waiting\<close>

lemma starts_le_bytes: "starts (le_bytes 4 w) \<longleftrightarrow> Byte (w :: ULONG) 3 AND 0x80 \<noteq> 0"
  by (simp add: starts_def)

text \<open>While the readings are busy the state that the last reading will show is not changed.\<close>

lemma chip_run_polls:
  assumes "chip_run (map (\<lambda>w. Reg_read a (le_bytes 4 w)) ws) c c'" and "polled busy ws"
    and "\<And>w c c'. busy w \<Longrightarrow> on_read a (le_bytes 4 w) c c' \<Longrightarrow> f c' = f c"
    and "\<And>w c c'. \<not> busy w \<Longrightarrow> on_read a (le_bytes 4 w) c c' \<Longrightarrow> Q (f c) c'"
  shows "Q (f c) c'"
  using assms(1,2)
proof (induction ws arbitrary: c)
  case Nil
  then show ?case by (simp add: polled_def)
next
  case (Cons w ws)
  then obtain c1 where step: "on_read a (le_bytes 4 w) c c1"
    and rest: "chip_run (map (\<lambda>w. Reg_read a (le_bytes 4 w)) ws) c1 c'"
    by auto
  show ?case
  proof (cases "ws = []")
    case True
    with Cons.prems(2) rest have "\<not> busy w" "c' = c1" by (simp_all add: polled_def)
    with assms(4) step show ?thesis by blast
  next
    case False
    with Cons.prems(2) have "busy w" "polled busy ws" by (auto simp: polled_def)
    with Cons.IH [OF rest] assms(3) [OF _ step] show ?thesis by simp
  qed
qed

lemma csr_polls:
  assumes "chip_run (csr_poll_actions ws) c c'" and "polled csr_busy ws"
  shows "c' = csr_finish c"
proof (rule chip_run_polls [OF assms(1) [unfolded csr_poll_actions_def] assms(2),
      where f = "\<lambda>c. c" and Q = "\<lambda>c c'. c' = csr_finish c"])
qed (simp_all add: on_read_def starts_le_bytes csr_busy_def)

lemma rd_polls:
  assumes "chip_run (map (\<lambda>w. Reg_read ECAT_PRAM_RD_CMD (le_bytes 4 w)) ws) c c'"
    and "polled rd_fifo_wait ws"
  shows "c' = c\<lparr>rd_shown := 32\<rparr>"
proof -
  have "c'\<lparr>rd_shown := 0\<rparr> = c\<lparr>rd_shown := 0\<rparr> \<and> rd_shown c' = 32"
    by (rule chip_run_polls [OF assms, where f = "\<lambda>c. c\<lparr>rd_shown := 0\<rparr>"
          and Q = "\<lambda>c c'. c'\<lparr>rd_shown := 0\<rparr> = c \<and> rd_shown c' = 32"])
      (auto simp: on_read_def rd_fifo_wait_def split: if_splits)
  then show ?thesis by (cases c; cases c') simp
qed

lemma wr_polls:
  assumes "chip_run (map (\<lambda>w. Reg_read ECAT_PRAM_WR_CMD (le_bytes 4 w)) ws) c c'"
    and "polled wr_fifo_wait ws"
  shows "\<exists>n \<ge> 32. c' = c\<lparr>wr_shown := n\<rparr>"
proof -
  have "c'\<lparr>wr_shown := 0\<rparr> = c\<lparr>wr_shown := 0\<rparr> \<and> 32 \<le> wr_shown c'"
    by (rule chip_run_polls [OF assms, where f = "\<lambda>c. c\<lparr>wr_shown := 0\<rparr>"
          and Q = "\<lambda>c c'. c'\<lparr>wr_shown := 0\<rparr> = c \<and> 32 \<le> wr_shown c'"])
      (auto simp: on_read_def wr_fifo_wait_def word_less_nat_alt split: if_splits)
  then show ?thesis by (cases c; cases c') simp
qed

subsection \<open>The four transfers\<close>

lemma csr_decode_bytes: "csr_decode [Byte a 0, Byte a 1, n, cmd] = (cmd, unat (a :: u16), unat n)"
proof -
  have "unat a < 2 ^ LENGTH(16)" by (rule unsigned_less)
  then have "unat (Byte a 0) + 256 * unat (Byte a 1) = unat a"
    by (simp add: slice_get_def unsigned_ucast_eq take_bit_eq_mod drop_bit_eq_div unat_div_distrib)
  then show ?thesis by (simp add: csr_decode_def halves_def)
qed

lemma csr_read_on_chip:
  assumes "chip_run (csr_read_actions a ws bs) c c'" and "polled csr_busy ws" and "csr_op c = None"
    and "length bs < 256"
  shows "bs = load (unat a) (length bs) (esc_mem c)" and "c' = c\<lparr>csr_data := bs\<rparr>"
proof -
  let ?c1 = "c\<lparr>csr_op := Some (ESC_READ, unat a, length bs)\<rparr>"
  have len: "unat (of_nat (length bs) :: u8) = length bs"
    using assms(4) by (simp add: unat_of_nat)
  from assms(1,3) obtain c2 where polls: "chip_run (csr_poll_actions ws) ?c1 c2"
    and rd: "on_read ECAT_CSR_DATA bs c2 c'"
    by (auto simp: csr_read_actions_def chip_run_append on_write_def csr_decode_bytes len simp del: One_nat_def)
  from csr_polls [OF polls assms(2)] assms(3)
  have c2: "c2 = c\<lparr>csr_data := load (unat a) (length bs) (esc_mem c)\<rparr>"
    by (cases c) (simp add: csr_finish_def)
  with rd assms(3) show "bs = load (unat a) (length bs) (esc_mem c)" by (simp add: on_read_def)
  with rd c2 assms(3) show "c' = c\<lparr>csr_data := bs\<rparr>" by (simp add: on_read_def)
qed

lemma csr_write_on_chip:
  assumes "chip_run (Reg_write ECAT_CSR_DATA bs #
      Reg_write ECAT_CSR_CMD [Byte a 0, Byte a 1, 4, ESC_WRITE] # csr_poll_actions ws) c c'"
    and "polled csr_busy ws" and "csr_op c = None" and "length bs = 4"
  shows "c' = c\<lparr>csr_data := bs, esc_mem := store (unat (a :: u16)) bs (esc_mem c)\<rparr>"
proof -
  let ?c1 = "c\<lparr>csr_data := bs, csr_op := Some (ESC_WRITE, unat a, 4)\<rparr>"
  from assms(1,3) have "chip_run (csr_poll_actions ws) ?c1 c'"
    by (auto simp: on_write_def csr_decode_bytes simp del: One_nat_def)
  from csr_polls [OF this assms(2)] assms(3,4) show ?thesis
    by (cases c) (simp add: csr_finish_def)
qed

lemma area_bytes:
  "halves (le_bytes 4 (0x00201000 :: ULONG)) = (0x1000, 32)"
  "halves (le_bytes 4 (0x00201200 :: ULONG)) = (0x1200, 32)"
  "starts (le_bytes 4 (0x80000000 :: ULONG))"
  by (simp_all add: halves_def starts_def slice_get_def)

lemma fifo_read_on_chip:
  assumes "chip_run (fifo_read_actions ws bs) c c'" and "polled rd_fifo_wait ws" and "length bs = 32"
  shows "bs = load 0x1000 32 (esc_mem c)" and "esc_mem c' = esc_mem c" and "csr_op c' = csr_op c"
    and "sys_regs c' = sys_regs c"
proof -
  let ?c1 = "c\<lparr>rd_area := (0x1000, 32), rd_left := (0x1000, 32), rd_shown := 0\<rparr>"
  from assms(1) obtain c2 where
    polls: "chip_run (map (\<lambda>w. Reg_read ECAT_PRAM_RD_CMD (le_bytes 4 w)) ws) ?c1 c2"
    and rd: "on_read ECAT_PRAM_RD_DATA bs c2 c'"
    by (auto simp: fifo_read_actions_def chip_run_append on_write_def area_bytes)
  have c2: "c2 = ?c1\<lparr>rd_shown := 32\<rparr>" by (rule rd_polls [OF polls assms(2)])
  with rd assms(3) have "bs = load 0x1000 32 (esc_mem c) \<and>
      c' = c2\<lparr>rd_left := advance 32 (rd_left c2), rd_shown := rd_shown c2 - 32\<rparr>"
    by (simp add: on_read_def)
  with c2 show "bs = load 0x1000 32 (esc_mem c)" "esc_mem c' = esc_mem c" "csr_op c' = csr_op c"
    "sys_regs c' = sys_regs c"
    by simp_all
qed

lemma fifo_write_on_chip:
  assumes "chip_run (fifo_write_actions ws bs) c c'" and "polled wr_fifo_wait ws" and "length bs = 32"
  shows "esc_mem c' = store 0x1200 bs (esc_mem c)" and "csr_op c' = csr_op c"
    and "sys_regs c' = sys_regs c"
proof -
  let ?c1 = "c\<lparr>wr_area := (0x1200, 32), wr_left := (0x1200, 32), wr_shown := 0\<rparr>"
  from assms(1) obtain c2 where
    polls: "chip_run (map (\<lambda>w. Reg_read ECAT_PRAM_WR_CMD (le_bytes 4 w)) ws) ?c1 c2"
    and wr: "on_write ECAT_PRAM_WR_DATA bs c2 c'"
    by (auto simp: fifo_write_actions_def chip_run_append on_write_def area_bytes)
  from wr_polls [OF polls assms(2)] obtain n where "32 \<le> n" "c2 = ?c1\<lparr>wr_shown := n\<rparr>"
    by blast
  with wr assms(3) show "esc_mem c' = store 0x1200 bs (esc_mem c)" "csr_op c' = csr_op c"
    "sys_regs c' = sys_regs c"
    by (simp_all add: on_write_def)
qed

subsection \<open>A cycle and the start-up\<close>

lemma status_on_chip:
  assumes "chip_run (csr_read_actions WDOG_STATUS ws1 [wd] @ csr_read_actions AL_STATUS_REG_0 ws2 [al] @
      rest) c c'"
    and "polled csr_busy ws1" and "polled csr_busy ws2" and "csr_op c = None"
  shows "\<exists>c2. chip_run rest c2 c' \<and> esc_mem c2 = esc_mem c \<and> csr_op c2 = None \<and> sys_regs c2 = sys_regs c \<and>
    wd = esc_mem c (unat WDOG_STATUS) \<and> al = esc_mem c (unat AL_STATUS_REG_0)"
proof -
  from assms(1) obtain c1 c2 where r1: "chip_run (csr_read_actions WDOG_STATUS ws1 [wd]) c c1"
    and r2: "chip_run (csr_read_actions AL_STATUS_REG_0 ws2 [al]) c1 c2" and r3: "chip_run rest c2 c'"
    by (auto simp: chip_run_append)
  from csr_read_on_chip [OF r1 assms(2,4)] have wd: "wd = esc_mem c (unat WDOG_STATUS)"
    and c1: "c1 = c\<lparr>csr_data := [wd]\<rparr>" by simp_all
  from c1 assms(4) have "csr_op c1 = None" by simp
  from csr_read_on_chip [OF r2 assms(3) this] c1 have "al = esc_mem c (unat AL_STATUS_REG_0)"
    and "c2 = c\<lparr>csr_data := [al]\<rparr>" by simp_all
  with wd r3 assms(4) show ?thesis by auto
qed

lemma cycle_on_chip:
  assumes "cycle_spec ob as st ob'" and "chip_run as c c'" and "csr_op c = None"
  shows "st = cycle_status (esc_mem c (unat WDOG_STATUS)) (esc_mem c (unat AL_STATUS_REG_0)) \<and>
    (\<exists>out. cur_output ob = Some out \<and> esc_mem c' = store 0x1200 (le_bytes 32 out) (esc_mem c)) \<and>
    (st = ESM_OP \<longrightarrow> le_bytes 32 (m_BufferOutEthToSlaveBuffer ob') = load 0x1000 32 (esc_mem c)) \<and>
    csr_op c' = None \<and> sys_regs c' = sys_regs c"
  using assms(1)
proof cases
  case (operational wd al out ws1 ws2 ws3 ws4 b)
  from status_on_chip [OF assms(2) [unfolded operational(1)] operational(6,7) assms(3)] obtain c2 where
    c2: "chip_run (fifo_read_actions ws3 (le_bytes 32 b) @ fifo_write_actions ws4 (le_bytes 32 out)) c2 c'"
    "esc_mem c2 = esc_mem c" "csr_op c2 = None" "sys_regs c2 = sys_regs c"
    and status: "wd = esc_mem c (unat WDOG_STATUS)" "al = esc_mem c (unat AL_STATUS_REG_0)"
    by blast
  then obtain c3 where rd: "chip_run (fifo_read_actions ws3 (le_bytes 32 b)) c2 c3"
    and wr: "chip_run (fifo_write_actions ws4 (le_bytes 32 out)) c3 c'"
    by (auto simp: chip_run_append)
  note rd = fifo_read_on_chip [OF rd operational(8) length_le_bytes]
    and wr = fifo_write_on_chip [OF wr operational(9) length_le_bytes]
  from operational(2,3,5) status rd wr c2(2-4) show ?thesis by simp
next
  case (safe wd al out ws1 ws2 ws4)
  from status_on_chip [OF assms(2) [unfolded safe(1)] safe(6,7) assms(3)] obtain c2 where
    wr: "chip_run (fifo_write_actions ws4 (le_bytes 32 out)) c2 c'"
    and c2: "esc_mem c2 = esc_mem c" "csr_op c2 = None" "sys_regs c2 = sys_regs c"
    and status: "wd = esc_mem c (unat WDOG_STATUS)" "al = esc_mem c (unat AL_STATUS_REG_0)"
    by blast
  note wr = fifo_write_on_chip [OF wr safe(8) length_le_bytes]
  from safe(2,4) have "st \<noteq> ESM_OP" using cycle_status_operational by simp
  with safe(2,5) status wr c2 show ?thesis by simp
qed

text \<open>The interrupt set-up.\<close>

lemma irq_on_chip:
  assumes "chip_run (irq_actions ws h) c c'" and "polled csr_busy ws" and "csr_op c = None"
  shows "load (unat AL_EVENT_MASK_REG_0) 4 (esc_mem c') = le_bytes 4 (0x100 :: ULONG)"
    and "sys_regs c' IRQ_CFG = le_bytes 4 (0x111 :: ULONG)"
    and "sys_regs c' INT_EN = le_bytes 4 (1 :: ULONG)" and "csr_op c' = None"
proof -
  let ?w = "Reg_write ECAT_CSR_DATA (le_bytes 4 (0x100 :: ULONG)) # Reg_write ECAT_CSR_CMD
        [Byte AL_EVENT_MASK_REG_0 0, Byte AL_EVENT_MASK_REG_0 1, 4, ESC_WRITE] # csr_poll_actions ws"
  let ?r = "[Reg_write IRQ_CFG (le_bytes 4 (0x111 :: ULONG)),
      Reg_write INT_EN (le_bytes 4 (1 :: ULONG)), Ext (Open_RDWR ''/dev/gpioirq'') h]"
  have "irq_actions ws h = ?w @ ?r" by (simp add: irq_actions_def)
  with assms(1) have "chip_run (?w @ ?r) c c'" by (simp only:)
  then obtain c1 where w: "chip_run ?w c c1" and r: "chip_run ?r c1 c'"
    unfolding chip_run_append by blast
  from r have c': "c' = c1\<lparr>sys_regs := (sys_regs c1)(IRQ_CFG := le_bytes 4 (0x111 :: ULONG),
      INT_EN := le_bytes 4 (1 :: ULONG))\<rparr>"
    by (simp add: on_write_def)
  from csr_write_on_chip [OF w assms(2,3) length_le_bytes] have
    "esc_mem c1 = store (unat AL_EVENT_MASK_REG_0) (le_bytes 4 (0x100 :: ULONG)) (esc_mem c)"
    "csr_op c1 = None" using assms(3) by simp_all
  with c' show "load (unat AL_EVENT_MASK_REG_0) 4 (esc_mem c') = le_bytes 4 (0x100 :: ULONG)"
    "sys_regs c' IRQ_CFG = le_bytes 4 (0x111 :: ULONG)" "sys_regs c' INT_EN = le_bytes 4 (1 :: ULONG)"
    "csr_op c' = None"
    using load_store [of _ "le_bytes 4 (0x100 :: ULONG)"] by simp_all
qed

text \<open>Start-up, when it succeeds.\<close>

lemma setup_on_chip: "chip_run (spi_setup_actions r s rs) c c' \<Longrightarrow> c' = c"
  unfolding spi_setup_actions_def chip_run_append by (auto dest: chip_run_calls)

lemma check_on_chip: "chip_check cs b \<Longrightarrow> chip_run cs c c' \<Longrightarrow> c' = c"
  by (erule chip_check.cases) (auto simp: on_read_def)

lemma reset_on_chip: "chip_run (reset_actions r1 r2 t) c c' \<Longrightarrow> csr_op c' = None"
  by (auto simp: reset_actions_def on_write_def on_read_def)

lemma init_on_chip:
  assumes "init_spec as 0 h" and "chip_run as c c'" and "csr_op c = None"
  shows "\<exists>c1 ws x. chip_run (irq_actions ws x) c1 c' \<and> polled csr_busy ws \<and> csr_op c1 = None"
  using assms(1)
proof cases
  case (healthy r s rs cs ws x)
  from assms(2) obtain c1 c2 where c1: "chip_run (spi_setup_actions r s rs) c c1"
    and c2: "chip_run cs c1 c2" and irq: "chip_run (irq_actions ws x) c2 c'"
    unfolding healthy(1) chip_run_append by blast
  from check_on_chip [OF healthy(7) c2] setup_on_chip [OF c1] assms(3) have "csr_op c2 = None" by simp
  with irq healthy(8) show ?thesis by blast
next
  case (revived r s rs cs ws r1 r2 x)
  from assms(2) obtain c2 c3 where irq: "chip_run (irq_actions ws x) c3 c'"
    and c3: "chip_run (reset_actions r1 r2 TEST_PATTERN) c2 c3"
    unfolding revived(1) chip_run_append by blast
  from reset_on_chip [OF c3] irq revived(8) show ?thesis by blast
qed simp_all

subsection \<open>Runs that a chip follows\<close>

definition gives_data :: "action \<Rightarrow> bool" where
  "gives_data a \<longleftrightarrow> (\<exists>bs. a = Reg_read ECAT_CSR_DATA bs \<or> a = Reg_read ECAT_PRAM_RD_DATA bs)"

lemma ex_if: "(\<exists>x. if b then P x else Q x) \<longleftrightarrow> (if b then \<exists>x. P x else \<exists>x. Q x)"
  by simp

lemma on_write_total: "\<exists>c'. on_write a bs c c'"
proof -
  have "\<exists>c' :: lan9252. csr_op c' = None" by (rule exI [of _ "c\<lparr>csr_op := None\<rparr>"]) simp
  then show ?thesis unfolding on_write_def ex_if by simp
qed

lemma chip_step_total: "\<not> gives_data a \<Longrightarrow> \<exists>c'. chip_step a c c'"
  by (cases a) (auto simp: gives_data_def on_write_total on_read_def)

lemma chip_run_total: "\<forall>a \<in> set as. \<not> gives_data a \<Longrightarrow> \<exists>c'. chip_run as c c'"
proof (induction as arbitrary: c)
  case Nil
  then show ?case by simp
next
  case (Cons a as)
  then obtain c1 where "chip_step a c c1" using chip_step_total by fastforce
  with Cons show ?case by fastforce
qed

lemma csr_read_followed:
  assumes "bs = load (unat a) (length bs) (esc_mem c)" and "polled csr_busy ws" and "csr_op c = None"
    and "length bs < 256"
  shows "\<exists>c'. chip_run (csr_read_actions a ws bs) c c'"
proof -
  let ?c1 = "c\<lparr>csr_op := Some (ESC_READ, unat a, length bs)\<rparr>"
  have len: "unat (of_nat (length bs) :: u8) = length bs"
    using assms(4) by (simp add: unat_of_nat)
  obtain c2 where p: "chip_run (csr_poll_actions ws) ?c1 c2"
    using chip_run_total [of "csr_poll_actions ws"] by (auto simp: csr_poll_actions_def gives_data_def)
  with csr_polls [OF p assms(2)] assms(1,3) have "c2 = c\<lparr>csr_data := bs\<rparr>"
    by (cases c) (simp add: csr_finish_def)
  with assms(3) have "on_read ECAT_CSR_DATA bs c2 c2" by (simp add: on_read_def)
  with p assms(3) have "chip_run (csr_read_actions a ws bs) c c2"
    by (auto simp: csr_read_actions_def chip_run_append on_write_def csr_decode_bytes len simp del: One_nat_def)
  then show ?thesis ..
qed

lemma fifo_read_followed:
  assumes "bs = load 0x1000 32 (esc_mem c)" and "polled rd_fifo_wait ws" and "length bs = 32"
  shows "\<exists>c'. chip_run (fifo_read_actions ws bs) c c'"
proof -
  let ?c1 = "c\<lparr>rd_area := (0x1000, 32), rd_left := (0x1000, 32), rd_shown := 0\<rparr>"
  obtain c2 where p: "chip_run (map (\<lambda>w. Reg_read ECAT_PRAM_RD_CMD (le_bytes 4 w)) ws) ?c1 c2"
    using chip_run_total [of "map (\<lambda>w. Reg_read ECAT_PRAM_RD_CMD (le_bytes 4 w)) ws"]
    by (auto simp: gives_data_def)
  from rd_polls [OF p assms(2)] assms(1,3) have "\<exists>c3. on_read ECAT_PRAM_RD_DATA bs c2 c3"
    by (auto simp: on_read_def)
  with p have "\<exists>c3. chip_run (fifo_read_actions ws bs) c c3"
    by (auto simp: fifo_read_actions_def chip_run_append on_write_def area_bytes)
  then show ?thesis .
qed

lemma status_followed:
  assumes "polled csr_busy ws1" "polled csr_busy ws2" "csr_op c0 = None"
    and "wd = esc_mem c0 (unat WDOG_STATUS)" and "al = esc_mem c0 (unat AL_STATUS_REG_0)"
  shows "\<exists>c. csr_op c = None \<and> esc_mem c = esc_mem c0 \<and>
      chip_run (csr_read_actions WDOG_STATUS ws1 [wd] @ csr_read_actions AL_STATUS_REG_0 ws2 [al]) c0 c"
proof -
  obtain c1 where r1: "chip_run (csr_read_actions WDOG_STATUS ws1 [wd]) c0 c1"
    using csr_read_followed [OF _ assms(1,3), of "[wd]" WDOG_STATUS] assms(4) by auto
  with csr_read_on_chip(2) [OF r1 assms(1,3)] have c1: "c1 = c0\<lparr>csr_data := [wd]\<rparr>" by simp
  with assms(3) have idle: "csr_op c1 = None" by simp
  obtain c2 where r2: "chip_run (csr_read_actions AL_STATUS_REG_0 ws2 [al]) c1 c2"
    using csr_read_followed [OF _ assms(2) idle, of "[al]" AL_STATUS_REG_0] assms(5) c1 by auto
  with csr_read_on_chip(2) [OF r2 assms(2) idle] c1 have "c2 = c0\<lparr>csr_data := [al]\<rparr>" by simp
  moreover have "chip_run (csr_read_actions WDOG_STATUS ws1 [wd] @
      csr_read_actions AL_STATUS_REG_0 ws2 [al]) c0 c2"
    unfolding chip_run_append using r1 r2 by blast
  ultimately show ?thesis using assms(3) by (intro exI [of _ c2]) simp
qed

text \<open>Any cycle is what the code does on some chip.\<close>

lemma cycle_followed:
  assumes "cycle_spec ob as st ob'"
  shows "\<exists>c c'. chip_run as c c' \<and> csr_op c = None"
proof -
  define chip :: "u8 \<Rightarrow> u8 \<Rightarrow> u8 list \<Rightarrow> lan9252" where
    "chip wd al bs = undefined\<lparr>csr_op := None,
       esc_mem := store 0x1000 bs (\<lambda>i. if i = 0x0440 then wd else al)\<rparr>" for wd al bs
  have writable: "\<exists>c'. chip_run (fifo_write_actions ws bs) c c'" for ws bs c
    by (rule chip_run_total) (auto simp: fifo_write_actions_def gives_data_def)
  show ?thesis using assms
  proof cases
    case (operational wd al out ws1 ws2 ws3 ws4 b)
    obtain c2 where c2: "chip_run (csr_read_actions WDOG_STATUS ws1 [wd] @
        csr_read_actions AL_STATUS_REG_0 ws2 [al]) (chip wd al (le_bytes 32 b)) c2"
      and mem: "load 0x1000 32 (esc_mem c2) = le_bytes 32 b"
      using status_followed [OF operational(6,7), where ?c0.0 = "chip wd al (le_bytes 32 b)" and wd = wd and al = al]
        load_store [where a = "0x1000" and bs = "le_bytes 32 b"] by (auto simp: chip_def store_other)
    then obtain c3 where "chip_run (fifo_read_actions ws3 (le_bytes 32 b)) c2 c3"
      using fifo_read_followed [OF _ operational(8), of "le_bytes 32 b" c2] by auto
    with c2 writable [of ws4 "le_bytes 32 out"] have "\<exists>c'. chip_run as (chip wd al (le_bytes 32 b)) c'"
      unfolding operational(1) chip_run_append by blast
    moreover have "csr_op (chip wd al (le_bytes 32 b)) = None" by (simp add: chip_def)
    ultimately show ?thesis by blast
  next
    case (safe wd al out ws1 ws2 ws4)
    obtain c2 where "chip_run (csr_read_actions WDOG_STATUS ws1 [wd] @
        csr_read_actions AL_STATUS_REG_0 ws2 [al]) (chip wd al []) c2"
      using status_followed [OF safe(6,7), where ?c0.0 = "chip wd al []" and wd = wd and al = al] by (auto simp: chip_def store_other)
    with writable [of ws4 "le_bytes 32 out"] have "\<exists>c'. chip_run as (chip wd al []) c'"
      unfolding safe(1) chip_run_append by blast
    moreover have "csr_op (chip wd al []) = None" by (simp add: chip_def)
    ultimately show ?thesis by blast
  qed
qed

text \<open>Any start-up is too, on every chip.\<close>

lemma init_followed:
  assumes "init_spec as err h"
  shows "\<exists>c'. chip_run as c c'"
proof (rule chip_run_total)
  have calls: "a \<in> set (map2 Ext cs rs) \<Longrightarrow> \<not> gives_data a" for a cs rs
    by (auto simp: gives_data_def dest: set_zip_leftD)
  then have begins: "\<forall>a \<in> set (spi_setup_actions r s rs). \<not> gives_data a" for r s rs
    unfolding spi_setup_actions_def by (auto simp: gives_data_def)
  have check: "chip_check cs b \<Longrightarrow> \<forall>a \<in> set cs. \<not> gives_data a" for cs b
    by (erule chip_check.cases) (auto simp: gives_data_def)
  have irq: "\<forall>a \<in> set (irq_actions ws x). \<not> gives_data a" for ws x
    by (auto simp: irq_actions_def csr_poll_actions_def gives_data_def)
  have reset: "\<forall>a \<in> set (reset_actions r1 r2 t). \<not> gives_data a" for r1 r2 t
    by (auto simp: reset_actions_def gives_data_def)
  show "\<forall>a \<in> set as. \<not> gives_data a"
    using assms
    by cases (use begins irq reset in \<open>auto simp: gives_data_def [of "Ext c r" for c r] dest: check\<close>)
qed

text \<open>A write and a read of a core register by a bus that answers every frame with the same bytes.\<close>

lemma Read_Reg_Wait_bench_4:
  assumes "\<not> csr_busy (word_of_bytes (f 3) (f 4) (f 5) (f 6))"
  shows "\<exists>m'. Read_Reg_Wait (bench R f) a 4 m =
    Some (ucast (word_of_bytes (f 3) (f 4) (f 5) (f 6)), m')"
proof -
  let ?v = "word_of_bytes (f 3) (f 4) (f 5) (f 6)"
  obtain w m1 where "poll (Read_Long (bench R f) ECAT_CSR_CMD) csr_busy
      (Write_Reg (bench R f) ECAT_CSR_CMD
         (ucast (csr_command (indet (bench R f) (env m)) a 4 ESC_READ)) m) = Some (w, m1)"
    using poll_bench [where busy = csr_busy and f = f, OF assms] by blast
  moreover obtain m2 where "Read_Long (bench R f) ECAT_CSR_DATA m1 = Some (?v, m2)"
    using Read_Long_bench by blast
  then obtain r where "Read_Reg (bench R f) ECAT_CSR_DATA 4 m1 = Some (r, m2)" "ucast r = ?v"
    by (auto simp: Read_Long_def bind_Some_iff)
  ultimately show ?thesis by (simp add: Read_Reg_Wait_def Let_def)
qed

lemma roundtrip_followed:
  assumes "Write_Reg_Wait E a v m = Some m1"
    and "Read_Reg_Wait E a 4 m1 = Some (ucast (ucast v :: ULONG), m2)"
  shows "\<exists>as c c'. emits m m2 as \<and> chip_run as c c' \<and> csr_op c = None"
proof -
  let ?bs = "le_bytes 4 (ucast v :: ULONG)"
  obtain ws1 where p1: "polled csr_busy ws1"
    and e1: "emits m m1 (Reg_write ECAT_CSR_DATA ?bs #
        Reg_write ECAT_CSR_CMD [Byte a 0, Byte a 1, 4, ESC_WRITE] # csr_poll_actions ws1)" (is "emits m m1 ?w")
    using Write_Reg_Wait_emits [OF assms(1)] by blast
  obtain ws2 where p2: "polled csr_busy ws2" and e2: "emits m1 m2 (csr_read_actions a ws2 ?bs)"
    using Read_Reg_Wait_emits(1) [OF assms(2)] by (auto simp: csr_read_actions_def)
  define c :: lan9252 where "c = undefined\<lparr>csr_op := None\<rparr>"
  have idle: "csr_op c = None" by (simp add: c_def)
  obtain c1 where w: "chip_run ?w c c1"
    using chip_run_total [of ?w c] by (auto simp: gives_data_def csr_poll_actions_def)
  from csr_write_on_chip [OF w p1 idle length_le_bytes] idle
  have "load (unat a) (length ?bs) (esc_mem c1) = ?bs" and "csr_op c1 = None"
    using load_store [of "unat a" ?bs] by simp_all
  from csr_read_followed [OF this(1) [symmetric] p2 this(2)] w have
    "\<exists>c'. chip_run (?w @ csr_read_actions a ws2 ?bs) c c'"
    unfolding chip_run_append by auto
  with emits_trans [OF e1 e2] idle show ?thesis by blast
qed

subsection \<open>Properties\<close>

text \<open>C16: What \<open>Write_Reg_Wait\<close> stores in a register of the EtherCAT core is there, and
  \<open>Read_Reg_Wait\<close> gives it back: on a chip that behaves as documented, a write of 32 bits followed by a
  read of up to four bytes of the same register gives the first bytes of the word that was written,
  and nothing else in the memory of the core has changed.\<close>

theorem csr_roundtrip:
  assumes "Write_Reg_Wait E a v m = Some m1" and "Read_Reg_Wait E a n m1 = Some (r, m2)"
    and "emits m m2 as" and "chip_run as c c'" and "csr_op c = None"
  shows "le_bytes (unat n) (ucast r :: ULONG) = le_bytes (unat n) (ucast v :: ULONG) \<and>
    (n = 4 \<longrightarrow> r = ucast (ucast v :: ULONG)) \<and>
    esc_mem c' = store (unat a) (le_bytes 4 (ucast v :: ULONG)) (esc_mem c)"
proof -
  let ?v = "ucast v :: ULONG" and ?r = "ucast r :: ULONG"
  obtain ws1 where p1: "polled csr_busy ws1"
    and e1: "emits m m1 (Reg_write ECAT_CSR_DATA (le_bytes 4 ?v) #
        Reg_write ECAT_CSR_CMD [Byte a 0, Byte a 1, 4, ESC_WRITE] # csr_poll_actions ws1)" (is "emits m m1 ?w")
    using Write_Reg_Wait_emits [OF assms(1)] by blast
  obtain ws2 where p2: "polled csr_busy ws2" and e2: "emits m1 m2 (csr_read_actions a ws2 (le_bytes (unat n) ?r))"
    using Read_Reg_Wait_emits(1) [OF assms(2)] by (auto simp: csr_read_actions_def)
  have n: "unat n \<le> 4" by (rule Read_Reg_Wait_emits(3) [OF assms(2)])
  from assms(4) obtain c1 where w: "chip_run ?w c c1"
    and rd: "chip_run (csr_read_actions a ws2 (le_bytes (unat n) ?r)) c1 c'"
    unfolding emits_unique [OF assms(3) emits_trans [OF e1 e2]] chip_run_append by blast
  from csr_write_on_chip [OF w p1 assms(5) length_le_bytes] assms(5)
  have c1: "esc_mem c1 = store (unat a) (le_bytes 4 ?v) (esc_mem c)" "csr_op c1 = None" by simp_all
  from csr_read_on_chip [OF rd p2 c1(2)] n have
    r: "le_bytes (unat n) ?r = load (unat a) (unat n) (esc_mem c1)" and c': "esc_mem c' = esc_mem c1"
    by simp_all
  have "load (unat a) (unat n) (esc_mem c1) = le_bytes (unat n) ?v"
    using n by (intro nth_equalityI) (simp_all add: load_def c1(1) store_def)
  with r have bytes: "le_bytes (unat n) ?r = le_bytes (unat n) ?v" by simp
  have "r = ucast ?v" if "n = 4"
    using bytes that le_bytes_inject32 [of ?r ?v] Read_Reg_Wait_emits(2) [OF assms(2)] by simp
  with bytes c1(1) c' show ?thesis by simp
qed

theorem csr_roundtrip_witness:
  "\<exists>E :: nat platform. \<exists>m1 m2 as c c'. Write_Reg_Wait E 0x0204 0x12345678 (start 0) = Some m1 \<and>
     Read_Reg_Wait E 0x0204 4 m1 = Some (0x12345678, m2) \<and> emits (start 0) m2 as \<and>
     chip_run as c c' \<and> csr_op c = None \<and> load 0x0204 4 (esc_mem c') = [0x78, 0x56, 0x34, 0x12]"
proof -
  define f :: "nat \<Rightarrow> u8" where
    "f n = Byte (0x12345678 :: ULONG) (n - 3)" for n
  let ?E = "bench (\<lambda>c. 1) f"
  have v: "word_of_bytes (f 3) (f 4) (f 5) (f 6) = (0x12345678 :: ULONG)"
    by (simp add: f_def word_of_bytes_Byte [simplified])
  have idle: "\<not> csr_busy (word_of_bytes (f 3) (f 4) (f 5) (f 6))"
    unfolding v by (simp add: csr_busy_def slice_get_def)
  obtain m1 where w: "Write_Reg_Wait ?E 0x0204 0x12345678 (start 0) = Some m1"
    using csr_bench(2) [of f, OF idle, where n = 4] by fastforce
  obtain m2 where r: "Read_Reg_Wait ?E 0x0204 4 m1 = Some (0x12345678, m2)"
    using Read_Reg_Wait_bench_4 [of f, OF idle] unfolding v by fastforce
  obtain as c c' where c: "emits (start 0) m2 as" "chip_run as c c'" "csr_op c = None"
    using roundtrip_followed [OF w, of m2] r by auto
  have "load 0x0204 4 (esc_mem c') = le_bytes 4 (0x12345678 :: ULONG)"
    using csr_roundtrip [OF w r c] load_store [of "0x0204" "le_bytes 4 (0x12345678 :: ULONG)"] by simp
  also have "\<dots> = [0x78, 0x56, 0x34, 0x12]"
    by (simp add: le_bytes_def upt_4 slice_get_def)
  finally have "load 0x0204 4 (esc_mem c') = [0x78, 0x56, 0x34, 0x12]" .
  with w r c show ?thesis by blast
qed

text \<open>C9: One cycle exchanges the process data. On a chip that behaves as documented the result of
  \<open>MainTask\<close> is the state and the watchdog of the chip; the 32 bytes at 0x1200 of the process RAM are then
  the newest output of the application, no other byte of the chip's memory has changed, and neither has
  any of the chip's registers but those of the CSR port and of the two FIFOs; no command of the CSR port is
  left in execution; and in state OP the application's input buffer holds the 32 bytes at 0x1000.\<close>

theorem MainTask_exchanges:
  assumes "MainTask E ob m = Some (st, ob', m')" and "emits m m' as" and "chip_run as c c'"
    and "csr_op c = None"
  shows "st = cycle_status (esc_mem c (unat WDOG_STATUS)) (esc_mem c (unat AL_STATUS_REG_0)) \<and>
    (\<exists>out. cur_output ob = Some out \<and> esc_mem c' = store 0x1200 (le_bytes 32 out) (esc_mem c)) \<and>
    (st = ESM_OP \<longrightarrow> le_bytes 32 (m_BufferOutEthToSlaveBuffer ob') = load 0x1000 32 (esc_mem c)) \<and>
    csr_op c' = None \<and> sys_regs c' = sys_regs c"
proof -
  obtain bs where e: "emits m m' bs" and spec: "cycle_spec ob bs st ob'"
    using MainTask_cycle [OF assms(1)] by blast
  show ?thesis
    by (rule cycle_on_chip [OF spec]) (use assms(3,4) emits_unique [OF assms(2) e] in simp_all)
qed

theorem MainTask_exchanges_witness:
  "\<exists>ob' m' as c c' out. MainTask up_chip (static_object real_fpu) (start ([], 0)) = Some (ESM_OP, ob', m') \<and>
     emits (start ([], 0)) m' as \<and> chip_run as c c' \<and> csr_op c = None \<and>
     cur_output (static_object real_fpu) = Some out \<and>
     esc_mem c' = store 0x1200 (le_bytes 32 out) (esc_mem c) \<and>
     le_bytes 32 (m_BufferOutEthToSlaveBuffer ob') = load 0x1000 32 (esc_mem c) \<and>
     sys_regs c' INT_EN = sys_regs c INT_EN \<and> sys_regs c' IRQ_CFG = sys_regs c IRQ_CFG"
proof -
  obtain ob' m' where run: "MainTask up_chip (static_object real_fpu) (start ([], 0)) = Some (ESM_OP, ob', m')"
    using MainTask_up_chip [OF static_object_bounds] by blast
  obtain as where as: "emits (start ([], 0)) m' as" "cycle_spec (static_object real_fpu) as ESM_OP ob'"
    using MainTask_cycle [OF run] by blast
  obtain c c' where c: "chip_run as c c'" "csr_op c = None" using cycle_followed [OF as(2)] by blast
  show ?thesis using MainTask_exchanges [OF run as(1) c] run as(1) c by metis
qed

text \<open>C17: Start-up arms the chip: when \<open>init\<close> succeeds on a chip that behaves as documented, whether
  or not a reset was needed, then the event mask of the EtherCAT core is 0x100 and the interrupt configuration
  and the interrupt enable register hold what the cyclic thread needs to get its interrupts.\<close>

theorem init_arms_chip:
  assumes "init E ob m = Some (0, ob', m')" and "emits m m' as" and "chip_run as c c'"
    and "csr_op c = None"
  shows "load (unat AL_EVENT_MASK_REG_0) 4 (esc_mem c') = le_bytes 4 (0x100 :: ULONG) \<and>
    sys_regs c' IRQ_CFG = le_bytes 4 (0x111 :: ULONG) \<and>
    sys_regs c' INT_EN = le_bytes 4 (1 :: ULONG) \<and> csr_op c' = None"
proof -
  obtain bs h where e: "emits m m' bs" and spec: "init_spec bs 0 h"
    using init_emits [OF assms(1)] by blast
  have "chip_run bs c c'" using assms(3) emits_unique [OF assms(2) e] by simp
  from init_on_chip [OF spec this assms(4)] show ?thesis using irq_on_chip by blast
qed

theorem init_arms_chip_witness:
  "\<exists>ob' m' as c c'. init up_chip (raw_shield real_fpu) (start ([], 0)) = Some (0, ob', m') \<and>
     emits (start ([], 0)) m' as \<and> chip_run as c c' \<and> csr_op c = None \<and>
     load (unat AL_EVENT_MASK_REG_0) 4 (esc_mem c') = le_bytes 4 (0x100 :: ULONG) \<and>
     sys_regs c' IRQ_CFG = le_bytes 4 (0x111 :: ULONG) \<and>
     sys_regs c' INT_EN = le_bytes 4 (1 :: ULONG) \<and> csr_op c' = None"
proof -
  obtain ob' m' where run: "init up_chip (raw_shield real_fpu) (start ([], 0)) = Some (0, ob', m')"
    using init_up_chip by blast
  obtain as h where as: "emits (start ([], 0)) m' as" "init_spec as 0 h"
    using init_emits [OF run] by blast
  have idle: "csr_op (undefined\<lparr>csr_op := None\<rparr> :: lan9252) = None" by simp
  obtain c' where c: "chip_run as (undefined\<lparr>csr_op := None\<rparr>) c'" using init_followed [OF as(2)] by blast
  show ?thesis using init_arms_chip [OF run as(1) c idle] run as(1) c idle by blast
qed

end
