(* ===== verification/Chip_System.thy ===== *)
theory Chip_System
  imports Slave_System Lan9252
begin

section \<open>The rounds of the program on a chip that behaves as documented\<close>

text \<open>
  What the rounds of the two threads (\<open>Slave_System\<close>) do to the memory of a chip that follows their
  accesses (\<open>Lan9252\<close>): the rounds of the main program do not touch it, and each round of the
  real-time thread puts the newest message into the process RAM and takes the data of the master
  out of it.
\<close>

definition chip_operational :: "lan9252 \<Rightarrow> bool" where
  "chip_operational c \<longleftrightarrow>
     cycle_operational (esc_mem c (unat WDOG_STATUS)) (esc_mem c (unat AL_STATUS_REG_0))"

text \<open>The state after \<open>n > 0\<close> rounds of the real-time thread: \<open>chip_after\<close> relates the slave and the
  chip before and after.\<close>

definition chip_after :: "slave \<Rightarrow> lan9252 \<Rightarrow> slave \<Rightarrow> lan9252 \<Rightarrow> bool" where
  "chip_after a c a' c' \<longleftrightarrow> csr_op c' = None \<and>
     esc_mem c' = store 0x1200 (le_bytes 32 (sl_out a)) (esc_mem c) \<and>
     sl_out a' = sl_out a \<and> sl_count a' = sl_count a \<and>
     le_bytes 32 (sl_in a') =
       (if chip_operational c then load 0x1000 32 (esc_mem c) else le_bytes 32 (sl_in a))"

lemma store_twice: "store a bs (store a bs mem) = store a bs mem"
  by (rule ext) (simp add: store_def)

lemma chip_after_trans:
  assumes "chip_after a c a1 c1" and "chip_after a1 c1 a' c'"
  shows "chip_after a c a' c'"
proof -
  have mem: "esc_mem c1 = store 0x1200 (le_bytes 32 (sl_out a)) (esc_mem c)"
    using assms(1) by (simp add: chip_after_def)
  then have "chip_operational c1 = chip_operational c"
    by (simp add: chip_operational_def store_other)
  moreover have "load 0x1000 32 (esc_mem c1) = load 0x1000 32 (esc_mem c)"
    by (simp add: load_def mem store_other)
  ultimately show ?thesis using assms mem by (auto simp: chip_after_def store_twice)
qed

lemma round_on_chip:
  "chip_run (round_actions h r as t0 t1 r1 r2) c c' \<longleftrightarrow> chip_run as c c'"
  by (simp add: round_actions_def wait_actions_def chip_run_append)

lemma rt_turn_on_chip:
  assumes "run_turn E F fmt Rt_turn s = Some s'" and "slave_of s a" and "emits (snd s) (snd s') as"
    and "chip_run as c c'" and "csr_op c = None"
  shows "\<exists>a'. slave_of s' a' \<and> chip_after a c a' c'"
proof -
  obtain st m where s: "s = (st, m)" by (cases s)
  from assms(1) obtain ob m' where r: "execute_round E F (ETHB st) m = Some (ob, m')"
    and s': "s' = (st\<lparr>ETHB := ob\<rparr>, m')"
    by (auto simp: s run_turn_def bind_Some_iff)
  from execute_round_emits [OF r] obtain h w bs code ob1 t0 t1 r1 r2 where
    c: "cycle_spec (ETHB st) bs code ob1"
    and e: "emits m m' (round_actions h w bs t0 t1 r1 r2)"
    and ob: "ob = record_times F (ns_of (fst t0) (snd t0)) (ns_of (fst t1) (snd t1)) ob1"
    by blast
  have "as = round_actions h w bs t0 t1 r1 r2" using emits_unique [OF assms(3)] e by (simp add: s s')
  with assms(4) have run: "chip_run bs c c'" by (simp add: round_on_chip)
  have "slave_of s' (a\<lparr>sl_in := m_BufferOutEthToSlaveBuffer ob1\<rparr>)"
    using assms(2) cycle_spec_ring [OF c] cycle_spec_text [OF c]
    by (simp add: slave_of_def main_inv_def s s' ob record_times_frame)
  moreover have "code = ESM_OP \<longleftrightarrow> chip_operational c"
    using cycle_on_chip [OF c run assms(5)] cycle_status_operational
    by (simp add: chip_operational_def)
  moreover have "m_BufferOutEthToSlaveBuffer ob1 = m_BufferOutEthToSlaveBuffer (ETHB st)" if "code \<noteq> ESM_OP"
    using c that cycle_status_operational by (auto elim!: cycle_specE)
  ultimately show ?thesis
    using cycle_on_chip [OF c run assms(5)] assms(2)
    by (intro exI [of _ "a\<lparr>sl_in := m_BufferOutEthToSlaveBuffer ob1\<rparr>"])
      (auto simp: chip_after_def slave_of_def Let_def s)
qed

lemma rt_turns_on_chip:
  assumes "fold_option (run_turn E F fmt) (replicate (Suc n) Rt_turn) s = Some s'" and "slave_of s a"
    and "emits (snd s) (snd s') as" and "chip_run as c c'" and "csr_op c = None"
  shows "\<exists>a'. slave_of s' a' \<and> chip_after a c a' c'"
  using assms
proof (induction n arbitrary: s a as c)
  case 0
  then show ?case using rt_turn_on_chip by (fastforce simp: bind_Some_iff)
next
  case (Suc n)
  from Suc.prems(1) obtain s1 where s1: "run_turn E F fmt Rt_turn s = Some s1"
    and rest: "fold_option (run_turn E F fmt) (replicate (Suc n) Rt_turn) s1 = Some s'"
    by (auto simp: bind_Some_iff)
  from Suc.prems(2) have inv: "main_inv (fst s)" by (simp add: slave_of_def Let_def)
  obtain as1 where e1: "emits (snd s) (snd s1) as1" and inv1: "main_inv (fst s1)"
    using run_turn_emits [OF s1 inv] by blast
  obtain as2 where e2: "emits (snd s1) (snd s') as2" using turns_steps [OF rest inv1] by blast
  from Suc.prems(4) obtain c1 where c1: "chip_run as1 c c1" and c2: "chip_run as2 c1 c'"
    unfolding emits_unique [OF Suc.prems(3) emits_trans [OF e1 e2]] chip_run_append by blast
  obtain a1 where a1: "slave_of s1 a1" "chip_after a c a1 c1"
    using rt_turn_on_chip [OF s1 Suc.prems(2) e1 c1 Suc.prems(5)] by blast
  then have "csr_op c1 = None" by (simp add: chip_after_def)
  from Suc.IH [OF rest a1(1) e2 c2 this] chip_after_trans [OF a1(2)] show ?case by blast
qed

text \<open>A round of the main program does not touch the chip.\<close>

lemma main_turn_quiet:
  assumes "run_turn E F fmt Main_turn s = Some s'" and "main_inv (fst s)" and "emits (snd s) (snd s') as"
  shows "chip_run as c c' \<longleftrightarrow> c' = c"
proof -
  obtain a where "slave_of s a" using slave_of_exists [OF assms(2)] by blast
  from slave.step_sim [OF this, of E F fmt Main_turn as s'] assms(1,3)
  obtain a' where "slave_step Main_turn a as a'" by (auto simp: turn_step_def)
  then show ?thesis by (auto elim!: main_turnE)
qed

lemma exchange_on_chip:
  assumes "fold_option (run_turn E F fmt) (Main_turn # replicate (Suc n) Rt_turn @ [Main_turn]) s = Some s'"
    and "main_inv (fst s)" and "emits (snd s) (snd s') as" and "chip_run as c c'" and "csr_op c = None"
  shows "\<exists>sec ns. hd as = Clock sec ns \<and>
     esc_mem c' = store 0x1200 (concat (map (le_bytes 8)
       [ns_of sec ns div 1000000, loop_counter (fst s), 1, 2])) (esc_mem c) \<and>
     (chip_operational c \<longrightarrow> le_bytes 32 (BufferfromEthCAT (fst s')) = load 0x1000 32 (esc_mem c))"
proof -
  from assms(1) obtain s1 s2 where r1: "run_turn E F fmt Main_turn s = Some s1"
    and r2: "fold_option (run_turn E F fmt) (replicate (Suc n) Rt_turn) s1 = Some s2"
    and r3: "run_turn E F fmt Main_turn s2 = Some s'"
    by (auto simp: fold_option_append bind_Some_iff)
  obtain as1 where e1: "emits (snd s) (snd s1) as1" and inv1: "main_inv (fst s1)"
    using run_turn_emits [OF r1 assms(2)] by blast
  obtain as2 where e2: "emits (snd s1) (snd s2) as2" using turns_steps [OF r2 inv1] by blast
  obtain a where a: "slave_of s a" "sl_count a = loop_counter (fst s)"
    using slave_of_exists [OF assms(2)] by blast
  have "turn_step E F fmt Main_turn s as1 s1" using r1 e1 by (simp add: turn_step_def)
  from slave.step_sim [OF a(1) this] obtain a1 where
    m1: "slave_step Main_turn a as1 a1" and a1: "slave_of s1 a1" by blast
  from m1 obtain sec ns r where as1: "as1 = [Clock sec ns, Ext (Nanosleep 0 100000000) r]"
    and out: "sl_out a1 = pack [ns_of sec ns div 1000000, loop_counter (fst s), 1, 2]"
    using a(2) by (auto elim!: main_turnE)
  from turns_slave [OF r2 a1] obtain a2 where "slave_of s2 a2" by blast
  then have inv2: "main_inv (fst s2)" by (simp add: slave_of_def Let_def)
  obtain as3 where e3: "emits (snd s2) (snd s') as3" using run_turn_emits [OF r3 inv2] by blast
  have as: "as = as1 @ as2 @ as3"
    by (rule emits_unique [OF assms(3) emits_trans [OF e1 emits_trans [OF e2 e3]]])
  with assms(4) obtain c2 where c2: "chip_run as2 c c2" and c3: "chip_run as3 c2 c'"
    by (auto simp: chip_run_append as1)
  from rt_turns_on_chip [OF r2 a1 e2 c2 assms(5)] obtain a2 where
    a2: "slave_of s2 a2" and after: "chip_after a1 c a2 c2" by blast
  have "turn_step E F fmt Main_turn s2 as3 s'" using r3 e3 by (simp add: turn_step_def)
  from slave.step_sim [OF a2 this] obtain a3 where
    m3: "slave_step Main_turn a2 as3 a3" and a3: "slave_of s' a3" by blast
  from main_turn_quiet [OF r3 inv2 e3] c3 have "c' = c2" by simp
  moreover from m3 a3 have "BufferfromEthCAT (fst s') = sl_in a2"
    by (auto elim!: main_turnE simp: slave_of_def Let_def)
  ultimately show ?thesis
    using after by (auto simp: chip_after_def as as1 out pack_layout)
qed

subsection \<open>A run that a chip follows\<close>

lemma rt_turn_followed:
  assumes "execute_round E F ob m = Some (ob', m')" and "emits m m' as"
    and "m_atomiccounter ob' \<noteq> m_atomiccounter ob"
  shows "\<exists>c c'. chip_run as c c' \<and> csr_op c = None \<and> chip_operational c"
proof -
  from execute_round_emits [OF assms(1)] obtain h w bs code ob1 t0 t1 r1 r2 where
    cyc: "cycle_spec ob bs code ob1"
    and e: "emits m m' (round_actions h w bs t0 t1 r1 r2)"
    and ob': "ob' = record_times F (ns_of (fst t0) (snd t0)) (ns_of (fst t1) (snd t1)) ob1"
    by blast
  from assms(3) have "m_atomiccounter ob1 \<noteq> m_atomiccounter ob" by (simp add: ob' record_times_frame)
  with cyc have op: "code = ESM_OP" using cycle_status_operational by (auto elim!: cycle_specE)
  obtain c c' where c: "chip_run bs c c'" "csr_op c = None" using cycle_followed [OF cyc] by blast
  have "chip_operational c"
    using cycle_on_chip [OF cyc c] op cycle_status_operational by (simp add: chip_operational_def)
  with c emits_unique [OF assms(2) e] show ?thesis by (auto simp: round_on_chip)
qed

lemma up_chip_followed:
  assumes "main_inv (fst s)" and "short_numbers fmt"
  shows "\<exists>s' as c c'. fold_option (run_turn up_chip F fmt) [Main_turn, Rt_turn, Main_turn] s = Some s' \<and>
     emits (snd s) (snd s') as \<and> chip_run as c c' \<and> csr_op c = None \<and> chip_operational c"
proof -
  obtain s1 where r1: "run_turn up_chip F fmt Main_turn s = Some s1"
    using run_turn_returns [OF up_chip_responsive assms(2,1) TrueI] by blast
  obtain as1 where e1: "emits (snd s) (snd s1) as1" and inv1: "main_inv (fst s1)"
    using run_turn_emits [OF r1 assms(1)] by blast
  obtain st m where s1: "s1 = (st, m)" by (cases s1)
  from inv1 have "ring_bounds (ETHB st)" by (simp add: s1 main_inv_def)
  then obtain ob m1 where x: "execute_round up_chip F (ETHB st) m = Some (ob, m1)"
    "m_atomiccounter ob = m_atomiccounter (ETHB st) + 2"
    using up_chip_round by blast
  let ?s2 = "(st\<lparr>ETHB := ob\<rparr>, m1)"
  have r2: "run_turn up_chip F fmt Rt_turn s1 = Some ?s2" using x(1) by (simp add: s1 run_turn_def)
  obtain as2 where e2: "emits m m1 as2" and inv2: "main_inv (fst ?s2)"
    using run_turn_emits [OF r2 inv1] by (auto simp: s1)
  have ne: "m_atomiccounter ob \<noteq> m_atomiccounter (ETHB st)" using x(2) by simp
  obtain c c' where c: "chip_run as2 c c'" "csr_op c = None" "chip_operational c"
    using rt_turn_followed [OF x(1) e2 ne] by blast
  obtain s' where r3: "run_turn up_chip F fmt Main_turn ?s2 = Some s'"
    using run_turn_returns [OF up_chip_responsive assms(2) inv2 TrueI] by blast
  obtain as3 where e3: "emits m1 (snd s') as3" using run_turn_emits [OF r3 inv2] by auto
  have "chip_run as1 c c" "chip_run as3 c' c'"
    using main_turn_quiet [OF r1 assms(1) e1] main_turn_quiet [OF r3 inv2] e3 by simp_all
  with c have "chip_run (as1 @ as2 @ as3) c c'" by (auto simp: chip_run_append)
  moreover have "emits (snd s) (snd s') (as1 @ as2 @ as3)"
    using emits_trans [OF e1 emits_trans [OF _ e3]] e2 by (simp add: s1)
  ultimately show ?thesis using r1 r2 r3 c(2,3) by auto
qed

end
