(* ===== verification/Start_Gate.thy ===== *)
theory Start_Gate
  imports Prelude
begin

section \<open>The start mutex\<close>

text \<open>
  The constructor of a thread object locks the start mutex before it creates the thread;
  \<open>__Start_thread\<close> locks it again before it calls \<open>ExecThread\<close> and never unlocks it; \<open>Resume\<close> (or
  the constructor, for a thread that is to run at once) unlocks it; \<open>Terminate\<close> destroys it, then
  cancels and joins the thread (\<open>thread/src/thread.cpp\<close>). Here the creator and the thread run
  interleaved. A normal pthread mutex does not check who unlocks it. \<open>unlocks\<close> and \<open>entered\<close> are
  history: the number of unlocks by the creator and of entries into \<open>ExecThread\<close>.
\<close>

subsection \<open>The steps\<close>

datatype gate = Gate_open | Held_by_creator | Held_by_thread | Destroyed

datatype phase = Not_created | Waiting | Running | Finished | Joined

text \<open>The phases of a thread in the order in which it passes them.\<close>

fun phase_rank :: "phase \<Rightarrow> nat" where
  "phase_rank Not_created = 0"
| "phase_rank Waiting = 1"
| "phase_rank Running = 2"
| "phase_rank Finished = 3"
| "phase_rank Joined = 4"

lemma phase_rank_inject: "phase_rank p = phase_rank q \<Longrightarrow> p = q"
  by (cases p; cases q) simp_all

instantiation phase :: linorder
begin

definition less_eq_phase :: "phase \<Rightarrow> phase \<Rightarrow> bool" where
  "less_eq_phase p q \<longleftrightarrow> phase_rank p \<le> phase_rank q"

definition less_phase :: "phase \<Rightarrow> phase \<Rightarrow> bool" where
  "less_phase p q \<longleftrightarrow> phase_rank p < phase_rank q"

instance
  by standard (auto simp: less_eq_phase_def less_phase_def intro: phase_rank_inject)

end

record gate_sys =
  start_gate :: gate
  phase :: phase
  activ :: bool
  unlocks :: nat
  entered :: nat

definition gate_init :: "gate_sys \<Rightarrow> bool" where
  "gate_init s \<longleftrightarrow> phase s = Not_created \<and> start_gate s = Gate_open \<and> \<not> activ s \<and>
     unlocks s = 0 \<and> entered s = 0"

inductive gate_step :: "gate_sys \<Rightarrow> gate_sys \<Rightarrow> bool" where
  g_create: "phase s = Not_created \<Longrightarrow>
    gate_step s (s\<lparr>start_gate := Held_by_creator, phase := Waiting\<rparr>)"
| g_unlock: "phase s \<noteq> Not_created \<Longrightarrow> start_gate s \<noteq> Destroyed \<Longrightarrow>
    gate_step s (s\<lparr>start_gate := Gate_open, unlocks := Suc (unlocks s)\<rparr>)"
| g_enter: "phase s = Waiting \<Longrightarrow> start_gate s = Gate_open \<Longrightarrow>
    gate_step s (s\<lparr>start_gate := Held_by_thread, phase := Running, activ := True,
      entered := Suc (entered s)\<rparr>)"
| g_finish: "phase s = Running \<Longrightarrow> gate_step s (s\<lparr>phase := Finished, activ := False\<rparr>)"
| g_terminate: "phase s \<in> {Waiting, Running, Finished} \<Longrightarrow> start_gate s \<noteq> Destroyed \<Longrightarrow>
    gate_step s (s\<lparr>start_gate := Destroyed, phase := Joined, activ := False\<rparr>)"

inductive_cases gate_stepE: "gate_step s t"

subsection \<open>The invariant\<close>

definition gate_inv :: "gate_sys \<Rightarrow> bool" where
  "gate_inv s \<longleftrightarrow>
     (phase s = Not_created \<longrightarrow> unlocks s = 0 \<and> start_gate s = Gate_open) \<and>
     (phase s \<le> Waiting \<longrightarrow> entered s = 0 \<and> start_gate s \<noteq> Held_by_thread) \<and>
     (phase s \<in> {Running, Finished} \<longrightarrow> entered s = 1) \<and>
     (entered s \<le> 1) \<and>
     (entered s = 1 \<longrightarrow> 0 < unlocks s) \<and>
     (phase s \<noteq> Not_created \<and> start_gate s = Gate_open \<longrightarrow> 0 < unlocks s) \<and>
     (phase s \<in> {Running, Finished} \<and> unlocks s = 1 \<longrightarrow> start_gate s = Held_by_thread) \<and>
     (activ s \<longleftrightarrow> phase s = Running) \<and>
     (start_gate s = Destroyed \<longleftrightarrow> phase s = Joined)"

lemma phase_le [simp]:
  "p \<le> Waiting \<longleftrightarrow> p = Not_created \<or> p = Waiting"
  by (cases p) (simp_all add: less_eq_phase_def)

lemma gate_step_phase: "gate_step s t \<Longrightarrow> phase s \<le> phase t"
  by (erule gate_stepE) (auto simp: less_eq_phase_def)

interpretation gate: step_invariant gate_init gate_step gate_inv
proof unfold_locales
  fix s assume "gate_init s"
  then show "gate_inv s" by (simp add: gate_init_def gate_inv_def)
next
  fix s t assume "gate_inv s" "gate_step s t"
  then show "gate_inv t"
    by (elim gate_stepE; hypsubst; simp add: gate_inv_def; linarith?; blast?; auto?)
qed

lemma gate_run_phase: "gate_step\<^sup>*\<^sup>* s t \<Longrightarrow> phase s \<le> phase t"
  by (induction rule: rtranclp_induct) (auto dest: gate_step_phase)

subsection \<open>Properties\<close>

text \<open>The code of a thread is entered at most once, and only after its creator has unlocked the
  start mutex; the marker \<open>m_activ\<close> is set exactly while it runs, and the thread only goes forward
  through its phases.\<close>

lemma start_gate_safe:
  assumes "reach gate_init gate_step s" and "gate_step\<^sup>*\<^sup>* s t"
  shows "entered t \<le> 1 \<and> (entered t = 1 \<longrightarrow> 0 < unlocks t) \<and> (activ t \<longleftrightarrow> phase t = Running) \<and>
         phase s \<le> phase t"
  using gate.steps_Inv [OF assms(2) gate.reach_Inv [OF assms(1)]] gate_run_phase [OF assms(2)]
  by (simp add: gate_inv_def)

definition gate_start :: gate_sys where
  "gate_start = \<lparr>start_gate = Gate_open, phase = Not_created, activ = False, unlocks = 0, entered = 0\<rparr>"

lemma gate_reach_start: "reach gate_init gate_step gate_start"
  by (rule reach_init) (simp add: gate_init_def gate_start_def)

text \<open>When a thread was started by a single unlock, it holds the start mutex for good, so
  \<open>Terminate\<close>, which is possible in every such state, destroys a locked mutex.\<close>

lemma terminate_destroys_locked:
  assumes "reach gate_init gate_step s" and "phase s \<in> {Running, Finished}" and "unlocks s = 1"
  shows "start_gate s = Held_by_thread \<and>
         gate_step s (s\<lparr>start_gate := Destroyed, phase := Joined, activ := False\<rparr>)"
proof -
  have "start_gate s = Held_by_thread"
    using gate.reach_Inv [OF assms(1)] assms(2,3) unfolding gate_inv_def by blast
  then show ?thesis using assms(2) by (auto intro: g_terminate)
qed

end
