(* ===== verification/Start_Protocol.thy ===== *)
theory Start_Protocol
  imports Start_Gate Slave_Test "HOL-Library.Sublist"
begin

section \<open>The calls of the thread classes and the start mutex\<close>

text \<open>
  \<open>Start_Gate\<close> is a step relation on its own. Here the calls that the code makes (\<open>Threads\<close>,
  \<open>Slave_Test\<close>) are put on threads and a mutex that behave as POSIX says: an interleaving of the
  calls of the creator and of the new thread is a run of \<open>Start_Gate\<close>, so what holds there holds
  for the code.
\<close>

subsection \<open>Threads and mutex\<close>

datatype party = Creator | New_thread

datatype mutex_state = No_mutex | Unlocked | Locked_by party | Gone

record pthreads =
  mutex :: mutex_state
  alive :: bool

definition pt_init :: pthreads where
  "pt_init = \<lparr>mutex = No_mutex, alive = False\<rparr>"

definition gate_call :: "call \<Rightarrow> bool" where
  "gate_call c \<longleftrightarrow> (case c of Mutex_init \<Rightarrow> True | Mutex_lock \<Rightarrow> True | Mutex_unlock \<Rightarrow> True
     | Mutex_destroy \<Rightarrow> True | Pthread_create \<Rightarrow> True | Pthread_join h \<Rightarrow> True | _ \<Rightarrow> False)"

text \<open>
  What one call does. \<open>None\<close> is for a call that does not return in this state, as the lock of a
  locked mutex, and for one without a defined effect, as the use of a mutex that does not exist.
\<close>

definition pt_call :: "party \<Rightarrow> call \<Rightarrow> pthreads \<Rightarrow> pthreads option" where
  "pt_call p c s = (case c of
       Mutex_init \<Rightarrow> (if mutex s = No_mutex then Some (s\<lparr>mutex := Unlocked\<rparr>) else None)
     | Mutex_lock \<Rightarrow> (if mutex s = Unlocked then Some (s\<lparr>mutex := Locked_by p\<rparr>) else None)
     | Mutex_unlock \<Rightarrow> (if mutex s \<in> {No_mutex, Gone} then None else Some (s\<lparr>mutex := Unlocked\<rparr>))
     | Mutex_destroy \<Rightarrow> (if mutex s \<in> {No_mutex, Gone} then None else Some (s\<lparr>mutex := Gone\<rparr>))
     | Pthread_create \<Rightarrow> Some (s\<lparr>alive := True\<rparr>)
     | Pthread_join h \<Rightarrow> Some (s\<lparr>alive := False\<rparr>)
     | _ \<Rightarrow> Some s)"

fun pt_step :: "party \<times> event \<Rightarrow> pthreads \<Rightarrow> pthreads option" where
  "pt_step (p, x) s =
     (if p = New_thread \<and> \<not> alive s then None
      else (case x of Call c r \<Rightarrow> pt_call p c s | _ \<Rightarrow> Some s))"

text \<open>The events of one party in an interleaving, and the calls in them that matter here.\<close>

definition part :: "party \<Rightarrow> (party \<times> event) list \<Rightarrow> event list" where
  "part p es = map snd (filter (\<lambda>e. fst e = p) es)"

definition gate_calls :: "event list \<Rightarrow> call list" where
  "gate_calls xs = concat (map (\<lambda>x. case x of Call c r \<Rightarrow> if gate_call c then [c] else [] | _ \<Rightarrow> []) xs)"

lemma part_simps [simp]:
  "part p [] = []" "part p (es @ fs) = part p es @ part p fs"
  "part p ((q, x) # es) = (if q = p then x # part p es else part p es)"
  by (simp_all add: part_def)

lemma gate_calls_simps [simp]:
  "gate_calls [] = []" "gate_calls (xs @ ys) = gate_calls xs @ gate_calls ys"
  "gate_calls (Call c r # xs) = (if gate_call c then c # gate_calls xs else gate_calls xs)"
  "gate_calls (Xfer a b # xs) = gate_calls xs" "gate_calls (Time k n # xs) = gate_calls xs"
  "gate_calls (File i d # xs) = gate_calls xs"
  by (simp_all add: gate_calls_def)

lemma gate_calls_prefix: "prefix xs ys \<Longrightarrow> prefix (gate_calls xs) (gate_calls ys)"
  by (auto simp: prefix_def)

lemma pt_step_quiet:
  assumes "gate_calls [a] = []" and "pt_step (p, a) s = Some s'"
  shows "s' = s"
  using assms by (cases a) (auto simp: pt_call_def gate_call_def split: if_splits call.splits)

subsection \<open>Interleavings are runs of the start gate\<close>

text \<open>The calls of a creator: construction, then unlocks, at most one termination among them.\<close>

definition creator_calls :: "call list \<Rightarrow> bool" where
  "creator_calls us \<longleftrightarrow> (\<exists>i j h. us = replicate i Mutex_unlock \<or>
     us = replicate i Mutex_unlock @ [Mutex_destroy, Pthread_join h] @ replicate j Mutex_unlock)"

abbreviation (input) construction :: "call list" where
  "construction \<equiv> [Mutex_init, Mutex_lock, Pthread_create]"

lemma creator_calls_Cons: "creator_calls us \<Longrightarrow> creator_calls (Mutex_unlock # us)"
  unfolding creator_calls_def by (metis append_Cons replicate_Suc)

text \<open>The relation between the pthread state and the gate, when the creator has made the calls
  \<open>cs\<close> and the thread \<open>n\<close> locks.\<close>

definition before_create :: "call list \<Rightarrow> nat \<Rightarrow> pthreads \<Rightarrow> gate_sys \<Rightarrow> bool" where
  "before_create cs n s g \<longleftrightarrow> n = 0 \<and> \<not> alive s \<and> g = gate_start \<and>
     (cs = [] \<and> mutex s = No_mutex \<or> cs = [Mutex_init] \<and> mutex s = Unlocked \<or>
      cs = [Mutex_init, Mutex_lock] \<and> mutex s = Locked_by Creator)"

definition after_create :: "call list \<Rightarrow> nat \<Rightarrow> pthreads \<Rightarrow> gate_sys \<Rightarrow> bool" where
  "after_create us n s g \<longleftrightarrow> entered g = n \<and> unlocks g = count_list us Mutex_unlock \<and>
     phase g \<in> {Waiting, Running, Joined} \<and> (alive s \<longleftrightarrow> phase g \<noteq> Joined) \<and>
     (alive s \<longrightarrow> start_gate g \<noteq> Destroyed \<and> (phase g = Waiting \<longleftrightarrow> n = 0)) \<and>
     mutex s \<noteq> No_mutex \<and> (mutex s = Unlocked \<longrightarrow> start_gate g = Gate_open) \<and>
     (Mutex_destroy \<in> set us \<longleftrightarrow> mutex s = Gone) \<and>
     (alive s \<longleftrightarrow> (\<forall>h. Pthread_join h \<notin> set us)) \<and> (\<not> alive s \<longrightarrow> mutex s = Gone)"

definition tracks :: "call list \<Rightarrow> nat \<Rightarrow> pthreads \<Rightarrow> gate_sys \<Rightarrow> bool" where
  "tracks cs n s g \<longleftrightarrow> before_create cs n s g \<or> (\<exists>us. cs = construction @ us \<and> after_create us n s g)"

text \<open>What the next call of a creator can be.\<close>

lemma prefix_snoc_replicate: "prefix (us @ [c]) (replicate i x) \<Longrightarrow> c = x"
  by (metis in_set_conv_decomp in_set_replicate set_mono_prefix subsetD)

lemma creator_next:
  assumes "creator_calls vs" and "prefix (us @ [c]) vs"
  shows "c = Mutex_unlock \<or>
    c = Mutex_destroy \<and> Mutex_destroy \<notin> set us \<or>
    (\<exists>h. c = Pthread_join h \<and> Mutex_destroy \<in> set us \<and> (\<forall>h. Pthread_join h \<notin> set us))"
proof -
  from assms(1) obtain i j h where "vs = replicate i Mutex_unlock \<or>
     vs = replicate i Mutex_unlock @ [Mutex_destroy, Pthread_join h] @ replicate j Mutex_unlock"
    unfolding creator_calls_def by blast
  then show ?thesis
  proof
    assume "vs = replicate i Mutex_unlock"
    with assms(2) have "c = Mutex_unlock" using prefix_snoc_replicate [of us c i Mutex_unlock] by simp
    then show ?thesis ..
  next
    assume vs: "vs = replicate i Mutex_unlock @ [Mutex_destroy, Pthread_join h] @ replicate j Mutex_unlock"
    from assms(2) obtain ws where ws: "vs = us @ c # ws" by (auto simp: prefix_def)
    then have c: "c = vs ! length us" "us = take (length us) vs" by simp_all
    consider "length us < i" | "length us = i" | "length us = Suc i" | "Suc i < length us" by linarith
    then show ?thesis
    proof cases
      case 1
      with c(1) show ?thesis by (simp add: vs nth_append)
    next
      case 2
      with c show ?thesis by (simp add: vs nth_append)
    next
      case 3
      with c(1) have "c = Pthread_join h" by (simp add: vs nth_append)
      moreover from c(2) 3 have "us = replicate i Mutex_unlock @ [Mutex_destroy]" by (simp add: vs)
      ultimately show ?thesis by simp
    next
      case 4
      define k where "k = length us - (i + 2)"
      with 4 have k: "length us = i + 2 + k" by simp
      have "length us < length vs" by (simp add: ws)
      then have "k < j" by (simp add: vs k)
      with c(1) k show ?thesis by (simp add: vs nth_append)
    qed
  qed
qed

lemma tracks_construction:
  assumes "before_create cs n s g" and "pt_call Creator c s = Some s'"
    and "prefix (cs @ [c]) (construction @ vs)"
  shows "\<exists>g'. gate_step\<^sup>*\<^sup>* g g' \<and> tracks (cs @ [c]) n s' g'"
proof (cases "cs = [Mutex_init, Mutex_lock]")
  case False
  with assms have "before_create (cs @ [c]) n s' g"
    by (auto simp: before_create_def pt_call_def)
  then show ?thesis by (auto simp: tracks_def)
next
  case True
  from assms(1) have g: "g = gate_start" "n = 0" "\<not> alive s" by (simp_all add: before_create_def)
  from True assms(3) have c: "c = Pthread_create" by simp
  let ?g = "g\<lparr>start_gate := Held_by_creator, phase := Waiting\<rparr>"
  have "gate_step g ?g" by (rule g_create) (simp add: g gate_start_def)
  moreover have "after_create [] n s' ?g"
    using assms(1,2) True by (auto simp: before_create_def after_create_def c pt_call_def gate_start_def)
  ultimately show ?thesis unfolding tracks_def True c by (intro exI [of _ ?g]) auto
qed

lemma tracks_after_create:
  assumes "after_create us n s g" and "pt_call Creator c s = Some s'"
    and "c = Mutex_unlock \<or> c = Mutex_destroy \<and> Mutex_destroy \<notin> set us \<or>
     (\<exists>h. c = Pthread_join h \<and> Mutex_destroy \<in> set us \<and> (\<forall>h. Pthread_join h \<notin> set us))"
  shows "\<exists>g'. gate_step\<^sup>*\<^sup>* g g' \<and> after_create (us @ [c]) n s' g'"
proof -
  from assms(3) consider "c = Mutex_unlock" | "c = Mutex_destroy" "Mutex_destroy \<notin> set us"
    | h where "c = Pthread_join h" "Mutex_destroy \<in> set us" "\<forall>h. Pthread_join h \<notin> set us"
    by blast
  then show ?thesis
  proof cases
    case 1
    with assms(2) have s': "s' = s\<lparr>mutex := Unlocked\<rparr>" "mutex s \<noteq> Gone"
      by (auto simp: pt_call_def split: if_splits)
    with assms(1) have "alive s" by (auto simp: after_create_def)
    let ?g = "g\<lparr>start_gate := Gate_open, unlocks := Suc (unlocks g)\<rparr>"
    have "gate_step g ?g"
      by (rule g_unlock) (use assms(1) \<open>alive s\<close> in \<open>auto simp: after_create_def\<close>)
    moreover have "after_create (us @ [c]) n s' ?g"
      using assms(1) \<open>alive s\<close> s' by (auto simp: after_create_def 1)
    ultimately show ?thesis by blast
  next
    case 2
    with assms(2) have s': "s' = s\<lparr>mutex := Gone\<rparr>" "mutex s \<noteq> Gone"
      by (auto simp: pt_call_def split: if_splits)
    with assms(1) have "after_create (us @ [c]) n s' g" by (auto simp: after_create_def 2)
    then show ?thesis by blast
  next
    case 3
    with assms(2) have s': "s' = s\<lparr>alive := False\<rparr>" by (simp add: pt_call_def)
    from assms(1) 3 have a: "alive s" "mutex s = Gone" by (auto simp: after_create_def)
    let ?g = "g\<lparr>start_gate := Destroyed, phase := Joined, activ := False\<rparr>"
    have "gate_step g ?g"
      by (rule g_terminate) (use assms(1) a in \<open>auto simp: after_create_def\<close>)
    moreover have "after_create (us @ [c]) n s' ?g"
      using assms(1) a s' by (auto simp: after_create_def 3)
    ultimately show ?thesis by blast
  qed
qed

lemma tracks_creator:
  assumes "tracks cs n s g" and "pt_call Creator c s = Some s'" and "gate_call c"
    and "prefix (cs @ [c]) (construction @ vs)" and "creator_calls vs"
  shows "\<exists>g'. gate_step\<^sup>*\<^sup>* g g' \<and> tracks (cs @ [c]) n s' g'"
proof (cases "before_create cs n s g")
  case True
  from tracks_construction [OF this assms(2,4)] show ?thesis .
next
  case False
  with assms(1) obtain us where cs: "cs = construction @ us" and after: "after_create us n s g"
    by (auto simp: tracks_def)
  from creator_next [OF assms(5), of us c] assms(4)
  have "\<exists>g'. gate_step\<^sup>*\<^sup>* g g' \<and> after_create (us @ [c]) n s' g'"
    by (intro tracks_after_create [OF after assms(2)]) (simp add: cs)
  then show ?thesis unfolding tracks_def cs by auto
qed

lemma tracks_thread:
  assumes "tracks cs 0 s g" and "alive s" and "pt_call New_thread Mutex_lock s = Some s'"
  shows "\<exists>g'. gate_step\<^sup>*\<^sup>* g g' \<and> tracks cs 1 s' g'"
proof -
  from assms(1,2) obtain us where cs: "cs = construction @ us" and after: "after_create us 0 s g"
    by (auto simp: tracks_def before_create_def)
  from assms(3) have s': "s' = s\<lparr>mutex := Locked_by New_thread\<rparr>" "mutex s = Unlocked"
    by (auto simp: pt_call_def split: if_splits)
  let ?g = "g\<lparr>start_gate := Held_by_thread, phase := Running, activ := True, entered := Suc (entered g)\<rparr>"
  have "gate_step g ?g"
    by (rule g_enter) (use after s' assms(2) in \<open>auto simp: after_create_def\<close>)
  moreover have "after_create us 1 s' ?g"
    using after s' assms(2) by (auto simp: after_create_def)
  ultimately show ?thesis unfolding tracks_def cs by (intro exI [of _ ?g]) auto
qed

text \<open>
  The interleavings: the creator constructs the object and goes on as \<open>creator_calls\<close>, the thread
  locks the start mutex once. All of them are runs of the gate.
\<close>

lemma tracks_step:
  assumes "pt_step (p, Call c r) s = Some s'" and "gate_call c"
    and "tracks (gate_calls (part Creator es)) (length (gate_calls (part New_thread es))) s g"
    and "prefix (gate_calls (part Creator (es @ [(p, Call c r)]))) (construction @ vs)" and "creator_calls vs"
    and "prefix (gate_calls (part New_thread (es @ [(p, Call c r)]))) [Mutex_lock]"
  shows "\<exists>g'. gate_step\<^sup>*\<^sup>* g g' \<and>
    tracks (gate_calls (part Creator (es @ [(p, Call c r)])))
      (length (gate_calls (part New_thread (es @ [(p, Call c r)])))) s' g'"
proof (cases p)
  case Creator
  from assms(1) have "pt_call Creator c s = Some s'" by (simp add: Creator)
  moreover have "prefix (gate_calls (part Creator es) @ [c]) (construction @ vs)"
    using assms(2,4) by (simp add: Creator)
  ultimately obtain g' where "gate_step\<^sup>*\<^sup>* g g'"
    "tracks (gate_calls (part Creator es) @ [c]) (length (gate_calls (part New_thread es))) s' g'"
    using tracks_creator [OF assms(3) _ assms(2) _ assms(5)] by blast
  with assms(2) show ?thesis by (auto simp: Creator)
next
  case New_thread
  with assms(2,6) have t: "gate_calls (part New_thread es) = []" "c = Mutex_lock"
    by (auto simp: prefix_Cons append_eq_Cons_conv)
  from assms(1) have "alive s" "pt_call New_thread Mutex_lock s = Some s'"
    by (auto simp: New_thread t split: if_splits)
  then obtain g' where "gate_step\<^sup>*\<^sup>* g g'" "tracks (gate_calls (part Creator es)) 1 s' g'"
    using tracks_thread assms(3) t(1) by fastforce
  with assms(2) t show ?thesis by (auto simp: New_thread)
qed

lemma interleaving_tracks:
  assumes "fold_option pt_step es pt_init = Some s"
    and "prefix (gate_calls (part Creator es)) (construction @ vs)" and "creator_calls vs"
    and "prefix (gate_calls (part New_thread es)) [Mutex_lock]"
  shows "\<exists>g. reach gate_init gate_step g \<and>
    tracks (gate_calls (part Creator es)) (length (gate_calls (part New_thread es))) s g"
  using assms(1,2,4)
proof (induction es arbitrary: s rule: rev_induct)
  case Nil
  have "tracks [] 0 pt_init gate_start" by (simp add: tracks_def before_create_def pt_init_def)
  with Nil gate_reach_start show ?case by auto
next
  case (snoc e es)
  obtain p a where e: "e = (p, a)" by (cases e)
  from snoc.prems(1) obtain s1 where run: "fold_option pt_step es pt_init = Some s1"
    and step: "pt_step (p, a) s1 = Some s"
    by (auto simp: e fold_option_append bind_Some_iff)
  have pre: "prefix (gate_calls (part Creator es)) (construction @ vs)"
    "prefix (gate_calls (part New_thread es)) [Mutex_lock]"
    using snoc.prems(2,3) by (auto simp: e dest: append_prefixD split: if_splits)
  from snoc.IH [OF run pre] obtain g where g: "reach gate_init gate_step g"
    "tracks (gate_calls (part Creator es)) (length (gate_calls (part New_thread es))) s1 g" by blast
  show ?case
  proof (cases "gate_calls [a] = []")
    case True
    from pt_step_quiet [OF True step] True g show ?thesis by (auto simp: e)
  next
    case False
    then obtain c r where a: "a = Call c r" "gate_call c" by (cases a) (auto split: if_splits)
    note prefixes = snoc.prems(2,3) [unfolded e a(1)]
    obtain g' where "gate_step\<^sup>*\<^sup>* g g'" "tracks (gate_calls (part Creator (es @ [(p, Call c r)])))
        (length (gate_calls (part New_thread (es @ [(p, Call c r)])))) s g'"
      using tracks_step [OF step [unfolded a(1)] a(2) g(2) prefixes(1) assms(3) prefixes(2)] by blast
    with reach_steps [OF _ g(1)] show ?thesis unfolding e a(1) by blast
  qed
qed

text \<open>So the thread passes its lock only after an unlock by the creator.\<close>

lemma lock_after_unlock:
  assumes "fold_option pt_step es pt_init = Some s"
    and "prefix (gate_calls (part Creator es)) (construction @ vs)" and "creator_calls vs"
    and "prefix (gate_calls (part New_thread es)) [Mutex_lock]"
    and "gate_calls (part New_thread es) \<noteq> []"
  shows "\<exists>us. gate_calls (part Creator es) = construction @ us \<and> Mutex_unlock \<in> set us"
proof -
  from assms(4,5) have one: "length (gate_calls (part New_thread es)) = 1"
    by (auto simp: prefix_Cons)
  from interleaving_tracks [OF assms(1-4)] obtain g where g: "reach gate_init gate_step g"
    "tracks (gate_calls (part Creator es)) 1 s g" by (auto simp: one)
  then obtain us where us: "gate_calls (part Creator es) = construction @ us" "after_create us 1 s g"
    by (auto simp: tracks_def before_create_def)
  from us(2) have "entered g = 1" "unlocks g = count_list us Mutex_unlock"
    by (simp_all add: after_create_def)
  with gate.reach_Inv [OF g(1)] have "0 < count_list us Mutex_unlock"
    unfolding gate_inv_def by metis
  with us(1) show ?thesis using count_notin [of Mutex_unlock us] by fastforce
qed

subsection \<open>What the code calls\<close>

lemma gate_call_simps [simp]:
  "gate_call Mutex_init" "gate_call Mutex_lock" "gate_call Mutex_unlock" "gate_call Mutex_destroy"
  "gate_call Pthread_create" "gate_call (Pthread_join h)"
  "\<not> gate_call Free" "\<not> gate_call (Malloc n)" "\<not> gate_call Sysconf_nprocessors" "\<not> gate_call Attr_init"
  "\<not> gate_call (Attr_setstacksize n)" "\<not> gate_call Attr_setschedpolicy_FIFO"
  "\<not> gate_call Attr_setschedparam" "\<not> gate_call Attr_destroy" "\<not> gate_call (Sched_setaffinity h n')"
  "\<not> gate_call (Pthread_setaffinity_self h)" "\<not> gate_call (Pthread_setname h nm)"
  "\<not> gate_call Pthread_setcancelstate_ENABLE" "\<not> gate_call Pthread_setcanceltype_ASYNCHRONOUS"
  "\<not> gate_call (Pthread_cancel h)" "\<not> gate_call (Gpio_write pn lv)" "\<not> gate_call (Gpio_set pn)"
  "\<not> gate_call (Gpio_clr pn)" "\<not> gate_call (Ioctl h u v)" "\<not> gate_call (Open_RDWR f)"
  "\<not> gate_call (Usleep n)" "\<not> gate_call Bcm2835_init" "\<not> gate_call Bcm2835_spi_begin"
  "\<not> gate_call Bcm2835_spi_end" "\<not> gate_call Bcm2835_close" "\<not> gate_call Spi_setBitOrder_MSBFIRST"
  "\<not> gate_call Spi_setDataMode_MODE0" "\<not> gate_call (Spi_setClockDivider n)"
  "\<not> gate_call Spi_chipSelect_CS_NONE" "\<not> gate_call (Spi_setChipSelectPolarity_CS0 lv)"
  "\<not> gate_call (Gpio_fsel_OUTP pn)"
  by (simp_all add: gate_call_def)

abbreviation gcalls :: "'w machine \<Rightarrow> call list" where
  "gcalls m \<equiv> gate_calls (trace m)"

lemma gcalls_ext_do [simp]:
  "gcalls (ext_do E c m) = (if gate_call c then gcalls m @ [c] else gcalls m)"
  by (simp add: log_simps)

lemma gcalls_ext_call: "ext_call E c m = (r, m') \<Longrightarrow>
    gcalls m' = (if gate_call c then gcalls m @ [c] else gcalls m)"
  using log_ext_call [of E c m] by simp

text \<open>A piece of code that adds nothing to these calls.\<close>

definition quiet :: "'w machine \<Rightarrow> 'w machine \<Rightarrow> bool" where
  "quiet m m' \<longleftrightarrow> (\<exists>xs. trace m' = trace m @ xs \<and> gate_calls xs = [])"

fun quiet_action :: "action \<Rightarrow> bool" where
  "quiet_action (Ext c r) \<longleftrightarrow> \<not> gate_call c"
| "quiet_action _ \<longleftrightarrow> True"

definition quiet_code :: "('w machine \<Rightarrow> ('x \<times> 'w machine) option) \<Rightarrow> bool" where
  "quiet_code f \<longleftrightarrow> (\<forall>m x m'. f m = Some (x, m') \<longrightarrow> quiet m m')"

lemma gate_calls_actions:
  "actions xs st = Some as \<Longrightarrow> \<forall>a \<in> set as. quiet_action a \<Longrightarrow> gate_calls xs = []"
  by (induction xs st arbitrary: as rule: actions.induct) (auto split: if_splits option.splits)

lemma quiet_emits: "emits m m' as \<Longrightarrow> \<forall>a \<in> set as. quiet_action a \<Longrightarrow> quiet m m'"
  unfolding emits_def quiet_def using gate_calls_actions by blast

lemma rtthread_ctor_calls:
  assumes "rtthread_ctor E pr r c cr st ob g m = Some (ob', g', m')"
  shows "gcalls m' = gcalls m @ construction @ (if cr then [Mutex_unlock] else [])"
proof -
  obtain p m1 where 1: "ext_call E (Malloc HALTHREADID_size) m = (p, m1)" by fastforce
  define m2 where "m2 = (let m = ext_do E Attr_init (ext_do E Mutex_lock (ext_do E Mutex_init m1));
      st = (if st = 0 then 128 * 1024 else st);
      m = (if st \<noteq> 0 then ext_do E (Attr_setstacksize st) m else m)
    in ext_do E Attr_setschedparam (ext_do E Attr_setschedpolicy_FIFO m))"
  obtain k m3 where 3: "ext_call E Sysconf_nprocessors m2 = (k, m3)" by fastforce
  obtain h m4 where 4: "ext_call E Pthread_create m3 = (h, m4)" by fastforce
  from gcalls_ext_call [OF 1] gcalls_ext_call [OF 3] gcalls_ext_call [OF 4]
  have calls: "gcalls m4 = gcalls m @ construction" by (simp add: m2_def Let_def)
  from 1 3 4 assms obtain ob1 where "(let (c, ob, g, m) =
       (if c = - 1 then
          (let (online, m) = (if nproc g = - 1 then ext_call E Sysconf_nprocessors m4 else (nproc g, m4));
               (c, s) = get_nextcpu online (cpu_statics.truncate g)
           in (c, ob1\<lparr>m_rcpu := c\<rparr>, g\<lparr>sc_cpu := sc_cpu s, nproc := nproc s\<rparr>, m))
        else (c, ob1, g, m4));
     m = (if c < k then ext_do E (Sched_setaffinity h c) m else m)
    in do {
     (cname, namebuf, u) \<leftarrow> fix_threadname Name (replicate 64 NUL) (64 - 1) (s_threadunique g);
     let g = g\<lparr>s_threadunique := u\<rparr>;
     let m = ext_do E (Pthread_setname h cname) m;
     let m = ext_do E Attr_destroy m;
     let m = (if cr then ext_do E Mutex_unlock m else m);
     Some (ob, g, m)
   }) = Some (ob', g', m')"
    unfolding rtthread_ctor_def Let_def m2_def prod.case by (auto simp: bind_Some_iff split: if_splits)
  then show ?thesis
    by (auto simp: Let_def bind_Some_iff gcalls_ext_call calls split: prod.split_asm if_split_asm)
qed

lemma thread_ctor_calls:
  assumes "thread_ctor E p r c cr st ob m = (ob', m')" and "imp_buf ob' \<noteq> None"
  shows "gcalls m' = gcalls m @ construction @ (if cr then [Mutex_unlock] else [])"
  using assms
  by (auto simp: thread_ctor_def threadbase_ctor_def Let_def gcalls_ext_call split: prod.splits if_splits)

text \<open>The further life of an object of class \<open>thread\<close>, with its automatic join on \<open>Terminate\<close>.\<close>

lemma run_thread_dead_calls:
  "run_thread E ops ob m = Some (ob', m') \<Longrightarrow> live_handle ob = 0 \<Longrightarrow>
   \<exists>j. gcalls m' = gcalls m @ replicate j Mutex_unlock"
proof (induction E ops ob m rule: run_thread.induct)
  case (1 E ob m)
  then show ?case by (auto intro: exI [of _ 0])
next
  case (2 E ops ob m)
  from 2(2) obtain m1 where m1: "thread_Resume E ob m = Some m1" "run_thread E ops ob m1 = Some (ob', m')"
    by (auto simp: bind_Some_iff)
  then have "gcalls m1 = gcalls m @ [Mutex_unlock]" by (auto simp: thread_Resume_def split: option.splits)
  moreover from 2(1) [OF m1 2(3)] obtain j where "gcalls m' = gcalls m1 @ replicate j Mutex_unlock" ..
  ultimately show ?case by (intro exI [of _ "Suc j"]) simp
next
  case (3 E ops ob m)
  from 3(2) have "run_thread E ops ob m = Some (ob', m')" by (simp add: thread_Terminate_cases(1) [OF 3(3)])
  from 3(1) [OF thread_Terminate_cases(1) [OF 3(3), symmetric] refl refl this 3(3)] show ?case .
qed

lemma run_thread_calls:
  "run_thread E ops ob m = Some (ob', m') \<Longrightarrow> \<exists>us. creator_calls us \<and> gcalls m' = gcalls m @ us"
proof (induction E ops ob m rule: run_thread.induct)
  case (1 E ob m)
  then show ?case by (auto simp: creator_calls_def intro!: exI [of _ 0])
next
  case (2 E ops ob m)
  from 2(2) obtain m1 where m1: "thread_Resume E ob m = Some m1" "run_thread E ops ob m1 = Some (ob', m')"
    by (auto simp: bind_Some_iff)
  then have "gcalls m1 = gcalls m @ [Mutex_unlock]" by (auto simp: thread_Resume_def split: option.splits)
  moreover from 2(1) [OF m1] obtain us where "creator_calls us" "gcalls m' = gcalls m1 @ us" by blast
  moreover from this(1) have "creator_calls (Mutex_unlock # us)" by (rule creator_calls_Cons)
  ultimately show ?case by (intro exI [of _ "Mutex_unlock # us"]) simp
next
  case (3 E ops ob m)
  show ?case
  proof (cases "live_handle ob = 0")
    case True
    from run_thread_dead_calls [OF 3(2) True] show ?thesis by (auto simp: creator_calls_def)
  next
    case False
    let ?ob = "ob\<lparr>imp_buf := Some \<lparr>m_thread = 0\<rparr>, m_activ := 0\<rparr>"
    let ?m = "ext_do E (Pthread_join (live_handle ob)) (ext_do E (Pthread_cancel (live_handle ob))
        (ext_do E Mutex_destroy m))"
    from 3(2) have "run_thread E ops ?ob ?m = Some (ob', m')" by (simp add: thread_Terminate_cases(2) [OF False])
    moreover have "live_handle ?ob = 0" by (simp add: live_handle_def)
    ultimately obtain j where "gcalls m' = gcalls ?m @ replicate j Mutex_unlock"
      using run_thread_dead_calls by blast
    then have "gcalls m' = gcalls m @ replicate 0 Mutex_unlock @
        [Mutex_destroy, Pthread_join (live_handle ob)] @ replicate j Mutex_unlock" by simp
    then show ?thesis unfolding creator_calls_def by blast
  qed
qed

text \<open>The new thread: two calls, the lock, and then what its code does.\<close>

lemma Start_thread_calls:
  assumes "Start_thread E S Execute tobj os m = Some (stat, tobj', os', m')"
    and "quiet_code Execute"
  shows "\<exists>r1 r2 r3 xs. trace m' = trace m @ [Call Pthread_setcancelstate_ENABLE r1,
      Call Pthread_setcanceltype_ASYNCHRONOUS r2, Call Mutex_lock r3] @ xs \<and> gate_calls xs = []"
proof -
  let ?m3 = "ext_do E Mutex_lock (ext_do E Pthread_setcanceltype_ASYNCHRONOUS
      (ext_do E Pthread_setcancelstate_ENABLE m))"
  from assms(1) obtain m4 x where m4: "m4 = ?m3 \<or> (\<exists>c. m4 = ext_do E (Pthread_setaffinity_self c) ?m3)"
    and body: "Execute m4 = Some (x, m')"
    by (auto simp: Start_thread_def ExecThread_def Let_def bind_Some_iff split: if_splits)
  from m4 obtain ys where ys: "trace m4 = trace ?m3 @ ys" "gate_calls ys = []"
    by (auto simp: log_simps)
  from assms(2) body obtain xs where "trace m' = trace m4 @ xs" "gate_calls xs = []"
    unfolding quiet_code_def quiet_def by blast
  with ys show ?thesis by (auto simp: log_simps)
qed

text \<open>The real-time thread of the program: its code is the device's loop, here up to \<open>n\<close> rounds.\<close>

definition rt_body :: "nat \<Rightarrow> 'w platform \<Rightarrow> 'f fpu \<Rightarrow> 'f etherberry_9252 option \<Rightarrow> 'w machine \<Rightarrow>
    (u32 \<times> 'w machine) option" where
  "rt_body n E F device m = map_option
     (\<lambda>r. case r of Inl stat \<Rightarrow> (stat, m) | Inr (ob, m') \<Rightarrow> (0, m')) (rttestthread_Execute n E F device m)"

lemma quiet_refl [simp]: "quiet m m"
  by (simp add: quiet_def)

lemma quiet_trans: "quiet m m1 \<Longrightarrow> quiet m1 m' \<Longrightarrow> quiet m m'"
  unfolding quiet_def by (metis append.assoc append_Nil gate_calls_simps(2))

lemma cycle_quiet: "cycle_spec ob as st ob' \<Longrightarrow> \<forall>a \<in> set as. quiet_action a"
  by (erule cycle_specE) (auto simp: csr_read_actions_def csr_poll_actions_def fifo_read_actions_def
      fifo_write_actions_def)

lemma execute_round_quiet:
  assumes "execute_round E F ob m = Some (ob', m')"
  shows "quiet m m'"
proof -
  from execute_round_emits [OF assms] obtain h w bs code ob1 t0 t1 r1 r2 where
    c: "cycle_spec ob bs code ob1" and e: "emits m m' (round_actions h w bs t0 t1 r1 r2)"
    by blast
  show ?thesis
    by (rule quiet_emits [OF e]) (use cycle_quiet [OF c] in \<open>auto simp: round_actions_def wait_actions_def\<close>)
qed

lemma execute_fromthread_quiet:
  "execute_fromthread n E F ob m = Some (ob', m') \<Longrightarrow> quiet m m'"
  by (induction n arbitrary: ob m) (auto simp: bind_Some_iff dest: execute_round_quiet intro: quiet_trans)

lemma rt_body_quiet: "quiet_code (rt_body n E F device)"
proof (cases device)
  case None
  then show ?thesis by (auto simp: quiet_code_def rt_body_def rttestthread_Execute_def)
next
  case (Some d)
  then have "quiet m m'" if "rt_body n E F device m = Some (x, m')" for m x m'
    using that execute_fromthread_quiet [of n E F d m _ m']
    by (auto simp: rt_body_def rttestthread_Execute_def)
  then show ?thesis by (simp add: quiet_code_def)
qed

text \<open>The start of the main program.\<close>

lemma init_quiet: "init_spec as err h \<Longrightarrow> \<forall>a \<in> set as. quiet_action a"
proof -
  assume "init_spec as err h"
  have calls: "\<forall>a \<in> set (map2 Ext cs rs). quiet_action a" if "\<forall>c \<in> set cs. \<not> gate_call c" for cs rs
    using that by (auto dest: set_zip_leftD)
  have begins: "\<forall>a \<in> set (spi_setup_actions r s rs). quiet_action a" for r s rs
    unfolding spi_setup_actions_def set_append ball_Un by (intro conjI calls) simp_all
  have check: "chip_check cs b \<Longrightarrow> \<forall>a \<in> set cs. quiet_action a" for cs b
    by (erule chip_check.cases) auto
  have irq: "\<forall>a \<in> set (irq_actions ws x). quiet_action a" for ws x
    by (auto simp: irq_actions_def csr_poll_actions_def)
  have reset: "\<forall>a \<in> set (reset_actions r1 r2 t). quiet_action a" for r1 r2 t
    by (simp add: reset_actions_def)
  from \<open>init_spec as err h\<close> show ?thesis
    by cases (use begins irq reset in \<open>auto dest: check\<close>)
qed

lemma main_start_calls:
  assumes "main_start E ob t m = Some out"
  shows "case out of
     Inl (status, ob', m') \<Rightarrow> quiet m m'
   | Inr (ob', m') \<Rightarrow> \<exists>m1 r. quiet m m1 \<and> trace m' = trace m1 @ [Call Mutex_unlock r]"
proof -
  from assms obtain err ob1 m1 where i: "init E ob m = Some (err, ob1, m1)"
    by (auto simp: main_start_def bind_Some_iff)
  from init_emits [OF i] obtain as h where as: "emits m m1 as" "init_spec as err h" by blast
  from quiet_emits [OF as(1) init_quiet [OF as(2)]] have q: "quiet m m1" .
  show ?thesis
  proof (cases "err = 0")
    case True
    with assms i q show ?thesis
      by (auto simp: main_start_def rtthread_Resume_def bind_Some_iff log_simps split: option.splits)
  next
    case False
    let ?m3 = "ext_do E Bcm2835_close (ext_do E Bcm2835_spi_end m1)"
    have "quiet m1 ?m3" by (simp add: quiet_def log_simps)
    with quiet_trans [OF q] assms i False show ?thesis by (auto simp: main_start_def Let_def)
  qed
qed

text \<open>The log of the creator in the program.\<close>

lemma program_creator_calls:
  assumes "rttestthread_ctor E raw g m0 = Some (t, g1, m1)" and "main_start E shield t m1 = Some out"
    and "trace (case out of Inl (st, ob, m) \<Rightarrow> m | Inr (ob, m) \<Rightarrow> m) = trace m0 @ xs"
  shows "(\<exists>f. out = Inl f) \<and> gate_calls xs = construction \<or>
    (\<exists>f ys r. out = Inr f \<and> xs = ys @ [Call Mutex_unlock r] \<and> gate_calls ys = construction)"
proof -
  have c: "gcalls m1 = gcalls m0 @ construction"
    using rtthread_ctor_calls [OF assms(1) [unfolded rttestthread_ctor_def]] by simp
  show ?thesis
  proof (cases out)
    case (Inl f)
    then obtain st ob m2 where out: "out = Inl (st, ob, m2)" by (cases f) auto
    have "gcalls m2 = gcalls m1" using main_start_calls [OF assms(2)] by (auto simp: out quiet_def)
    moreover have "gcalls m2 = gcalls m0 @ gate_calls xs" using assms(3) by (simp add: out)
    ultimately have "gate_calls xs = construction" using c by simp
    with Inl show ?thesis by blast
  next
    case (Inr f)
    then obtain ob m2 where out: "out = Inr (ob, m2)" by (cases f) auto
    obtain m3 r where "quiet m1 m3" and m3: "trace m2 = trace m3 @ [Call Mutex_unlock r]"
      using main_start_calls [OF assms(2)] by (auto simp: out)
    then have same: "gcalls m3 = gcalls m1" by (auto simp: quiet_def)
    have m2: "trace m2 = trace m0 @ xs" using assms(3) by (simp add: out)
    then have "gcalls m2 = gcalls m0 @ gate_calls xs" by simp
    with m3 same c have "gate_calls xs = construction @ [Mutex_unlock]" by simp
    then obtain ys x where xs: "xs = ys @ [x]" by (cases xs rule: rev_cases) auto
    with m2 m3 have "trace m3 = trace m0 @ ys" "x = Call Mutex_unlock r" by simp_all
    with same c xs have "xs = ys @ [Call Mutex_unlock r]" "gate_calls ys = construction" by simp_all
    with Inr show ?thesis by blast
  qed
qed

subsection \<open>Concrete interleavings\<close>

text \<open>A run of the creator, and a run of the thread when it passes the lock.\<close>

lemma creator_run:
  "fold_option pt_step (map (Pair Creator) xs) s = fold_option (pt_call Creator) (gate_calls xs) s"
proof (induction xs arbitrary: s)
  case (Cons x xs)
  have "pt_call Creator c s = Some s" if "\<not> gate_call c" for c
    using that by (cases c) (simp_all add: pt_call_def gate_call_def)
  moreover have "fold_option pt_step (map (Pair Creator) xs) = fold_option (pt_call Creator) (gate_calls xs)"
    by (rule ext) (rule Cons.IH)
  ultimately show ?case by (cases x) auto
qed simp

lemma quiet_run:
  "gate_calls xs = [] \<Longrightarrow> p = New_thread \<longrightarrow> alive s \<Longrightarrow> fold_option pt_step (map (Pair p) xs) s = Some s"
proof (induction xs arbitrary: s)
  case (Cons x xs)
  have "pt_call p c s = Some s" if "\<not> gate_call c" for c
    using that by (cases c) (simp_all add: pt_call_def gate_call_def)
  with Cons show ?case by (cases x) (auto split: if_splits)
qed simp

lemma part_map [simp]: "part p (map (Pair q) xs) = (if p = q then xs else [])"
  by (induction xs) auto

lemma whole_run:
  assumes "gate_calls xs = construction @ [Mutex_unlock]"
    and "zs = [Call Pthread_setcancelstate_ENABLE r1, Call Pthread_setcanceltype_ASYNCHRONOUS r2,
      Call Mutex_lock r3] @ ys" and "gate_calls ys = []"
  shows "\<exists>s. fold_option pt_step (map (Pair Creator) xs @ map (Pair New_thread) zs) pt_init = Some s"
proof -
  let ?s = "\<lparr>mutex = Locked_by New_thread, alive = True\<rparr>"
  have "fold_option pt_step (map (Pair Creator) xs) pt_init = Some \<lparr>mutex = Unlocked, alive = True\<rparr>"
    unfolding creator_run assms(1) by (simp add: pt_call_def pt_init_def)
  moreover have "fold_option pt_step (map (Pair New_thread) zs) \<lparr>mutex = Unlocked, alive = True\<rparr> =
      fold_option pt_step (map (Pair New_thread) ys) ?s"
    by (simp add: assms(2) pt_call_def)
  ultimately show ?thesis using quiet_run [OF assms(3), of New_thread ?s]
    by (simp add: fold_option_append)
qed

subsection \<open>Properties\<close>

lemma up_chip_thread_starts:
  assumes "m_priority t = 88"
  shows "\<exists>r. Start_thread up_chip plain_os (rt_body 1 up_chip real_fpu (Some (raw_shield real_fpu))) t (0, 99)
    (start ([], 0)) = Some r"
proof -
  let ?d = "Some (raw_shield real_fpu)"
  have body: "\<exists>x m'. rt_body 1 up_chip real_fpu ?d m = Some (x, m')" for m :: "(u8 list \<times> u16) machine"
  proof -
    obtain ob m' where "execute_fromthread 1 up_chip real_fpu (raw_shield real_fpu) m = Some (ob, m')"
      using execute_fromthread_returns [OF up_chip_responsive TrueI raw_shield_facts(5)] by blast
    then show ?thesis by (simp add: rt_body_def rttestthread_Execute_def)
  qed
  have "\<exists>e os. setscheduler plain_os 0 1 88 (0, 99) = Some (e, os)"
    using setscheduler_eq [OF plain_os_laws(1,3), of 88 0 1 "(0, 99)"]
    by (cases "two_attempts plain_os 0 1 88 (0, 99)") simp
  then obtain e os where sched: "setscheduler plain_os 0 1 88 (0, 99) = Some (e, os)" by blast
  show ?thesis
  proof -
    let ?m = "ext_do up_chip Mutex_lock (ext_do up_chip Pthread_setcanceltype_ASYNCHRONOUS
      (ext_do up_chip Pthread_setcancelstate_ENABLE (start ([], 0))))"
    obtain x m' y m'' where "rt_body 1 up_chip real_fpu ?d ?m = Some (x, m')"
      "rt_body 1 up_chip real_fpu ?d (ext_do up_chip (Pthread_setaffinity_self (m_rcpu t)) ?m) = Some (y, m'')"
      using body by metis
    then show ?thesis by (simp add: Start_thread_def ExecThread_def Let_def assms sched)
  qed
qed

text \<open>C22: The real-time thread never touches the bus before the shield is initialised. In every
  interleaving of the calls of the creator (the constructor of the thread object, \<open>main\<close>'s start-up and
  whatever \<open>main\<close> does then) with those of the new thread that POSIX threads allow: when the thread
  has made more than two calls, which is when it has passed its start mutex, then \<open>init\<close> has succeeded
  and everything the start-up does has been done.\<close>

theorem no_cycle_before_init:
  assumes "rttestthread_ctor E raw g m0 = Some (t, g1, m1)" and "main_start E shield t m1 = Some out"
    and "Start_thread E' S (rt_body n E' F device) t os mt = Some (stat, t', os', mt')"
    and "trace (case out of Inl (st, ob, m) \<Rightarrow> m | Inr (ob, m) \<Rightarrow> m) = trace m0 @ xs"
    and "trace mt' = trace mt @ zs"
    and "fold_option pt_step es pt_init = Some s"
    and "prefix (part Creator es) (xs @ ys)" and "gate_calls ys = []"
    and "prefix (part New_thread es) zs" and "2 < length (part New_thread es)"
  shows "(\<exists>shield' m2. out = Inr (shield', m2)) \<and> prefix xs (part Creator es)"
proof -
  obtain r1 r2 r3 ws where "trace mt' = trace mt @ [Call Pthread_setcancelstate_ENABLE r1,
      Call Pthread_setcanceltype_ASYNCHRONOUS r2, Call Mutex_lock r3] @ ws" and ws: "gate_calls ws = []"
    using Start_thread_calls [OF assms(3) rt_body_quiet] by blast
  with assms(5) have zs: "zs = [Call Pthread_setcancelstate_ENABLE r1,
      Call Pthread_setcanceltype_ASYNCHRONOUS r2, Call Mutex_lock r3] @ ws" by simp
  from gate_calls_prefix [OF assms(9)] ws
  have one: "prefix (gate_calls (part New_thread es)) [Mutex_lock]" by (simp add: zs)
  from assms(9,10) have locked: "gate_calls (part New_thread es) \<noteq> []"
    by (auto simp: zs prefix_Cons)
  from program_creator_calls [OF assms(1,2,4)] obtain f us where
    xs: "out = Inl f \<and> gate_calls xs = construction \<and> us = [] \<or>
      (\<exists>f ys r. out = Inr f \<and> xs = ys @ [Call Mutex_unlock r] \<and> gate_calls ys = construction \<and>
        us = [Mutex_unlock])" by blast
  from xs gate_calls_prefix [OF assms(7)] assms(8)
  have "prefix (gate_calls (part Creator es)) (construction @ us)" by auto
  moreover from xs have "creator_calls us"
    by (auto simp: creator_calls_def intro: exI [of _ 0] exI [of _ 1])
  ultimately obtain vs where vs: "gate_calls (part Creator es) = construction @ vs" "Mutex_unlock \<in> set vs"
    "prefix vs us"
    using lock_after_unlock [OF assms(6) _ _ one locked, of us] by auto
  with xs obtain f ys r where out: "out = Inr f" and ys: "xs = ys @ [Call Mutex_unlock r]"
    "gate_calls ys = construction" by auto
  have "prefix xs (part Creator es)"
  proof (rule ccontr)
    assume no: "\<not> prefix xs (part Creator es)"
    with assms(7) have "prefix (part Creator es) xs" by (metis prefix_append prefix_order.refl)
    with no have "prefix (part Creator es) ys" by (auto simp: ys(1))
    from gate_calls_prefix [OF this] vs(1,2) show False by (auto simp: ys(2) prefix_Cons)
  qed
  with out show ?thesis by (cases f) simp
qed

theorem no_cycle_before_init_witness:
  "\<exists>t g1 m1 shield' m2 stat t' os' mt' s.
     rttestthread_ctor up_chip static_threadbase \<lparr>sc_cpu = 0, nproc = - 1, s_threadunique = 0\<rparr>
       (start ([], 0)) = Some (t, g1, m1) \<and>
     main_start up_chip (raw_shield real_fpu) t m1 = Some (Inr (shield', m2)) \<and>
     Start_thread up_chip plain_os (rt_body 1 up_chip real_fpu (Some (raw_shield real_fpu))) t (0, 99)
       (start ([], 0)) = Some (stat, t', os', mt') \<and>
     fold_option pt_step (map (Pair Creator) (trace m2) @ map (Pair New_thread) (trace mt')) pt_init = Some s \<and>
     2 < length (trace mt') \<and>
     prefix (trace m2) (part Creator (map (Pair Creator) (trace m2) @ map (Pair New_thread) (trace mt')))"
proof -
  let ?d = "Some (raw_shield real_fpu)"
  have "\<exists>t g1 m1. rttestthread_ctor up_chip static_threadbase
      \<lparr>sc_cpu = 0, nproc = - 1, s_threadunique = 0\<rparr> (start ([], 0)) = Some (t, g1, m1) \<and>
      live_handle t = 3 \<and> m_priority t = 88"
    unfolding rttestthread_ctor_def by (rule rtthread_ctor_handle) simp_all
  then obtain t g1 m1 where t: "rttestthread_ctor up_chip static_threadbase
      \<lparr>sc_cpu = 0, nproc = - 1, s_threadunique = 0\<rparr> (start ([], 0)) = Some (t, g1, m1)"
    and h: "live_handle t = 3" and pr: "m_priority t = 88" by blast
  from h have "imp_buf t \<noteq> None" by (cases "imp_buf t") (simp_all add: live_handle_def)
  then obtain shield' m2 where ms: "main_start up_chip (raw_shield real_fpu) t m1 = Some (Inr (shield', m2))"
    using init_up_chip [of "raw_shield real_fpu" m1] by (auto simp: main_start_def rtthread_Resume_def)
  have "\<exists>r. Start_thread up_chip plain_os (rt_body 1 up_chip real_fpu ?d) t (0, 99) (start ([], 0)) = Some r"
    by (rule up_chip_thread_starts [OF pr])
  then obtain stat t' os' mt' where st: "Start_thread up_chip plain_os (rt_body 1 up_chip real_fpu ?d) t (0, 99)
      (start ([], 0)) = Some (stat, t', os', mt')" by (metis prod_cases4)
  obtain r1 r2 r3 ys where zs: "trace mt' = [Call Pthread_setcancelstate_ENABLE r1,
      Call Pthread_setcanceltype_ASYNCHRONOUS r2, Call Mutex_lock r3] @ ys" "gate_calls ys = []"
    using Start_thread_calls [OF st rt_body_quiet] by auto
  have ends: "trace (case Inr (shield', m2) of Inl (st, ob, m) \<Rightarrow> m | Inr (ob, m) \<Rightarrow> m) =
      trace (start ([], 0)) @ trace m2" by simp
  from program_creator_calls [OF t ms ends] have "gate_calls (trace m2) = construction @ [Mutex_unlock]"
    by auto
  from whole_run [OF this zs(1) zs(2)] obtain s where
    run: "fold_option pt_step (map (Pair Creator) (trace m2) @ map (Pair New_thread) (trace mt')) pt_init = Some s"
    by blast
  have len: "2 < length (trace mt')" by (simp add: zs)
  have "prefix (trace m2) (part Creator (map (Pair Creator) (trace m2) @ map (Pair New_thread) (trace mt')))"
    using no_cycle_before_init [OF t ms st ends _ run, of "trace mt'" "[]"] len by simp
  with t ms st run len show ?thesis by blast
qed

text \<open>C23: The calls of the class \<open>thread\<close> are steps of the start gate. Any interleaving that POSIX
  threads allow, of the calls of a creator (the constructor, then any series of \<open>Resume\<close> and
  \<open>Terminate\<close>) with those of \<open>__Start_thread\<close>, whatever its \<open>Execute\<close> does besides these calls,
  corresponds to a reachable state of \<open>gate_step\<close> with as many unlocks and entries. So the code of
  the thread is entered at most once, and only after its creator has unlocked the start mutex.\<close>

theorem thread_runs_the_gate:
  assumes "thread_ctor E p r c cr st raw m0 = (ob, m1)" and "imp_buf ob \<noteq> None"
    and "run_thread E ops ob m1 = Some (ob2, m2)" and "trace m2 = trace m0 @ xs"
    and "Start_thread E' S Execute ob os mt = Some (stat, t', os', mt')"
    and "quiet_code Execute" and "trace mt' = trace mt @ zs"
    and "fold_option pt_step es pt_init = Some s"
    and "prefix (part Creator es) xs" and "prefix (part New_thread es) zs"
  shows "\<exists>g. reach gate_init gate_step g \<and>
    entered g = length (gate_calls (part New_thread es)) \<and>
    unlocks g = count_list (gate_calls (part Creator es)) Mutex_unlock \<and>
    entered g \<le> 1 \<and> (entered g = 1 \<longrightarrow> 0 < unlocks g) \<and> (activ g \<longleftrightarrow> phase g = Running)"
proof -
  obtain vs where vs: "creator_calls vs" "gcalls m2 = gcalls m1 @ vs"
    using run_thread_calls [OF assms(3)] by blast
  define us where "us = (if cr then [Mutex_unlock] else []) @ vs"
  have us: "creator_calls us" using vs(1) creator_calls_Cons by (auto simp: us_def)
  have "gcalls m2 = gcalls m0 @ construction @ us"
    using thread_ctor_calls [OF assms(1,2)] vs(2) by (simp add: us_def)
  moreover have "gcalls m2 = gcalls m0 @ gate_calls xs" using assms(4) by simp
  ultimately have "gate_calls xs = construction @ us" by simp
  with gate_calls_prefix [OF assms(9)] have
    creator: "prefix (gate_calls (part Creator es)) (construction @ us)" by simp
  obtain r1 r2 r3 ws where "trace mt' = trace mt @ [Call Pthread_setcancelstate_ENABLE r1,
      Call Pthread_setcanceltype_ASYNCHRONOUS r2, Call Mutex_lock r3] @ ws" "gate_calls ws = []"
    using Start_thread_calls [OF assms(5,6)] by blast
  with assms(7) have "zs = [Call Pthread_setcancelstate_ENABLE r1,
      Call Pthread_setcanceltype_ASYNCHRONOUS r2, Call Mutex_lock r3] @ ws" by simp
  with \<open>gate_calls ws = []\<close> have "gate_calls zs = [Mutex_lock]" by simp
  with gate_calls_prefix [OF assms(10)] have "prefix (gate_calls (part New_thread es)) [Mutex_lock]" by simp
  from interleaving_tracks [OF assms(8) creator us this] obtain g where g: "reach gate_init gate_step g"
    "tracks (gate_calls (part Creator es)) (length (gate_calls (part New_thread es))) s g" by blast
  then have "entered g = length (gate_calls (part New_thread es)) \<and>
      unlocks g = count_list (gate_calls (part Creator es)) Mutex_unlock"
    by (auto simp: tracks_def before_create_def after_create_def gate_start_def)
  with g(1) gate.reach_Inv [OF g(1)] show ?thesis by (auto simp: gate_inv_def)
qed

theorem thread_runs_the_gate_witness:
  "\<exists>ob m1 ob2 m2 stat t' os' mt' s g.
     thread_ctor up_chip 10 0 (- 1) False 0 static_threadbase (start ([], 0)) = (ob, m1) \<and>
     imp_buf ob \<noteq> None \<and> run_thread up_chip [Op_Resume] ob m1 = Some (ob2, m2) \<and>
     Start_thread up_chip plain_os (\<lambda>m. Some (0, m)) ob (0, 99) (start ([], 0)) = Some (stat, t', os', mt') \<and>
     fold_option pt_step (map (Pair Creator) (trace m2) @ map (Pair New_thread) (trace mt')) pt_init = Some s \<and>
     reach gate_init gate_step g \<and> entered g = 1 \<and> unlocks g = 1"
proof -
  obtain ob m1 where c: "thread_ctor up_chip 10 0 (- 1) False 0 static_threadbase (start ([], 0)) = (ob, m1)" by fastforce
  then have b: "imp_buf ob \<noteq> None" "m_isrt ob = 0"
    by (auto simp: thread_ctor_def threadbase_ctor_def Let_def split: prod.splits dest!: ext_call_regsD)
  obtain m2 where r: "run_thread up_chip [Op_Resume] ob m1 = Some (ob, m2)"
    and m2: "gcalls m2 = gcalls m1 @ [Mutex_unlock]"
    using b(1) by (auto simp: thread_Resume_def)
  have "\<exists>x. Start_thread up_chip plain_os (\<lambda>m. Some (0, m)) ob (0, 99) (start ([], 0)) = Some x"
    by (simp add: Start_thread_def ExecThread_def Let_def b(2))
  then obtain stat t' os' mt' where st: "Start_thread up_chip plain_os (\<lambda>m. Some (0, m)) ob (0, 99)
      (start ([], 0)) = Some (stat, t', os', mt')" by (metis prod_cases4)
  have q: "quiet_code (\<lambda>m :: (u8 list \<times> u16) machine. Some (0 :: u32, m))" by (simp add: quiet_code_def)
  obtain r1 r2 r3 ys where zs: "trace mt' = [Call Pthread_setcancelstate_ENABLE r1,
      Call Pthread_setcanceltype_ASYNCHRONOUS r2, Call Mutex_lock r3] @ ys" "gate_calls ys = []"
    using Start_thread_calls [OF st q] by auto
  have calls: "gcalls m2 = construction @ [Mutex_unlock]" using thread_ctor_calls [OF c b(1)] m2 by simp
  from whole_run [OF this zs(1) zs(2)] obtain s where
    run: "fold_option pt_step (map (Pair Creator) (trace m2) @ map (Pair New_thread) (trace mt')) pt_init = Some s"
    by blast
  obtain g where "reach gate_init gate_step g" "entered g = length (gcalls mt')"
    "unlocks g = count_list (gcalls m2) Mutex_unlock"
    using thread_runs_the_gate [where xs = "trace m2" and zs = "trace mt'", OF c b(1) r _ st q _ run] by auto
  then have "reach gate_init gate_step g \<and> entered g = 1 \<and> unlocks g = 1" by (simp add: calls zs)
  with c b(1) r st run show ?thesis by blast
qed

end
