(* ===== verification/Named_Mutex.thy ===== *)
theory Named_Mutex
  imports Prelude
begin

section \<open>The mutex class\<close>

text \<open>
  The classes \<open>basemutex\<close> and \<open>mutex\<close> of \<open>thread/src/thread.cpp\<close>: a binary semaphore on a named
  POSIX semaphore. The named semaphores of the system are a map from names to values. An operation
  may also block, or crash on a null pointer.
\<close>

subsection \<open>Semaphores\<close>

type_synonym sems = "string \<Rightarrow> nat option"

datatype 'a outcome = Crash | Blocked | Done 'a

text \<open>\<open>sem_open(name, O_CREAT, mode, 1)\<close>: an existing semaphore keeps its value.\<close>

definition sem_open :: "string \<Rightarrow> sems \<Rightarrow> sems" where
  "sem_open name S = (if S name = None then S(name \<mapsto> 1) else S)"

text \<open>\<open>sem_wait\<close> takes a unit when there is one. Otherwise it blocks, unless a signal handler interrupts
  the wait: then it returns an error (-1 with \<open>EINTR\<close>) and has taken nothing. \<open>interrupted\<close> says whether that
  happens.\<close>

definition sem_wait :: "bool \<Rightarrow> string option \<Rightarrow> sems \<Rightarrow> (int \<times> sems) outcome" where
  "sem_wait interrupted p S =
     (case p of None \<Rightarrow> Crash
      | Some n \<Rightarrow> (case S n of None \<Rightarrow> Crash
                  | Some v \<Rightarrow> if 0 < v then Done (0, S(n \<mapsto> v - 1))
                             else if interrupted then Done (- 1, S) else Blocked))"

definition sem_post :: "string option \<Rightarrow> sems \<Rightarrow> sems outcome" where
  "sem_post p S =
     (case p of None \<Rightarrow> Crash
      | Some n \<Rightarrow> (case S n of None \<Rightarrow> Crash | Some v \<Rightarrow> Done (S(n \<mapsto> v + 1))))"

definition sem_getvalue :: "string option \<Rightarrow> sems \<Rightarrow> nat outcome" where
  "sem_getvalue p S =
     (case p of None \<Rightarrow> Crash | Some n \<Rightarrow> (case S n of None \<Rightarrow> Crash | Some v \<Rightarrow> Done v))"

subsection \<open>The class\<close>

text \<open>\<open>mx_buf\<close> is \<open>imp_buf\<close>: null, or a block that holds a pointer to the semaphore, maybe null.\<close>

record mutex =
  m_name :: "string option"
  mx_buf_size :: nat
  mx_buf :: "string option option"

abbreviation (input) sem_t_size :: nat where "sem_t_size \<equiv> 32"

text \<open>The base class keeps a copy of the name.\<close>

definition basemutex_ctor :: "string \<Rightarrow> mutex \<Rightarrow> mutex" where
  "basemutex_ctor name ob = ob\<lparr>m_name := Some name\<rparr>"

definition basemutex_dtor :: "mutex \<Rightarrow> mutex" where
  "basemutex_dtor ob = (if m_name ob \<noteq> None then ob\<lparr>m_name := None\<rparr> else ob)"

text \<open>\<open>granted\<close> and \<open>opened\<close> are the successes of \<open>malloc\<close> and \<open>sem_open\<close>.\<close>

definition mutex_ctor :: "bool \<Rightarrow> bool \<Rightarrow> string \<Rightarrow> sems \<Rightarrow> mutex \<times> sems" where
  "mutex_ctor granted opened name S =
     (let ob = basemutex_ctor name \<lparr>m_name = None, mx_buf_size = 0, mx_buf = None\<rparr>;
          ob = ob\<lparr>mx_buf_size := 0, mx_buf := None\<rparr>;
          ob = ob\<lparr>mx_buf_size := sem_t_size\<rparr>
      in if granted then
           (if opened then (ob\<lparr>mx_buf := Some (Some name)\<rparr>, sem_open name S)
            else (ob\<lparr>mx_buf := Some None\<rparr>, S))
         else (ob, S))"

text \<open>The destructor closes the semaphore, which leaves its value alone, and frees the memory.\<close>

definition mutex_dtor :: "mutex \<Rightarrow> mutex" where
  "mutex_dtor ob =
     (let ob = (if mx_buf ob \<noteq> None \<and> mx_buf_size ob \<noteq> 0
                then ob\<lparr>mx_buf := None, mx_buf_size := 0\<rparr> else ob)
      in basemutex_dtor ob)"

text \<open>The operations dereference \<open>imp_buf\<close> without a check, and \<open>lock\<close> ignores what \<open>sem_wait\<close> returns: after
  an interrupted wait it returns like after one that took the semaphore.\<close>

definition lock :: "bool \<Rightarrow> mutex \<Rightarrow> sems \<Rightarrow> sems outcome" where
  "lock interrupted ob S =
     (case mx_buf ob of None \<Rightarrow> Crash
      | Some p_sema \<Rightarrow>
          (case sem_wait interrupted p_sema S of
             Crash \<Rightarrow> Crash
           | Blocked \<Rightarrow> Blocked
           | Done (result, S) \<Rightarrow> Done S))"

definition unlock :: "mutex \<Rightarrow> sems \<Rightarrow> sems outcome" where
  "unlock ob S = (case mx_buf ob of None \<Rightarrow> Crash | Some p_sema \<Rightarrow> sem_post p_sema S)"

definition reset_mutex :: "mutex \<Rightarrow> sems \<Rightarrow> sems outcome" where
  "reset_mutex ob S =
     (case mx_buf ob of None \<Rightarrow> Crash
      | Some p_sema \<Rightarrow>
          (case sem_getvalue p_sema S of
             Crash \<Rightarrow> Crash
           | Blocked \<Rightarrow> Blocked
           | Done v \<Rightarrow> if v = 0 then sem_post p_sema S else Done S))"

subsection \<open>Threads that use a mutex\<close>

text \<open>\<open>holders\<close> are the threads between their \<open>lock\<close> and their \<open>unlock\<close>. A thread waits in \<open>lock\<close> until it is
  not blocked, or until a signal interrupts it; \<open>broken\<close> counts the calls of \<open>lock\<close> that returned without the
  semaphore.\<close>

record mx_sys =
  sem_values :: sems
  holders :: "nat set"
  broken :: nat

definition mx_init :: "mutex \<Rightarrow> mx_sys \<Rightarrow> bool" where
  "mx_init ob s \<longleftrightarrow> holders s = {} \<and> broken s = 0 \<and>
     (\<exists>n. mx_buf ob = Some (Some n) \<and> sem_values s n = Some 1)"

inductive mx_step :: "mutex \<Rightarrow> mx_sys \<Rightarrow> mx_sys \<Rightarrow> bool" for ob where
  acquire: "t \<notin> holders s \<Longrightarrow> lock interrupted ob (sem_values s) = Done S \<Longrightarrow>
    mx_step ob s \<lparr>sem_values = S, holders = insert t (holders s),
      broken = broken s + (if lock False ob (sem_values s) = Blocked then 1 else 0)\<rparr>"
| release: "t \<in> holders s \<Longrightarrow> unlock ob (sem_values s) = Done S \<Longrightarrow>
    mx_step ob s \<lparr>sem_values = S, holders = holders s - {t}, broken = broken s\<rparr>"

inductive_cases mx_stepE: "mx_step ob s t"

text \<open>The value is 1 less the threads inside plus the locks that took nothing: a thread that entered without
  the semaphore posts it all the same when it leaves.\<close>

definition mx_inv :: "mutex \<Rightarrow> mx_sys \<Rightarrow> bool" where
  "mx_inv ob s \<longleftrightarrow> finite (holders s) \<and>
     (\<exists>n v. mx_buf ob = Some (Some n) \<and> sem_values s n = Some v \<and> v + card (holders s) = 1 + broken s)"

lemma lock_Blocked:
  "mx_buf ob = Some (Some n) \<Longrightarrow> S n = Some v \<Longrightarrow> lock i ob S = Blocked \<longleftrightarrow> v = 0 \<and> \<not> i"
  by (simp add: lock_def sem_wait_def)

lemma lock_Done:
  "mx_buf ob = Some (Some n) \<Longrightarrow> S n = Some v \<Longrightarrow>
   lock i ob S = Done S' \<longleftrightarrow> (0 < v \<and> S' = S(n \<mapsto> v - 1)) \<or> (v = 0 \<and> i \<and> S' = S)"
  by (auto simp: lock_def sem_wait_def)

lemma unlock_Done:
  "mx_buf ob = Some (Some n) \<Longrightarrow> S n = Some v \<Longrightarrow> unlock ob S = Done S' \<longleftrightarrow> S' = S(n \<mapsto> v + 1)"
  by (auto simp: unlock_def sem_post_def)

interpretation mx: step_invariant "mx_init ob" "mx_step ob" "mx_inv ob" for ob
proof unfold_locales
  fix s assume "mx_init ob s"
  then show "mx_inv ob s" by (auto simp: mx_init_def mx_inv_def)
next
  fix s t assume "mx_inv ob s" and step: "mx_step ob s t"
  then obtain n v where fin: "finite (holders s)" and n: "mx_buf ob = Some (Some n)"
    "sem_values s n = Some v" and v: "v + card (holders s) = 1 + broken s"
    by (auto simp: mx_inv_def)
  note lock = lock_Done [where S = "sem_values s", OF n] lock_Blocked [where S = "sem_values s", OF n]
  from step show "mx_inv ob t"
  proof (rule mx_stepE)
    fix u i S assume "t = \<lparr>sem_values = S, holders = insert u (holders s),
        broken = broken s + (if lock False ob (sem_values s) = Blocked then 1 else 0)\<rparr>"
      and "u \<notin> holders s" "lock i ob (sem_values s) = Done S"
    with fin n v show ?thesis by (auto simp: mx_inv_def lock)
  next
    fix u S assume "t = \<lparr>sem_values = S, holders = holders s - {u}, broken = broken s\<rparr>" "u \<in> holders s"
      "unlock ob (sem_values s) = Done S"
    moreover from \<open>u \<in> holders s\<close> fin have "0 < card (holders s)" by (auto simp: card_gt_0_iff)
    ultimately show ?thesis using fin n v by (auto simp: mx_inv_def unlock_Done [where S = "sem_values s", OF n])
  qed
qed

subsection \<open>Properties\<close>

text \<open>C28: Threads that use a mutex object only by \<open>lock\<close> and \<open>unlock\<close>, from a fresh semaphore with the value 1,
  exclude each other as long as no signal interrupts a wait: then at most one of them is between its calls, and a
  thread that asks for the mutex blocks exactly when another one holds it. \<open>lock\<close> does not look at the result of
  \<open>sem_wait\<close>, so each interrupted wait lets one more thread in, for good: the semaphore is left with a unit too
  many. With \<open>broken\<close> such waits at most that many more threads are inside, and \<open>lock\<close> blocks exactly when they
  are.\<close>

theorem mutex_excludes:
  assumes "reach (mx_init ob) (mx_step ob) s"
  shows "card (holders s) \<le> 1 + broken s \<and>
    (lock False ob (sem_values s) = Blocked \<longleftrightarrow> card (holders s) = 1 + broken s) \<and>
    (broken s = 0 \<longrightarrow> card (holders s) \<le> 1 \<and> (lock False ob (sem_values s) = Blocked \<longleftrightarrow> holders s \<noteq> {})) \<and>
    (\<exists>S. lock True ob (sem_values s) = Done S \<and>
      (S = sem_values s \<longleftrightarrow> card (holders s) = 1 + broken s))"
proof -
  from mx.reach_Inv [OF assms] obtain n v where fin: "finite (holders s)"
    and n: "mx_buf ob = Some (Some n)" "sem_values s n = Some v" and v: "v + card (holders s) = 1 + broken s"
    by (auto simp: mx_inv_def)
  have in_use: "holders s \<noteq> {} \<longleftrightarrow> 0 < card (holders s)" using fin by (simp add: card_gt_0_iff)
  note lock = lock_Done [where S = "sem_values s", OF n] lock_Blocked [where S = "sem_values s", OF n]
  show ?thesis
  proof (cases "v = 0")
    case True
    with v have "card (holders s) = 1 + broken s" by simp
    with True show ?thesis by (simp add: lock in_use)
  next
    case False
    with v have c: "card (holders s) < 1 + broken s" by linarith
    have "(sem_values s)(n \<mapsto> v - 1) \<noteq> sem_values s"
      using n(2) False by (metis diff_less fun_upd_same less_irrefl neq0_conv option.inject zero_less_one)
    with False c show ?thesis by (simp add: lock in_use)
  qed
qed

text \<open>The second thread of the witness is let in by a signal while the first one is inside.\<close>

theorem mutex_excludes_witness:
  "\<exists>ob S s t. mutex_ctor True True ''shm'' Map.empty = (ob, S) \<and> reach (mx_init ob) (mx_step ob) s \<and>
     holders s = {7} \<and> broken s = 0 \<and> card (holders s) \<le> 1 \<and> lock False ob (sem_values s) = Blocked \<and>
     reach (mx_init ob) (mx_step ob) t \<and> holders t = {7, 8} \<and> broken t = 1 \<and> card (holders t) \<le> 2 \<and>
     lock False ob (sem_values t) = Blocked"
proof -
  let ?ob = "\<lparr>m_name = Some ''shm'', mx_buf_size = sem_t_size, mx_buf = Some (Some ''shm'')\<rparr>"
  let ?r = "\<lparr>sem_values = [''shm'' \<mapsto> 1], holders = {}, broken = 0\<rparr>"
  let ?s = "\<lparr>sem_values = [''shm'' \<mapsto> 0], holders = {7}, broken = 0\<rparr>"
  let ?t = "\<lparr>sem_values = [''shm'' \<mapsto> 0], holders = {8, 7}, broken = 1\<rparr>"
  have c: "mutex_ctor True True ''shm'' Map.empty = (?ob, [''shm'' \<mapsto> 1])"
    by (simp add: mutex_ctor_def basemutex_ctor_def sem_open_def)
  have "reach (mx_init ?ob) (mx_step ?ob) ?r" by (rule reach_init) (simp add: mx_init_def)
  moreover have "mx_step ?ob ?r ?s"
    using acquire [of 7 ?r False ?ob "[''shm'' \<mapsto> 0]"] by (simp add: lock_def sem_wait_def)
  ultimately have s: "reach (mx_init ?ob) (mx_step ?ob) ?s" by (rule reach_step)
  moreover have "mx_step ?ob ?s ?t"
    using acquire [of 8 ?s True ?ob "[''shm'' \<mapsto> 0]"] by (simp add: lock_def sem_wait_def)
  ultimately have t: "reach (mx_init ?ob) (mx_step ?ob) ?t" by (rule reach_step)
  have "holders ?t = {7, 8}" by auto
  then show ?thesis using c s t mutex_excludes [OF s] mutex_excludes [OF t]
    by (intro exI [of _ ?ob] exI [of _ "[''shm'' \<mapsto> 1]"] exI [of _ ?s] exI [of _ ?t]) simp
qed

text \<open>\<open>reset\<close> makes a mutex free, whatever its state: a \<open>lock\<close> after it does not block, and a
  second \<open>reset\<close> changes nothing. When it is called while a thread holds the mutex, a second thread
  can enter.\<close>

lemma mutex_reset_frees:
  assumes "reset_mutex ob S = Done S'"
  shows "(\<exists>S''. lock False ob S' = Done S'') \<and> reset_mutex ob S' = Done S' \<and>
         (lock False ob S = Blocked \<longrightarrow> S' \<noteq> S)"
proof -
  from assms obtain n v where n: "mx_buf ob = Some (Some n)" "S n = Some v"
    and S': "S' = (if v = 0 then S(n \<mapsto> 1) else S)"
    by (auto simp: reset_mutex_def sem_getvalue_def sem_post_def split: option.splits outcome.splits if_splits)
  have "S(n \<mapsto> 1) \<noteq> S" if "v = 0"
    using n(2) that by (metis fun_upd_same option.inject zero_neq_one)
  with n S' show ?thesis
    by (auto simp: lock_def sem_wait_def reset_mutex_def sem_getvalue_def)
qed

end
