(* ===== verification/Footprint.thy ===== *)
theory Footprint
  imports Shield
begin

section \<open>What the operations do to the world\<close>

text \<open>
  Two interfaces of a platform, with what every operation of the program does when they are given.
  \<open>footprint\<close>: a preorder that the primitive steps of the world follow is followed by the operations of
  \<open>rpi_base/src/rpi_base.cpp\<close> and by a round of \<open>shield_9252/src/shield_9252.cpp\<close> after its wait.
  \<open>embedded_board\<close>: a platform that contains a board gives the answers of that board.
\<close>

definition no_ioctl :: "call \<Rightarrow> bool" where
  "no_ioctl c \<longleftrightarrow> (\<forall>h cmd arg. c \<noteq> Ioctl h cmd arg)"

lemma no_ioctl_calls [simp]:
  "no_ioctl (Gpio_write p l)" "no_ioctl (Gpio_set p)" "no_ioctl (Gpio_clr p)"
  by (simp_all add: no_ioctl_def)

subsection \<open>The footprint of the operations\<close>

text \<open>
  A preorder on the worlds that every transfer, every reading of the clock and every call but \<open>ioctl\<close>
  follows is followed by every operation of the program that makes no other calls.
\<close>

locale footprint =
  fixes E :: "'w platform" and R :: "'w \<Rightarrow> 'w \<Rightarrow> bool"
  assumes R_refl: "R u u"
    and R_trans: "R u v \<Longrightarrow> R v w \<Longrightarrow> R u w"
    and R_call: "no_ioctl c \<Longrightarrow> R w (snd (xcall E c w))"
    and R_xfer: "R w (snd (xfer E b w))"
    and R_clock: "R w (snd (clock E w))"
begin

lemma foot_ext_do: "no_ioctl c \<Longrightarrow> R u (env m) \<Longrightarrow> R u (env (ext_do E c m))"
  using R_trans [OF _ R_call] by (simp add: ext_do_env)

lemma foot_Write: "R u (env m) \<Longrightarrow> R u (env (SPI_Write E b m))"
  using R_trans [OF _ R_xfer] by (simp add: SPI_Write_def bcm2835_spi_transfer_def split: prod.split) (metis snd_conv)

lemma foot_Read: "SPI_Read E b m = (r, m') \<Longrightarrow> R u (env m) \<Longrightarrow> R u (env m')"
  using R_trans [OF _ R_xfer]
  by (auto simp: SPI_Read_def bcm2835_spi_transfer_def split: prod.splits) (metis snd_conv)

lemma foot_select:
  "R u (env m) \<Longrightarrow> R u (env (SCS_Low_macro E m))" "R u (env m) \<Longrightarrow> R u (env (SCS_High_macro E m))"
  by (simp_all add: SCS_Low_macro_def SCS_High_macro_def foot_ext_do)

lemma foot_read_loop: "read_loop E i n v m = (v', m') \<Longrightarrow> R u (env m) \<Longrightarrow> R u (env m')"
proof (induction n arbitrary: i v m)
  case 0
  then show ?case by simp
next
  case (Suc n)
  obtain b m1 where b: "SPI_Read E DUMMY_BYTE m = (b, m1)" by fastforce
  with Suc.prems(1) have "read_loop E (Suc i) n (set_Byte v i b) m1 = (v', m')" by simp
  from Suc.IH [OF this foot_Read [OF b Suc.prems(2)]] show ?case .
qed

lemma foot_write_loop: "R u (env m) \<Longrightarrow> R u (env (write_loop E i n v m))"
  by (induction n arbitrary: i m) (simp_all add: foot_Write)

lemma foot_Read_Reg: "Read_Reg E a n m = Some (v, m') \<Longrightarrow> R u (env m) \<Longrightarrow> R u (env m')"
  by (auto simp: Read_Reg_def Let_def split: if_splits prod.splits
      intro!: foot_select foot_Write elim!: foot_read_loop)

lemma foot_Read_Long: "Read_Long E a m = Some (v, m') \<Longrightarrow> R u (env m) \<Longrightarrow> R u (env m')"
  by (auto simp: Read_Long_def bind_Some_iff intro: foot_Read_Reg)

lemma foot_Write_Reg: "R u (env m) \<Longrightarrow> R u (env (Write_Reg E a d m))"
  by (simp add: Write_Reg_def Let_def foot_select foot_Write)

lemma foot_poll:
  assumes "poll (Read_Long E a) busy m = Some (v, m')" and "R u (env m)"
  shows "R u (env m')"
proof -
  obtain n where "reading (Read_Long E a) n m = Some (v, m')"
    using poll_some_reading [OF assms(1)] by auto
  then show ?thesis using assms(2)
    by (induction n arbitrary: m) (auto simp: bind_Some_iff intro: foot_Read_Long)
qed

lemmas foot_intros = foot_ext_do foot_select foot_Write foot_Write_Reg foot_write_loop

lemma foot_Read_Reg_Wait: "Read_Reg_Wait E a n m = Some (v, m') \<Longrightarrow> R u (env m) \<Longrightarrow> R u (env m')"
  by (auto simp: Read_Reg_Wait_def Let_def bind_Some_iff intro!: foot_intros elim!: foot_Read_Reg foot_poll)

lemma foot_ReadFifo:
  assumes "SPIReadProcRamFifo E ob m = Some (ob', m')" and "R u (env m)"
  shows "R u (env m')"
proof -
  from assms(1) obtain t m1 where
    poll: "poll (Read_Long E ECAT_PRAM_RD_CMD) rd_fifo_wait
      (Write_Reg E ECAT_PRAM_RD_CMD 0x80000000 (Write_Reg E ECAT_PRAM_RD_ADDR_LEN 0x00201000 m)) = Some (t, m1)"
    by (auto simp: SPIReadProcRamFifo_def Let_def bind_Some_iff)
  obtain b m2 where loop: "read_loop E 0 32 (BufferOut ob) (SPI_Write E 0 (SPI_Write E 0
      (SPI_Write E COMM_SPI_READ (SCS_Low_macro E m1)))) = (b, m2)" by fastforce
  from assms(1) poll loop have "m' = SCS_High_macro E m2"
    by (auto simp: SPIReadProcRamFifo_def Let_def)
  then show ?thesis
    using assms(2) by (auto intro!: foot_intros foot_poll [OF poll] foot_read_loop [OF loop])
qed

lemma foot_WriteFifo: "SPIWriteProcRamFifo E ob m = Some (ob', m') \<Longrightarrow> R u (env m) \<Longrightarrow> R u (env m')"
  by (auto simp: SPIWriteProcRamFifo_def Let_def bind_Some_iff intro!: foot_intros elim!: foot_poll)

lemma foot_MainTask: "MainTask E ob m = Some (st, ob', m') \<Longrightarrow> R u (env m) \<Longrightarrow> R u (env m')"
  by (auto simp: MainTask_def Let_def bind_Some_iff split: if_splits
      elim!: foot_Read_Reg_Wait foot_ReadFifo foot_WriteFifo)

lemma foot_Getns: "Getns E m = (t, m') \<Longrightarrow> R u (env m) \<Longrightarrow> R u (env m')"
  using R_trans [OF _ R_clock]
  by (auto simp: Getns_def clock_gettime_def split: prod.splits) (metis snd_conv)

text \<open>A round moves the world by its wait, then along the preorder.\<close>

lemma foot_round:
  assumes "execute_round E F ob m = Some (ob', m')" and "waitforirq_or_timeout E ob 100 m = (err, m1)"
  shows "R (env m1) (env m')"
proof -
  obtain a m2 where g0: "Getns E m1 = (a, m2)" by fastforce
  with assms obtain st ob1 m3 where main: "MainTask E ob (ext_do E (Gpio_set OUT) m2) = Some (st, ob1, m3)"
    by (auto simp: execute_round_def Let_def bind_Some_iff)
  obtain b m4 where g1: "Getns E (ext_do E (Gpio_clr OUT) m3) = (b, m4)" by fastforce
  from assms g0 main g1 have "m' = m4" by (auto simp: execute_round_def Let_def)
  moreover have "R (env m1) (env m3)"
    by (intro foot_MainTask [OF main] foot_ext_do no_ioctl_calls foot_Getns [OF g0] R_refl)
  ultimately show ?thesis
    by (auto intro: foot_Getns [OF g1] foot_ext_do no_ioctl_calls)
qed

end

subsection \<open>The board keeps what it promises\<close>

text \<open>
  A platform whose world holds the world of another one, and that answers everything but \<open>ioctl\<close> as
  that one does, with no effect of \<open>ioctl\<close> on it: what the program reads from the chip is the same on both.
\<close>

locale embedded_board =
  fixes B :: "'v platform" and E :: "'w platform" and board :: "'v \<Rightarrow> 'w"
  assumes B_call: "no_ioctl c \<Longrightarrow> apsnd board (xcall B c v) = xcall E c (board v)"
    and B_xfer: "apsnd board (xfer B b v) = xfer E b (board v)"
    and B_indet: "indet B v = indet E (board v)"
    and B_clock: "apsnd board (clock B v) = clock E (board v)"
    and B_fread: "apsnd board (fread B n v) = fread E n (board v)"
    and B_ioctl: "board (snd (xcall B (Ioctl h cmd arg) v)) = board v"
begin

definition seen :: "'v machine \<Rightarrow> 'w machine" where
  "seen m = \<lparr>env = board (env m), trace = trace m\<rparr>"

lemma seen_ext_do: "no_ioctl c \<Longrightarrow> seen (ext_do B c m) = ext_do E c (seen m)"
  using B_call [of c "env m"]
  by (cases "xcall B c (env m)") (simp add: ext_do_def ext_call_def seen_def flip: B_call)

lemma seen_transfer:
  "apsnd seen (bcm2835_spi_transfer B b m) = bcm2835_spi_transfer E b (seen m)"
  using B_xfer [of b "env m"]
  by (cases "xfer B b (env m)") (simp add: bcm2835_spi_transfer_def seen_def flip: B_xfer)

lemma seen_Write: "seen (SPI_Write B b m) = SPI_Write E b (seen m)"
  by (simp add: SPI_Write_def flip: seen_transfer)

lemma seen_read_loop: "apsnd seen (read_loop B i n v m) = read_loop E i n v (seen m)"
proof (induction n arbitrary: i v m)
  case 0
  show ?case by simp
next
  case (Suc n)
  obtain b m1 where b: "SPI_Read B DUMMY_BYTE m = (b, m1)" by fastforce
  then have "SPI_Read E DUMMY_BYTE (seen m) = (b, seen m1)"
    by (simp add: SPI_Read_def flip: seen_transfer)
  with b Suc.IH [of "Suc i" "set_Byte v i b" m1] show ?case by simp
qed

lemma seen_Read_Reg:
  "map_option (apsnd seen) (Read_Reg B a n m) = Read_Reg E a n (seen m)"
proof -
  let ?h = "\<lambda>E m. SPI_Write E (Byte a 0) (SPI_Write E (Byte a 1) (SPI_Write E COMM_SPI_READ (SCS_Low_macro E m)))"
  have h: "?h E (seen m) = seen (?h B m)"
    by (simp add: SCS_Low_macro_def seen_Write seen_ext_do)
  have i: "indet E (env (seen m)) = indet B (env m)"
    by (simp add: seen_def B_indet)
  obtain v m1 where l: "read_loop B 0 (unat n) (indet B (env m)) (?h B m) = (v, m1)" by fastforce
  then have "read_loop E 0 (unat n) (indet B (env m)) (?h E (seen m)) = (v, seen m1)"
    unfolding h by (simp flip: seen_read_loop)
  with l show ?thesis
    by (simp add: Read_Reg_def i SCS_High_macro_def seen_ext_do)
qed

lemma seen_Read_Long: "map_option (apsnd seen) (Read_Long B a m) = Read_Long E a (seen m)"
  unfolding Read_Long_def by (cases "Read_Reg B a 4 m") (auto simp flip: seen_Read_Reg)

lemma seen_reading:
  "map_option (apsnd seen) (reading (Read_Long B a) n m) = reading (Read_Long E a) n (seen m)"
proof (induction n arbitrary: m)
  case 0
  show ?case by (simp add: seen_Read_Long)
next
  case (Suc n)
  show ?case by (cases "Read_Long B a m") (auto simp: Suc.IH simp flip: seen_Read_Long)
qed

lemma seen_env [simp]: "env (seen m) = board (env m)"
  by (simp add: seen_def)

lemma seen_select: "seen (SCS_Low_macro B m) = SCS_Low_macro E (seen m)"
  "seen (SCS_High_macro B m) = SCS_High_macro E (seen m)"
  by (simp_all add: SCS_Low_macro_def SCS_High_macro_def seen_ext_do)

lemma seen_write_loop: "seen (write_loop B i n v m) = write_loop E i n v (seen m)"
  by (induction n arbitrary: i m) (simp_all add: seen_Write)

lemma seen_Write_Reg: "seen (Write_Reg B a d m) = Write_Reg E a d (seen m)"
  by (simp add: Write_Reg_def Let_def seen_select seen_Write)

lemma seen_transfers:
  "seen (read_started B m) = read_started E (seen m)" "seen (write_started B m) = write_started E (seen m)"
  "seen (read_taken B b m) = read_taken E b (seen m)" "seen (write_given B b m) = write_given E b (seen m)"
proof -
  have "seen (snd (read_loop B i n v x)) = snd (read_loop E i n v (seen x))" for i n and v :: PROCBUFFER and x
    by (cases "read_loop B i n v x") (simp flip: seen_read_loop)
  then show "seen (read_taken B b m) = read_taken E b (seen m)"
    by (simp add: read_taken_def seen_select seen_Write)
qed (simp_all add: read_started_def write_started_def write_given_def seen_Write_Reg seen_select seen_Write
    seen_write_loop)

lemma seen_answers:
  assumes "answers E a busy Q (seen m)"
  shows "answers B a busy (\<lambda>m'. Q (seen m')) m"
proof -
  obtain n v m1 where r: "map_option (apsnd seen) (reading (Read_Long B a) n m) = Some (v, m1)" "\<not> busy v"
    "\<forall>k < n. \<forall>u m2. map_option (apsnd seen) (reading (Read_Long B a) k m) = Some (u, m2) \<longrightarrow> busy u" "Q m1"
    using assms unfolding answers_def seen_reading by blast
  from r(1) obtain m' where "reading (Read_Long B a) n m = Some (v, m')" "m1 = seen m'" by auto
  with r(2-4) show ?thesis unfolding answers_def by (intro exI [of _ n] exI [of _ v] exI [of _ m']) auto
qed

lemma seen_undisturbed:
  assumes "undisturbed E P"
  shows "undisturbed B (\<lambda>v. P (board v))"
  unfolding undisturbed_def
proof (intro conjI allI impI)
  fix c v assume c: "off_bus c" "P (board v)"
  show "P (board (snd (xcall B c v)))"
  proof (cases "no_ioctl c")
    case True
    have "board (snd (xcall B c v)) = snd (xcall E c (board v))"
      using arg_cong [OF B_call [OF True], of snd v] by simp
    with assms c show ?thesis by (simp add: undisturbed_def)
  next
    case False
    with c(2) show ?thesis by (auto simp: no_ioctl_def B_ioctl)
  qed
next
  fix v assume "P (board v)"
  moreover have "board (snd (clock B v)) = snd (clock E (board v))"
    using arg_cong [OF B_clock, of snd v] by simp
  ultimately show "P (board (snd (clock B v)))" using assms by (simp add: undisturbed_def)
next
  fix n v assume "P (board v)"
  moreover have "board (snd (fread B n v)) = snd (fread E n (board v))"
    using arg_cong [OF B_fread, of snd n v] by simp
  ultimately show "P (board (snd (fread B n v)))" using assms by (simp add: undisturbed_def)
qed

text \<open>The chip on the board answers here as it does there.\<close>

lemma seen_responsive:
  assumes "responsive E P"
  shows "responsive B (\<lambda>v. P (board v))"
  unfolding responsive_def
proof (intro conjI allI impI ballI)
  show "undisturbed B (\<lambda>v. P (board v))"
    by (rule seen_undisturbed [OF responsive_undisturbed [OF assms]])
  fix m :: "'v machine" assume "P (board (env m))"
  then have rest: "P (env (seen m))" by simp
  show "P (board (env (Write_Reg B a d m)))" if "a \<in> {ECAT_CSR_DATA, IRQ_CFG, INT_EN}" for a d
    using responsive_write [OF assms rest that, of d] by (simp flip: seen_Write_Reg)
  show "P (board (env (ext_do B (Usleep 2000) (Write_Reg B RESET_CTL d m))))" for d
    using responsive_reset [OF assms rest, of d]
    by (simp flip: seen_Write_Reg seen_ext_do add: no_ioctl_def)
  show "P (board (env m'))" if "a \<in> {HW_CFG, BYTE_TEST, ECAT_CSR_DATA}" "Read_Reg B a n m = Some (v, m')" for a n v m'
    using responsive_read [OF assms rest that(1), of n v "seen m'"] seen_Read_Reg [of a n m] that(2) by simp
  show "answers B ECAT_CSR_CMD csr_busy (\<lambda>m'. P (board (env m')))
      (Write_Reg B ECAT_CSR_CMD (ucast (csr_command u a n cmd)) m)"
    if "n \<in> {1, 2, 4}" "cmd \<in> {ESC_READ, ESC_WRITE}" for u a n cmd
  proof -
    have "answers E ECAT_CSR_CMD csr_busy (\<lambda>m'. P (env m'))
        (seen (Write_Reg B ECAT_CSR_CMD (ucast (csr_command u a n cmd)) m))"
      using assms rest that unfolding responsive_def seen_Write_Reg by blast
    from seen_answers [OF this] show ?thesis by simp
  qed
  have "answers E ECAT_PRAM_RD_CMD rd_fifo_wait (\<lambda>m'. \<forall>b. P (env (read_taken E b m'))) (seen (read_started B m))"
    using assms rest unfolding responsive_def seen_transfers by blast
  from seen_answers [OF this] show "answers B ECAT_PRAM_RD_CMD rd_fifo_wait
      (\<lambda>m'. \<forall>b. P (board (env (read_taken B b m')))) (read_started B m)"
    by (simp flip: seen_transfers)
  have "answers E ECAT_PRAM_WR_CMD wr_fifo_wait (\<lambda>m'. \<forall>b. P (env (write_given E b m'))) (seen (write_started B m))"
    using assms rest unfolding responsive_def seen_transfers by blast
  from seen_answers [OF this] show "answers B ECAT_PRAM_WR_CMD wr_fifo_wait
      (\<lambda>m'. \<forall>b. P (board (env (write_given B b m')))) (write_started B m)"
    by (simp flip: seen_transfers)
qed

end

end
