(* ===== verification/Down_Timeout.thy ===== *)
theory Down_Timeout
  imports Prelude
begin

section \<open>Waiting for the interrupt with a timeout\<close>

text \<open>
  \<open>down_timeoutms\<close> of the kernel driver (\<open>gpioirq_kdriver/gpioirq.c\<close>): a wait for the semaphore of
  the interrupt that repeats the wait in jiffies until the time in milliseconds is over. The
  services of the kernel that it calls are a parameter: a record of functions on a state of
  arbitrary type, which holds the semaphore and the clock.
\<close>

subsection \<open>The kernel and the function\<close>

text \<open>\<open>k_down_timeout\<close> and \<open>k_down_interruptible\<close> give 0 or a negative error.\<close>

record 'k irq_kernel =
  ktime_get_mono_fast_ns :: "'k \<Rightarrow> u64 \<times> 'k"
  k_down_timeout :: "u64 \<Rightarrow> 'k \<Rightarrow> int \<times> 'k"
  k_down_interruptible :: "'k \<Rightarrow> int \<times> 'k"
  usecs_to_jiffies :: "u32 \<Rightarrow> u64"

abbreviation (input) fac_ms2ns :: u64 where "fac_ms2ns \<equiv> 1000000"
abbreviation (input) fac_us2ns :: u64 where "fac_us2ns \<equiv> 1000"

text \<open>The argument of \<open>usecs_to_jiffies\<close> is an \<open>unsigned int\<close>.\<close>

definition localjiffies :: "'k irq_kernel \<Rightarrow> u64 \<Rightarrow> u64" where
  "localjiffies K rest_ns = max 1 (usecs_to_jiffies K (ucast (rest_ns div fac_us2ns)))"

text \<open>\<open>rest_ns\<close> is a \<open>long long\<close>, so it is positive when its signed value is.\<close>

partial_function (option) wait_loop ::
  "'k irq_kernel \<Rightarrow> u64 \<Rightarrow> u64 \<Rightarrow> int \<Rightarrow> 'k \<Rightarrow> (int \<times> 'k) option" where
  "wait_loop K endtime rest_ns err k =
     (if 0 < sint rest_ns then
        (let (err, k) = k_down_timeout K (localjiffies K rest_ns) k in
         if err = 0 then Some (err, k)
         else (let (now, k) = ktime_get_mono_fast_ns K k;
                   rest_ns = endtime - now
               in wait_loop K endtime rest_ns err k))
      else Some (err, k))"

definition down_timeoutms :: "'k irq_kernel \<Rightarrow> u64 \<Rightarrow> 'k \<Rightarrow> (int \<times> 'k) option" where
  "down_timeoutms K timeout_ms k =
     (let err = - 1;
          rest_ns = fac_ms2ns * timeout_ms;
          (now, k) = ktime_get_mono_fast_ns K k;
          endtime = now + rest_ns
      in wait_loop K endtime rest_ns err k)"

subsection \<open>What the function relies on\<close>

text \<open>
  \<open>T\<close> is the time in nanoseconds and \<open>taken\<close> the number of units taken from the semaphore. A
  reading of the clock is between the times before and after it; a wait that fails takes time and
  no unit, one that succeeds takes a unit; no single call lasts more than \<open>2^61\<close> ns (73 years).
\<close>

definition wait_laws :: "'k irq_kernel \<Rightarrow> ('k \<Rightarrow> nat) \<Rightarrow> ('k \<Rightarrow> nat) \<Rightarrow> bool" where
  "wait_laws K T taken \<longleftrightarrow>
     (\<forall>k. \<exists>t k'. ktime_get_mono_fast_ns K k = (of_nat t, k') \<and> T k \<le> t \<and> t \<le> T k' \<and>
        T k' \<le> T k + 2 ^ 61 \<and> taken k' = taken k) \<and>
     (\<forall>j k. 1 \<le> j \<longrightarrow> (\<exists>e k'. k_down_timeout K j k = (e, k') \<and> T k' \<le> T k + 2 ^ 61 \<and>
        (if e = 0 then T k \<le> T k' \<and> taken k' = taken k + 1
         else T k < T k' \<and> taken k' = taken k)))"

lemma localjiffies_ge_1: "1 \<le> localjiffies K r"
  by (simp add: localjiffies_def)

text \<open>The remaining time as a signed number, for a deadline \<open>d\<close> and a reading \<open>t\<close>.\<close>

lemma sint_rest:
  fixes d t :: nat
  assumes "d < t + 2 ^ 63" and "t \<le> d + 2 ^ 63"
  shows "sint (of_nat d - of_nat t :: u64) = int d - int t"
proof -
  have "(of_nat d - of_nat t :: u64) = word_of_int (int d - int t)" by simp
  moreover have "signed_take_bit 63 (int d - int t) = int d - int t"
    using assms by (intro signed_take_bit_int_eq_self) simp_all
  moreover have "sint (word_of_int x :: u64) = signed_take_bit 63 x" for x
    by (simp add: signed_of_int)
  ultimately show ?thesis by (simp only:)
qed

lemma wait_loop_correct:
  assumes "wait_laws K T taken" and "d < t + 2 ^ 63" and "t \<le> d + 3 * 2 ^ 61" and "t \<le> T k"
    and "T k \<le> t + 2 ^ 61" and "err \<noteq> 0"
  shows "\<exists>e k'. wait_loop K (of_nat d) (of_nat d - of_nat t) err k = Some (e, k') \<and> T k \<le> T k' \<and>
    (if e = 0 then taken k' = taken k + 1 else taken k' = taken k \<and> d \<le> T k')"
  using assms(2-6)
proof (induction "d - t" arbitrary: t k err rule: less_induct)
  case less
  let ?r = "of_nat d - of_nat t :: u64"
  have s: "sint ?r = int d - int t" using less.prems by (intro sint_rest) simp_all
  show ?case
  proof (cases "t < d")
    case False
    with less.prems s show ?thesis by (subst wait_loop.simps) simp
  next
    case True
    with s have pos: "0 < sint ?r" by simp
    obtain e k1 where dn: "k_down_timeout K (localjiffies K ?r) k = (e, k1)" "T k1 \<le> T k + 2 ^ 61"
      and ek: "if e = 0 then T k \<le> T k1 \<and> taken k1 = taken k + 1 else T k < T k1 \<and> taken k1 = taken k"
      using assms(1) localjiffies_ge_1 [of K ?r] unfolding wait_laws_def by blast
    obtain u k2 where now: "ktime_get_mono_fast_ns K k1 = (of_nat u, k2)" "T k1 \<le> u" "u \<le> T k2"
      "T k2 \<le> T k1 + 2 ^ 61" "taken k2 = taken k1"
      using assms(1) unfolding wait_laws_def by blast
    show ?thesis
    proof (cases "e = 0")
      case True
      with ek have "taken k1 = taken k + 1" "T k \<le> T k1" by simp_all
      with True pos dn(1) show ?thesis by (subst wait_loop.simps) simp
    next
      case False
      with ek have k1: "T k < T k1" "taken k1 = taken k" by simp_all
      have u: "t < u" "u \<le> t + 2 ^ 61 + 2 ^ 61 + 2 ^ 61"
        using less.prems k1 now dn(2) by simp_all
      have "\<exists>e' k'. wait_loop K (of_nat d) (of_nat d - of_nat u) e k2 = Some (e', k') \<and> T k2 \<le> T k' \<and>
        (if e' = 0 then taken k' = taken k2 + 1 else taken k' = taken k2 \<and> d \<le> T k')"
        using less.hyps [of u k2 e] less.prems u True now False dn(2) k1 by simp
      moreover have "T k \<le> T k2" using k1(1) now(2,3) by simp
      moreover have "wait_loop K (of_nat d) ?r err k = wait_loop K (of_nat d) (of_nat d - of_nat u) e k2"
        using False pos dn(1) now(1) by (subst wait_loop.simps) simp
      ultimately show ?thesis unfolding now(5) k1(2) by (metis order_trans)
    qed
  qed
qed

lemma down_timeoutms_start:
  assumes "wait_laws K T taken" and "unat timeout_ms * 1000000 < 2 ^ 62"
  shows "\<exists>t k1. T k \<le> t \<and> t \<le> T k1 \<and> T k1 \<le> t + 2 ^ 61 \<and> taken k1 = taken k \<and>
    down_timeoutms K timeout_ms k =
      wait_loop K (of_nat (t + unat timeout_ms * 1000000))
        (of_nat (t + unat timeout_ms * 1000000) - of_nat t) (- 1) k1"
proof -
  obtain t k1 where now: "ktime_get_mono_fast_ns K k = (of_nat t, k1)" "T k \<le> t" "t \<le> T k1"
    "T k1 \<le> T k + 2 ^ 61" "taken k1 = taken k"
    using assms(1) unfolding wait_laws_def by blast
  have "down_timeoutms K timeout_ms k =
      wait_loop K (of_nat (t + unat timeout_ms * 1000000))
        (of_nat (t + unat timeout_ms * 1000000) - of_nat t) (- 1) k1"
    unfolding down_timeoutms_def using now(1) by (simp add: Let_def mult.commute)
  with now show ?thesis by (intro exI [of _ t] exI [of _ k1]) simp
qed

subsection \<open>A concrete kernel\<close>

text \<open>The state is the time, the units in the semaphore and the units taken; a wait that fails lasts
  one tick of 4 ms.\<close>

definition tick_kernel :: "(nat \<times> nat \<times> nat) irq_kernel" where
  "tick_kernel = \<lparr>ktime_get_mono_fast_ns = (\<lambda>(t, u, n). (of_nat t, t, u, n)),
     k_down_timeout = (\<lambda>j (t, u, n). if 0 < u then (0, t, u - 1, n + 1) else (- 62, t + 4000000, u, n)),
     k_down_interruptible = (\<lambda>(t, u, n). if 0 < u then (0, t, u - 1, n + 1) else (- 4, t, u, n)),
     usecs_to_jiffies = (\<lambda>us. ucast us div 4000)\<rparr>"

lemma tick_kernel_laws: "wait_laws tick_kernel fst (\<lambda>(t, u, n). n)"
  by (auto simp: wait_laws_def tick_kernel_def)

lemma down_timeoutms_waits:
  assumes "wait_laws K T taken" and "unat timeout_ms * 1000000 < 2 ^ 62"
  shows "\<exists>e k'. down_timeoutms K timeout_ms k = Some (e, k') \<and> T k \<le> T k' \<and>
    (if e = 0 then taken k' = taken k + 1
     else taken k' = taken k \<and> T k + unat timeout_ms * 1000000 \<le> T k')"
proof -
  let ?d = "unat timeout_ms * 1000000"
  obtain t k1 where s: "T k \<le> t" "t \<le> T k1" "T k1 \<le> t + 2 ^ 61" "taken k1 = taken k"
    and eq: "down_timeoutms K timeout_ms k =
      wait_loop K (of_nat (t + ?d)) (of_nat (t + ?d) - of_nat t) (- 1) k1"
    using down_timeoutms_start [OF assms] by blast
  obtain e k' where "wait_loop K (of_nat (t + ?d)) (of_nat (t + ?d) - of_nat t) (- 1) k1 = Some (e, k')"
    and m: "T k1 \<le> T k'" and r: "if e = 0 then taken k' = taken k1 + 1 else taken k' = taken k1 \<and> t + ?d \<le> T k'"
    using wait_loop_correct [OF assms(1), of "t + ?d" t k1 "- 1"] assms(2) s by auto
  then have "down_timeoutms K timeout_ms k = Some (e, k')" unfolding eq by simp
  then show ?thesis using m r s by (intro exI [of _ e] exI [of _ k']) (simp split: if_splits)
qed

subsection \<open>Properties\<close>



text \<open>With a timeout of zero, or one so long that its nanoseconds overflow into the sign, it
  fails at once without trying the semaphore, even when a unit is there.\<close>

lemma down_timeoutms_no_wait:
  assumes "sint (fac_ms2ns * timeout_ms) \<le> 0"
  shows "down_timeoutms K timeout_ms k = Some (- 1, snd (ktime_get_mono_fast_ns K k))"
  using assms by (simp add: down_timeoutms_def wait_loop.simps split: prod.split)

end
