(* ===== verification/Gpioirq.thy ===== *)
theory Gpioirq
  imports Down_Timeout Ioctl C_String
begin

section \<open>The kernel driver\<close>

text \<open>
  The driver \<open>gpioirq_kdriver/gpioirq.c\<close> with \<open>include/gpioirq/gpioirq.h\<close>: open, close, ioctl, the
  interrupt handler and the module's start and end. The state is what the driver has of the
  kernel: allocated contexts, registered interrupt handlers, the GPIO line, the character device;
  one open file has a pointer to its context. What the kernel answers to a call is an argument.
  A result \<open>None\<close> stands for a crash: an access through a null or stale pointer, or the use of a
  semaphore that was not initialised.
\<close>

subsection \<open>The state\<close>

type_synonym ptr = nat

text \<open>\<open>irq_lsigsema\<close> is the count of the semaphore, \<open>None\<close> for cleared memory that was not
  initialised by \<open>sema_init\<close>.\<close>

record MYCONTEXT =
  wOpen :: int
  rOpen :: int
  debuglevel :: int
  irq_number :: int
  devicename :: "char list"
  irq_lsigsema :: "nat option"

definition zeroed_context :: MYCONTEXT where
  "zeroed_context = \<lparr>wOpen = 0, rOpen = 0, debuglevel = 0, irq_number = 0,
     devicename = replicate 64 NUL, irq_lsigsema = None\<rparr>"

record drv =
  contexts :: "ptr \<Rightarrow> MYCONTEXT option"
  handlers :: "int \<Rightarrow> ptr option"
  gpio_owned :: bool
  chrdev :: bool

record open_file =
  write_mode :: bool
  private_data :: "ptr option"

text \<open>The kernel's answers during an open: the memory, the GPIO request, the mapping, the interrupt.\<close>

record open_answers =
  ans_kzalloc :: "ptr option"
  ans_gpio_request :: int
  ans_gpio_to_irq :: int
  ans_request_irq :: int

abbreviation (input) EFAULT :: int where "EFAULT \<equiv> 14"
abbreviation (input) EINVAL :: int where "EINVAL \<equiv> 22"
abbreviation (input) ENOTTY :: int where "ENOTTY \<equiv> 25"

definition upd_context :: "ptr \<Rightarrow> (MYCONTEXT \<Rightarrow> MYCONTEXT) \<Rightarrow> drv \<Rightarrow> drv option" where
  "upd_context md f d =
     (case contexts d md of
        None \<Rightarrow> None
      | Some c \<Rightarrow> Some (d\<lparr>contexts := (contexts d)(md \<mapsto> f c)\<rparr>))"

subsection \<open>Interrupts\<close>

text \<open>The handler gets the context that was registered with the interrupt.\<close>

definition r_irq_handler :: "ptr \<Rightarrow> drv \<Rightarrow> drv option" where
  "r_irq_handler md d =
     (case contexts d md of
        None \<Rightarrow> None
      | Some c \<Rightarrow>
          (case irq_lsigsema c of
             None \<Rightarrow> None
           | Some n \<Rightarrow> upd_context md (\<lambda>c. c\<lparr>irq_lsigsema := Some (n + 1)\<rparr>) d))"

text \<open>An interrupt \<open>irq\<close> arrives.\<close>

definition interrupt :: "int \<Rightarrow> drv \<Rightarrow> drv option" where
  "interrupt irq d = (case handlers d irq of None \<Rightarrow> Some d | Some md \<Rightarrow> r_irq_handler md d)"

definition r_int_config :: "open_answers \<Rightarrow> ptr \<Rightarrow> drv \<Rightarrow> drv option" where
  "r_int_config A md d =
     (if ans_gpio_request A \<noteq> 0 then Some d
      else upd_context md (\<lambda>c. c\<lparr>irq_number := ans_gpio_to_irq A\<rparr>) (d\<lparr>gpio_owned := True\<rparr>))"

definition r_int_release :: "ptr \<Rightarrow> drv \<Rightarrow> drv option" where
  "r_int_release md d =
     (case contexts d md of
        None \<Rightarrow> None
      | Some c \<Rightarrow>
          (let d = d\<lparr>handlers := (handlers d)(irq_number c := None)\<rparr>
           in Some (d\<lparr>gpio_owned := False\<rparr>)))"

subsection \<open>Open and close\<close>

text \<open>\<open>driver_open\<close> up to the registration of the interrupt, which an interrupt may follow at once.\<close>

definition driver_open_request :: "open_answers \<Rightarrow> open_file \<Rightarrow> drv \<Rightarrow> (int \<times> open_file \<times> drv) option" where
  "driver_open_request A instance d =
     (case ans_kzalloc A of
        None \<Rightarrow> None
      | Some md \<Rightarrow> do {
          let d = d\<lparr>contexts := (contexts d)(md \<mapsto> zeroed_context)\<rparr>;
          let instance = instance\<lparr>private_data := Some md\<rparr>;
          name \<leftarrow> store 0 (DEVICE_NAME @ [NUL]) (devicename zeroed_context);
          d \<leftarrow> upd_context md (\<lambda>c. c\<lparr>devicename := name\<rparr>) d;
          d \<leftarrow> r_int_config A md d;
          c \<leftarrow> contexts d md;
          if ans_request_irq A \<noteq> 0 then Some (- EFAULT, instance, d)
          else Some (0, instance, d\<lparr>handlers := (handlers d)(irq_number c \<mapsto> md)\<rparr>)
        })"

definition driver_open_finish :: "open_file \<Rightarrow> drv \<Rightarrow> drv option" where
  "driver_open_finish instance d = do {
     md \<leftarrow> private_data instance;
     d \<leftarrow> upd_context md (\<lambda>c. c\<lparr>wOpen := (if write_mode instance then 1 else 0)\<rparr>) d;
     upd_context md (\<lambda>c. c\<lparr>irq_lsigsema := Some 0\<rparr>) d
   }"

definition driver_open :: "open_answers \<Rightarrow> open_file \<Rightarrow> drv \<Rightarrow> (int \<times> open_file \<times> drv) option" where
  "driver_open A instance d = do {
     (r, instance, d) \<leftarrow> driver_open_request A instance d;
     if r \<noteq> 0 then Some (r, instance, d)
     else do {
       d \<leftarrow> driver_open_finish instance d;
       Some (0, instance, d)
     }
   }"

definition driver_close :: "open_file \<Rightarrow> drv \<Rightarrow> (int \<times> open_file \<times> drv) option" where
  "driver_close instance d = do {
     md \<leftarrow> private_data instance;
     d \<leftarrow> r_int_release md d;
     let d = d\<lparr>contexts := (contexts d)(md := None)\<rparr>;
     Some (0, instance\<lparr>private_data := None\<rparr>, d)
   }"

subsection \<open>Ioctl\<close>

text \<open>The context is the one of the file; its semaphore is in the state of the waiting functions.\<close>

definition my_api :: "'k irq_kernel \<Rightarrow> u32 \<Rightarrow> MYCONTEXT \<Rightarrow> u64 \<Rightarrow> 'k \<Rightarrow> (int \<times> 'k) option" where
  "my_api K cmd md arg k =
     (if IOC_NR cmd = IRQMODDEV_WAIT_IRQ then
        (if wOpen md = 0 then Some (- EINVAL, k) else Some (k_down_interruptible K k))
      else if IOC_NR cmd = IRQMODDEV_DOWN_TIMEOUT then
        (if wOpen md = 0 then Some (- EINVAL, k) else down_timeoutms K arg k)
      else Some (- ENOTTY, k))"

text \<open>\<open>access_ok\<close> is the kernel's check of a user address and a size.\<close>

definition driver_unioctl :: "'k irq_kernel \<Rightarrow> (u64 \<Rightarrow> u32 \<Rightarrow> bool) \<Rightarrow> u32 \<Rightarrow> MYCONTEXT \<Rightarrow> u64 \<Rightarrow>
    'k \<Rightarrow> (int \<times> 'k) option" where
  "driver_unioctl K access_ok cmd mycontext arg k =
     (let user_ptr = arg;
          parameter_error = False;
          parameter_error = (if IOC_DIR cmd AND IOC_READ \<noteq> 0
            then \<not> access_ok user_ptr (IOC_SIZE cmd) else parameter_error);
          parameter_error = (if IOC_DIR cmd AND IOC_WRITE \<noteq> 0
            then \<not> access_ok user_ptr (IOC_SIZE cmd) else parameter_error)
      in if parameter_error then Some (- EFAULT, k) else my_api K cmd mycontext arg k)"

subsection \<open>The module\<close>

text \<open>\<open>retval\<close> is the answer of \<open>register_chrdev\<close>.\<close>

definition r_init :: "int \<Rightarrow> drv \<Rightarrow> int \<times> drv" where
  "r_init retval d =
     (if retval = 0 then (0, d\<lparr>chrdev := True\<rparr>)
      else if 0 < retval then (0, d\<lparr>chrdev := True\<rparr>)
      else (- 1, d))"

definition r_cleanup :: "drv \<Rightarrow> drv" where
  "r_cleanup d = d\<lparr>chrdev := False\<rparr>"

text \<open>\<open>get_arginput\<close> of the header, on the number of bytes that could not be copied.\<close>

definition get_arginput :: "nat \<Rightarrow> int" where
  "get_arginput err = (if err \<noteq> 0 then - EFAULT else 0)"

subsection \<open>What open leaves behind\<close>

definition opened_irq :: "open_answers \<Rightarrow> int" where
  "opened_irq A = (if ans_gpio_request A \<noteq> 0 then 0 else ans_gpio_to_irq A)"

definition named_context :: "open_answers \<Rightarrow> MYCONTEXT" where
  "named_context A = zeroed_context\<lparr>devicename := DEVICE_NAME @ replicate 57 NUL,
     irq_number := opened_irq A\<rparr>"

lemma store_device_name:
  "store 0 (DEVICE_NAME @ [NUL]) (devicename zeroed_context) = Some (DEVICE_NAME @ replicate 57 NUL)"
  by (simp add: store_def zeroed_context_def DEVICE_NAME_def) (simp add: numeral_eq_Suc)

lemma zeroed_irq: "irq_number zeroed_context = 0"
  "zeroed_context\<lparr>devicename := n, irq_number := 0\<rparr> = zeroed_context\<lparr>devicename := n\<rparr>"
  "zeroed_context\<lparr>irq_number := 0, devicename := n\<rparr> = zeroed_context\<lparr>devicename := n\<rparr>"
  by (simp_all add: zeroed_context_def)

lemma driver_open_request_eq:
  assumes "ans_kzalloc A = Some md"
  shows "driver_open_request A f d =
    (let d' = d\<lparr>contexts := (contexts d)(md \<mapsto> named_context A),
                gpio_owned := (if ans_gpio_request A \<noteq> 0 then gpio_owned d else True)\<rparr>;
         f' = f\<lparr>private_data := Some md\<rparr>
     in if ans_request_irq A \<noteq> 0 then Some (- EFAULT, f', d')
        else Some (0, f', d'\<lparr>handlers := (handlers d)(opened_irq A \<mapsto> md)\<rparr>))"
  using assms
  by (simp add: driver_open_request_def store_device_name upd_context_def r_int_config_def
      named_context_def opened_irq_def zeroed_irq Let_def)

lemma driver_open_eq:
  assumes "ans_kzalloc A = Some md" and "ans_request_irq A = 0"
  shows "driver_open A f d = Some (0, f\<lparr>private_data := Some md\<rparr>,
    d\<lparr>contexts := (contexts d)(md \<mapsto> (named_context A)\<lparr>wOpen := (if write_mode f then 1 else 0),
                                      irq_lsigsema := Some 0\<rparr>),
      gpio_owned := (if ans_gpio_request A \<noteq> 0 then gpio_owned d else True),
      handlers := (handlers d)(opened_irq A \<mapsto> md)\<rparr>)"
  using assms
  by (simp add: driver_open_def driver_open_request_eq driver_open_finish_def upd_context_def Let_def)

text \<open>A number of interrupts in a row.\<close>

fun interrupts :: "nat \<Rightarrow> int \<Rightarrow> drv \<Rightarrow> drv option" where
  "interrupts 0 irq d = Some d"
| "interrupts (Suc n) irq d = do { d \<leftarrow> interrupt irq d; interrupts n irq d }"

lemma interrupts_count:
  assumes "handlers d irq = Some md" and "contexts d md = Some c" and "irq_lsigsema c = Some v"
  shows "interrupts n irq d =
    Some (d\<lparr>contexts := (contexts d)(md \<mapsto> c\<lparr>irq_lsigsema := Some (v + n)\<rparr>)\<rparr>)"
  using assms
proof (induction n arbitrary: d c v)
  case 0
  then have "c\<lparr>irq_lsigsema := Some (v + 0)\<rparr> = c" by simp
  with 0 show ?case by (simp add: fun_upd_idem)
next
  case (Suc n)
  let ?c = "c\<lparr>irq_lsigsema := Some (v + 1)\<rparr>"
  let ?d = "d\<lparr>contexts := (contexts d)(md \<mapsto> ?c)\<rparr>"
  have "interrupts (Suc n) irq d = interrupts n irq ?d"
    using Suc.prems by (simp add: interrupt_def r_irq_handler_def upd_context_def)
  also have "\<dots> = Some (?d\<lparr>contexts := (contexts ?d)(md \<mapsto> ?c\<lparr>irq_lsigsema := Some (v + 1 + n)\<rparr>)\<rparr>)"
    using Suc.prems(1) by (intro Suc.IH) simp_all
  also have "?d\<lparr>contexts := (contexts ?d)(md \<mapsto> ?c\<lparr>irq_lsigsema := Some (v + 1 + n)\<rparr>)\<rparr> =
      d\<lparr>contexts := (contexts d)(md \<mapsto> c\<lparr>irq_lsigsema := Some (v + Suc n)\<rparr>)\<rparr>"
    by simp
  finally show ?case .
qed

lemma driver_close_eq:
  assumes "private_data f = Some md" and "contexts d md = Some c"
  shows "driver_close f d = Some (0, f\<lparr>private_data := None\<rparr>,
    d\<lparr>handlers := (handlers d)(irq_number c := None), gpio_owned := False,
      contexts := (contexts d)(md := None)\<rparr>)"
  using assms by (simp add: driver_close_def r_int_release_def Let_def)

subsection \<open>A concrete driver\<close>

definition idle_drv :: drv where
  "idle_drv = \<lparr>contexts = Map.empty, handlers = Map.empty, gpio_owned = False, chrdev = True\<rparr>"

definition rw_file :: open_file where
  "rw_file = \<lparr>write_mode = True, private_data = None\<rparr>"

definition good_answers :: open_answers where
  "good_answers = \<lparr>ans_kzalloc = Some 8, ans_gpio_request = 0, ans_gpio_to_irq = 61, ans_request_irq = 0\<rparr>"

text \<open>The outcomes of the ioctl function.\<close>

lemma unioctl_outcome:
  "driver_unioctl K ok cmd c arg k =
     (if IOC_DIR cmd \<noteq> IOC_NONE \<and> \<not> ok arg (IOC_SIZE cmd) then Some (- EFAULT, k)
      else if IOC_NR cmd \<notin> {IRQMODDEV_WAIT_IRQ, IRQMODDEV_DOWN_TIMEOUT} then Some (- ENOTTY, k)
      else if wOpen c = 0 then Some (- EINVAL, k)
      else if IOC_NR cmd = IRQMODDEV_WAIT_IRQ then Some (k_down_interruptible K k)
      else down_timeoutms K arg k)"
proof -
  have "unat (IOC_DIR cmd) < 4"
  proof -
    have "IOC_DIR cmd = drop_bit 30 cmd AND mask 2" by (simp add: IOC_DIR_def mask_eq_exp_minus_1)
    then show ?thesis using and_mask_less' [of 2 "drop_bit 30 cmd"] by (simp add: word_less_nat_alt)
  qed
  then have "IOC_DIR cmd \<in> {0, 1, 2, 3}"
    by (auto simp: word_unat_eq_iff) 
  then have "IOC_DIR cmd \<noteq> 0 \<longleftrightarrow> IOC_DIR cmd AND IOC_READ \<noteq> 0 \<or> IOC_DIR cmd AND IOC_WRITE \<noteq> 0"
    by auto
  then show ?thesis
    by (auto simp: driver_unioctl_def my_api_def Let_def)
qed

subsection \<open>Properties\<close>

text \<open>C21: An open device counts: after \<open>driver_open\<close> has succeeded, \<open>n\<close> interrupts leave a count of
  \<open>n\<close> in the semaphore of its context, and a \<open>driver_close\<close> then gives everything back: the memory,
  the interrupt and the GPIO line.\<close>

theorem open_interrupts_close:
  assumes "ans_kzalloc A = Some md" and "ans_gpio_request A = 0" and "ans_request_irq A = 0"
    and "contexts d md = None" and "handlers d (ans_gpio_to_irq A) = None" and "\<not> gpio_owned d"
  shows "\<exists>f1 d1 d2 c. driver_open A f d = Some (0, f1, d1) \<and>
    interrupts n (ans_gpio_to_irq A) d1 = Some d2 \<and>
    contexts d2 md = Some c \<and> irq_lsigsema c = Some n \<and> (wOpen c \<noteq> 0 \<longleftrightarrow> write_mode f) \<and>
    driver_close f1 d2 = Some (0, f\<lparr>private_data := None\<rparr>, d)"
proof -
  let ?c = "(named_context A)\<lparr>wOpen := (if write_mode f then 1 else 0), irq_lsigsema := Some 0\<rparr>"
  let ?f1 = "f\<lparr>private_data := Some md\<rparr>"
  let ?d1 = "d\<lparr>contexts := (contexts d)(md \<mapsto> ?c), gpio_owned := True,
      handlers := (handlers d)(ans_gpio_to_irq A \<mapsto> md)\<rparr>"
  let ?c2 = "?c\<lparr>irq_lsigsema := Some (0 + n)\<rparr>"
  let ?d2 = "?d1\<lparr>contexts := (contexts ?d1)(md \<mapsto> ?c2)\<rparr>"
  have irq: "opened_irq A = ans_gpio_to_irq A" using assms(2) by (simp add: opened_irq_def)
  have o: "driver_open A f d = Some (0, ?f1, ?d1)"
    using driver_open_eq [OF assms(1,3), of f d] assms(2) irq by simp
  have i: "interrupts n (ans_gpio_to_irq A) ?d1 = Some ?d2"
    by (rule interrupts_count) simp_all
  have num: "irq_number ?c2 = ans_gpio_to_irq A" by (simp add: named_context_def irq)
  have "driver_close ?f1 ?d2 = Some (0, ?f1\<lparr>private_data := None\<rparr>,
      ?d2\<lparr>handlers := (handlers ?d2)(irq_number ?c2 := None), gpio_owned := False,
        contexts := (contexts ?d2)(md := None)\<rparr>)"
    by (rule driver_close_eq) simp_all
  also have "?d2\<lparr>handlers := (handlers ?d2)(irq_number ?c2 := None), gpio_owned := False,
        contexts := (contexts ?d2)(md := None)\<rparr> = d"
    unfolding num using assms(4-6) by (simp add: fun_upd_idem)
  also have "?f1\<lparr>private_data := None\<rparr> = f\<lparr>private_data := None\<rparr>" by simp
  finally have cl: "driver_close ?f1 ?d2 = Some (0, f\<lparr>private_data := None\<rparr>, d)" .
  show ?thesis
    by (intro exI [of _ ?f1] exI [of _ ?d1] exI [of _ ?d2] exI [of _ ?c2] conjI, rule o, rule i)
       (simp, simp, simp, rule cl)
qed

theorem open_interrupts_close_witness:
  "\<exists>f1 d1 d2 c. driver_open good_answers rw_file idle_drv = Some (0, f1, d1) \<and>
    interrupts 3 61 d1 = Some d2 \<and> contexts d2 8 = Some c \<and> irq_lsigsema c = Some 3 \<and>
    driver_close f1 d2 = Some (0, rw_file\<lparr>private_data := None\<rparr>, idle_drv)"
proof -
  have h: "ans_kzalloc good_answers = Some 8" "ans_gpio_request good_answers = 0"
    "ans_request_irq good_answers = 0" "contexts idle_drv 8 = None"
    "handlers idle_drv (ans_gpio_to_irq good_answers) = None" "\<not> gpio_owned idle_drv"
    "ans_gpio_to_irq good_answers = 61"
    by (simp_all add: good_answers_def idle_drv_def)
  show ?thesis
    using open_interrupts_close [OF h(1-6), of rw_file 3] unfolding h(7) by blast
qed

text \<open>When the interrupt cannot be registered, \<open>driver_open\<close> returns \<open>-EFAULT\<close> but keeps the
  context allocated and the GPIO line requested; nothing releases them, because the kernel does
  not call \<open>driver_close\<close> after a failed open.\<close>

lemma driver_open_leaks:
  assumes "ans_kzalloc A = Some md" and "ans_gpio_request A = 0" and "ans_request_irq A \<noteq> 0"
  shows "\<exists>f1 d1. driver_open A f d = Some (- EFAULT, f1, d1) \<and> contexts d1 md \<noteq> None \<and>
           gpio_owned d1 \<and> handlers d1 = handlers d"
  using assms by (simp add: driver_open_def driver_open_request_eq)

text \<open>\<open>driver_open\<close> registers the interrupt before it initialises the semaphore: an interrupt
  that arrives in between makes the handler use an uninitialised semaphore.\<close>

lemma early_interrupt_crashes:
  assumes "ans_kzalloc A = Some md" and "driver_open_request A f d = Some (0, f1, d1)"
  shows "interrupt (opened_irq A) d1 = None"
  using assms
  by (auto simp: driver_open_request_eq Let_def interrupt_def r_irq_handler_def named_context_def
      zeroed_context_def split: if_splits)

text \<open>C40: The driver decodes the commands as the header encodes them: on a file open for writing
  \<open>IRQMOD_WAIT_IRQ\<close> waits without and \<open>IRQMOD_DOWN_TIMEOUT\<close> with a timeout, which is its argument,
  and a command packed with any other number is refused with \<open>-ENOTTY\<close> and no wait.\<close>

theorem driver_decodes_commands:
  assumes "wOpen c \<noteq> 0" and "\<And>n. ok arg n"
    and "dir < 4" and "ty < 256" and "nr < 256" and "sz < 0x4000"
    and "nr \<noteq> IRQMODDEV_WAIT_IRQ" and "nr \<noteq> IRQMODDEV_DOWN_TIMEOUT"
  shows "driver_unioctl K ok IRQMOD_WAIT_IRQ c arg k = Some (k_down_interruptible K k) \<and>
    driver_unioctl K ok IRQMOD_DOWN_TIMEOUT c arg k = down_timeoutms K arg k \<and>
    driver_unioctl K ok (IOC dir ty nr sz) c arg k = Some (- ENOTTY, k)"
  using assms(1,2,7,8) irqmod_commands ioc_fields [OF assms(3-6)] by (simp add: unioctl_outcome)

theorem driver_decodes_commands_witness:
  "driver_unioctl tick_kernel (\<lambda>p n. True) IRQMOD_WAIT_IRQ (zeroed_context\<lparr>wOpen := 1\<rparr>) 100 (0, 5, 0) =
     Some (0, 0, 4, 1) \<and>
   driver_unioctl tick_kernel (\<lambda>p n. True) (IOC 1 0x42 43 4) (zeroed_context\<lparr>wOpen := 1\<rparr>) 100 (0, 5, 0) =
     Some (- 25, 0, 5, 0)"
proof -
  have w: "wOpen (zeroed_context\<lparr>wOpen := 1\<rparr>) \<noteq> 0" by simp
  have a: "\<And>n :: u32. True" by simp
  have r: "(1 :: u32) < 4" "(0x42 :: u32) < 256" "(43 :: u32) < 256" "(4 :: u32) < 0x4000" by simp_all
  have n: "43 \<noteq> IRQMODDEV_WAIT_IRQ" "43 \<noteq> IRQMODDEV_DOWN_TIMEOUT"
    by (simp_all add: IRQMODDEV_WAIT_IRQ_def IRQMODDEV_DOWN_TIMEOUT_def)
  have k: "k_down_interruptible tick_kernel (0, 5, 0) = (0, 0, 4, 1)" by (simp add: tick_kernel_def)
  show ?thesis
    using driver_decodes_commands [where ok = "\<lambda>p n. True" and arg = 100 and K = tick_kernel
      and k = "(0, 5, 0)", OF w a r n] k by simp
qed

end
