(* ===== verification/Irq_Count.thy ===== *)
theory Irq_Count
  imports Gpioirq
begin

section \<open>Interrupts, the semaphore and the waits\<close>

text \<open>
  The semaphore of an open file of \<open>gpioirq_kdriver/gpioirq.c\<close> between the interrupt handler that
  counts it up and the waits of \<open>down_timeoutms\<close> that take its units: what the kernel promises of
  \<open>down_timeout\<close>, over the driver's own handler, and the balance that follows.
\<close>

subsection \<open>The semaphore of the driver\<close>

text \<open>The file is open: its handler is registered, with a context whose semaphore is initialised.\<close>

definition armed :: "ptr \<Rightarrow> int \<Rightarrow> drv \<Rightarrow> bool" where
  "armed md irq d \<longleftrightarrow> handlers d irq = Some md \<and>
     (\<exists>c v. contexts d md = Some c \<and> irq_lsigsema c = Some v)"

definition units :: "ptr \<Rightarrow> drv \<Rightarrow> nat" where
  "units md d = (case contexts d md of None \<Rightarrow> 0
     | Some c \<Rightarrow> (case irq_lsigsema c of None \<Rightarrow> 0 | Some v \<Rightarrow> v))"

text \<open>What a wait that succeeds does to the semaphore.\<close>

definition down_unit :: "ptr \<Rightarrow> drv \<Rightarrow> drv" where
  "down_unit md d = d\<lparr>contexts := (contexts d)
     (md := map_option (\<lambda>c. c\<lparr>irq_lsigsema := map_option (\<lambda>v. v - 1) (irq_lsigsema c)\<rparr>) (contexts d md))\<rparr>"

text \<open>
  \<open>D\<close> is the driver's part of the kernel's state and \<open>raised\<close> the number of interrupts so far. While
  the kernel does anything, interrupts run the handler; a wait that succeeds takes a unit between two
  of them, and a wait that finds a unit succeeds.
\<close>

definition sema_step :: "ptr \<Rightarrow> int \<Rightarrow> ('k \<Rightarrow> drv) \<Rightarrow> ('k \<Rightarrow> nat) \<Rightarrow> bool \<Rightarrow> 'k \<Rightarrow> 'k \<Rightarrow> bool" where
  "sema_step md irq D raised took k k' \<longleftrightarrow> (armed md irq (D k) \<longrightarrow>
     (\<exists>n i d. interrupts n irq (D k) = Some d \<and> raised k' = raised k + n + i \<and>
        (if took then 0 < units md d \<and> interrupts i irq (down_unit md d) = Some (D k')
         else interrupts i irq d = Some (D k'))))"

definition sema_laws :: "'k irq_kernel \<Rightarrow> ('w \<Rightarrow> 'k \<Rightarrow> 'k) \<Rightarrow> ptr \<Rightarrow> int \<Rightarrow> ('k \<Rightarrow> drv) \<Rightarrow> ('k \<Rightarrow> nat) \<Rightarrow> bool" where
  "sema_laws K pass md irq D raised \<longleftrightarrow>
     (\<forall>k. sema_step md irq D raised False k (snd (ktime_get_mono_fast_ns K k))) \<and>
     (\<forall>j k. sema_step md irq D raised (fst (k_down_timeout K j k) = 0) k (snd (k_down_timeout K j k))) \<and>
     (\<forall>w k. sema_step md irq D raised False k (pass w k)) \<and>
     (\<forall>j k. armed md irq (D k) \<and> 0 < units md (D k) \<longrightarrow> fst (k_down_timeout K j k) = 0)"

lemma interrupts_units:
  assumes "armed md irq d"
  shows "\<exists>d'. interrupts n irq d = Some d' \<and> armed md irq d' \<and> units md d' = units md d + n"
proof -
  from assms obtain c v where "handlers d irq = Some md" "contexts d md = Some c" "irq_lsigsema c = Some v"
    by (auto simp: armed_def)
  then show ?thesis using interrupts_count [of d irq md c v n] by (simp add: armed_def units_def)
qed

lemma interrupts_armed:
  assumes "armed md irq d" and "interrupts n irq d = Some d'"
  shows "armed md irq d'" and "units md d' = units md d + n"
  using interrupts_units [OF assms(1), of n] assms(2) by auto

lemma down_unit_armed:
  assumes "armed md irq d"
  shows "armed md irq (down_unit md d)" and "units md (down_unit md d) = units md d - 1"
  using assms by (auto simp: armed_def down_unit_def units_def)

text \<open>Nothing is lost: a unit for each interrupt, an interrupt for each unit taken.\<close>

lemma sema_step_units:
  assumes "sema_step md irq D raised took k k'" and "armed md irq (D k)"
  shows "armed md irq (D k')"
    and "units md (D k') + (if took then 1 else 0) + raised k = units md (D k) + raised k'"
    and "raised k \<le> raised k'"
proof -
  from assms obtain n i d where n: "interrupts n irq (D k) = Some d" and r: "raised k' = raised k + n + i"
    and i: "if took then 0 < units md d \<and> interrupts i irq (down_unit md d) = Some (D k')
      else interrupts i irq d = Some (D k')"
    unfolding sema_step_def by blast
  note d = interrupts_armed [OF assms(2) n]
  from r show "raised k \<le> raised k'" by simp
  show "armed md irq (D k')"
    and "units md (D k') + (if took then 1 else 0) + raised k = units md (D k) + raised k'"
    using i r d(2) interrupts_armed [OF d(1)] interrupts_armed [OF down_unit_armed(1) [OF d(1)]]
      down_unit_armed(2) [OF d(1)]
    by (auto split: if_splits)
qed

subsection \<open>What the kernel keeps\<close>

text \<open>A property that every service of the kernel keeps is kept by the wait, the system call and the rounds.\<close>

definition kernel_keeps :: "'k irq_kernel \<Rightarrow> ('w \<Rightarrow> 'k \<Rightarrow> 'k) \<Rightarrow> ('k \<Rightarrow> bool) \<Rightarrow> bool" where
  "kernel_keeps K pass P \<longleftrightarrow> (\<forall>k. P k \<longrightarrow> P (snd (ktime_get_mono_fast_ns K k))) \<and>
     (\<forall>j k. 1 \<le> j \<longrightarrow> P k \<longrightarrow> P (snd (k_down_timeout K j k))) \<and> (\<forall>w k. P k \<longrightarrow> P (pass w k))"

lemma wait_loop_keeps:
  assumes "wait_loop K endtime r err k = Some res"
  shows "kernel_keeps K pass P \<longrightarrow> P k \<longrightarrow> P (snd res)"
proof (rule wait_loop.raw_induct
    [where P = "\<lambda>K endtime r err k res. kernel_keeps K pass P \<longrightarrow> P k \<longrightarrow> P (snd res)", OF _ assms])
  fix f K endtime r err k res
  assume IH: "\<And>K endtime r err k res. f K endtime r err k = Some res \<Longrightarrow>
      kernel_keeps K pass P \<longrightarrow> P k \<longrightarrow> P (snd res)"
    and eq: "(if 0 < sint r then
        (let (err, k) = k_down_timeout K (localjiffies K r) k in
         if err = 0 then Some (err, k)
         else (let (now, k) = ktime_get_mono_fast_ns K k; r = endtime - now in f K endtime r err k))
      else Some (err, k)) = Some res"
  obtain e k1 where dn: "k_down_timeout K (localjiffies K r) k = (e, k1)" by fastforce
  obtain t k2 where now: "ktime_get_mono_fast_ns K k1 = (t, k2)" by fastforce
  from eq dn now have res: "res \<in> {(err, k), (e, k1)} \<or> f K endtime (endtime - t) e k2 = Some res"
    by (auto split: if_splits)
  show "kernel_keeps K pass P \<longrightarrow> P k \<longrightarrow> P (snd res)"
  proof (intro impI)
    assume keeps: "kernel_keeps K pass P" and k: "P k"
    with dn localjiffies_ge_1 have "P k1" unfolding kernel_keeps_def by (metis snd_conv)
    moreover from keeps now this have "P k2" unfolding kernel_keeps_def by (metis snd_conv)
    ultimately show "P (snd res)"
      using res k keeps IH [of K endtime "endtime - t" e k2 res] by (elim disjE) auto
  qed
qed

lemma down_timeoutms_keeps:
  assumes "kernel_keeps K pass P" and "down_timeoutms K ms k = Some (e, k')" and "P k"
  shows "P k'"
proof -
  obtain t k1 where now: "ktime_get_mono_fast_ns K k = (t, k1)" by fastforce
  with assms(1,3) have "P k1" unfolding kernel_keeps_def by (metis snd_conv)
  moreover have "wait_loop K (t + fac_ms2ns * ms) (fac_ms2ns * ms) (- 1) k1 = Some (e, k')"
    using assms(2) now by (simp add: down_timeoutms_def Let_def)
  ultimately show ?thesis using wait_loop_keeps [of K _ _ _ k1 "(e, k')" pass P] assms(1) by auto
qed

text \<open>The balance of interrupts, units and units taken, as a property that the kernel keeps.\<close>

definition balanced :: "ptr \<Rightarrow> int \<Rightarrow> ('k \<Rightarrow> drv) \<Rightarrow> ('k \<Rightarrow> nat) \<Rightarrow> ('k \<Rightarrow> nat) \<Rightarrow> 'k \<Rightarrow> 'k \<Rightarrow> bool" where
  "balanced md irq D raised taken k0 k \<longleftrightarrow> armed md irq (D k) \<and> raised k0 \<le> raised k \<and>
     units md (D k) + taken k + raised k0 = units md (D k0) + taken k0 + raised k"

lemma balanced_step:
  assumes "sema_step md irq D raised took k k'" and "balanced md irq D raised taken k0 k"
    and "taken k' = taken k + (if took then 1 else 0)"
  shows "balanced md irq D raised taken k0 k'"
  using sema_step_units [OF assms(1)] assms(2,3) by (auto simp: balanced_def split: if_splits)

lemmas balanced_idle = balanced_step [where took = False, simplified]

text \<open>With a unit there at the start, a wait with a timeout takes one.\<close>

lemma down_timeoutms_prompt:
  assumes "sema_laws K pass md irq D raised" and "armed md irq (D k)" and "0 < units md (D k)"
    and "0 < sint (fac_ms2ns * ms)"
  shows "\<exists>k'. down_timeoutms K ms k = Some (0, k')"
proof -
  obtain t k1 where now: "ktime_get_mono_fast_ns K k = (t, k1)" by fastforce
  with assms(1) have "sema_step md irq D raised False k k1" unfolding sema_laws_def by (metis snd_conv)
  from sema_step_units [OF this assms(2)] assms(3) have "armed md irq (D k1)" "0 < units md (D k1)" by simp_all
  with assms(1) have "fst (k_down_timeout K j k1) = 0" for j unfolding sema_laws_def by blast
  then obtain k2 where "k_down_timeout K (localjiffies K (fac_ms2ns * ms)) k1 = (0, k2)"
    by (metis prod.collapse)
  with assms(4) now show ?thesis by (simp add: down_timeoutms_def Let_def wait_loop.simps)
qed

lemma kernel_keeps_balance:
  assumes "wait_laws K T taken" and "sema_laws K pass md irq D raised"
    and "\<forall>w k. taken (pass w k) = taken k"
  shows "kernel_keeps K pass (balanced md irq D raised taken k0)"
  unfolding kernel_keeps_def
proof (intro conjI allI impI)
  fix k assume b: "balanced md irq D raised taken k0 k"
  have "taken (snd (ktime_get_mono_fast_ns K k)) = taken k"
    using assms(1) unfolding wait_laws_def by (metis snd_conv)
  with b assms(2) show "balanced md irq D raised taken k0 (snd (ktime_get_mono_fast_ns K k))"
    unfolding sema_laws_def by (auto intro: balanced_idle)
next
  fix j :: u64 and k assume j: "1 \<le> j" and b: "balanced md irq D raised taken k0 k"
  obtain e k' where e0: "k_down_timeout K j k = (e, k')"
    "if e = 0 then T k \<le> T k' \<and> taken k' = taken k + 1 else T k < T k' \<and> taken k' = taken k"
    using assms(1) j unfolding wait_laws_def by blast
  then have e: "k_down_timeout K j k = (e, k')" "taken k' = taken k + (if e = 0 then 1 else 0)"
    by (auto split: if_splits)
  have "sema_step md irq D raised (e = 0) k k'"
    using assms(2) e(1) unfolding sema_laws_def by (metis fst_conv snd_conv)
  with b e show "balanced md irq D raised taken k0 (snd (k_down_timeout K j k))"
    by (auto intro: balanced_step)
next
  fix w k assume b: "balanced md irq D raised taken k0 k"
  from assms(2) have "sema_step md irq D raised False k (pass w k)" by (simp add: sema_laws_def)
  with b assms(3) show "balanced md irq D raised taken k0 (pass w k)" by (auto intro: balanced_idle)
qed

subsection \<open>A kernel that runs the handler\<close>

text \<open>
  The driver, the time, the interrupts so far and the units taken. \<open>edges t\<close> is the number of edges on
  the line up to the time \<open>t\<close>; \<open>go_on\<close> lets 4 ms pass and runs the handler once for each of the edges
  that came. A wait that finds no unit lasts 4 ms.
\<close>

record clocked_drv =
  the_drv :: drv
  at_ns :: nat
  irqs :: nat
  downs :: nat

definition go_on :: "int \<Rightarrow> (nat \<Rightarrow> nat) \<Rightarrow> clocked_drv \<Rightarrow> clocked_drv" where
  "go_on irq edges k =
     (let t = at_ns k + 4000000; n = edges t - edges (at_ns k)
      in case interrupts n irq (the_drv k) of
           None \<Rightarrow> k\<lparr>at_ns := t\<rparr>
         | Some d \<Rightarrow> k\<lparr>the_drv := d, at_ns := t, irqs := irqs k + n\<rparr>)"

definition edge_kernel :: "ptr \<Rightarrow> int \<Rightarrow> (nat \<Rightarrow> nat) \<Rightarrow> clocked_drv irq_kernel" where
  "edge_kernel md irq edges = \<lparr>ktime_get_mono_fast_ns = (\<lambda>k. (of_nat (at_ns k), k)),
     k_down_timeout = (\<lambda>j k. if 0 < units md (the_drv k)
       then (0, k\<lparr>the_drv := down_unit md (the_drv k), downs := downs k + 1\<rparr>)
       else (- 62, go_on irq edges k)),
     k_down_interruptible = (\<lambda>k. if 0 < units md (the_drv k)
       then (0, k\<lparr>the_drv := down_unit md (the_drv k), downs := downs k + 1\<rparr>)
       else (- 4, go_on irq edges k)),
     usecs_to_jiffies = (\<lambda>us. ucast us div 4000)\<rparr>"

lemma go_on_clock: "at_ns (go_on irq edges k) = at_ns k + 4000000" "downs (go_on irq edges k) = downs k"
  by (simp_all add: go_on_def Let_def split: option.split)

lemma edge_kernel_waits: "wait_laws (edge_kernel md irq edges) at_ns downs"
  by (auto simp: wait_laws_def edge_kernel_def go_on_clock)

lemma go_on_sema: "sema_step md irq the_drv irqs False k (go_on irq edges k)"
  unfolding sema_step_def
proof
  let ?n = "edges (at_ns k + 4000000) - edges (at_ns k)"
  assume "armed md irq (the_drv k)"
  then obtain d where d: "interrupts ?n irq (the_drv k) = Some d" using interrupts_units by blast
  then show "\<exists>n i d. interrupts n irq (the_drv k) = Some d \<and> irqs (go_on irq edges k) = irqs k + n + i \<and>
      (if False then 0 < units md d \<and> interrupts i irq (down_unit md d) = Some (the_drv (go_on irq edges k))
       else interrupts i irq d = Some (the_drv (go_on irq edges k)))"
    by - (rule exI [of _ ?n], rule exI [of _ 0], rule exI [of _ d], simp add: go_on_def Let_def)
qed

lemma edge_kernel_sema:
  "sema_laws (edge_kernel md irq edges) (\<lambda>w. go_on irq edges) md irq the_drv irqs"
proof -
  have "sema_step md irq the_drv irqs False k k" for k
    unfolding sema_step_def by (auto intro: exI [of _ 0])
  moreover have "sema_step md irq the_drv irqs True k (k\<lparr>the_drv := down_unit md (the_drv k), downs := n\<rparr>)"
    if "0 < units md (the_drv k)" for k n
    unfolding sema_step_def using that by (auto intro!: exI [of _ 0])
  ultimately show ?thesis by (auto simp: sema_laws_def edge_kernel_def go_on_sema)
qed

text \<open>The driver after an open of the device and one interrupt, and interrupts every 150 ms.\<close>

definition opened_kernel :: clocked_drv where
  "opened_kernel = \<lparr>the_drv = idle_drv\<lparr>contexts := [8 \<mapsto> zeroed_context\<lparr>wOpen := 1, irq_number := 61,
     irq_lsigsema := Some 1\<rparr>], handlers := [61 \<mapsto> 8]\<rparr>, at_ns = 5, irqs = 1, downs = 0\<rparr>"

abbreviation every_150ms :: "nat \<Rightarrow> nat" where
  "every_150ms t \<equiv> t div 150000000"

lemma opened_kernel_armed: "armed 8 61 (the_drv opened_kernel)" "units 8 (the_drv opened_kernel) = 1"
  by (simp_all add: opened_kernel_def armed_def units_def)

end
