(* ===== verification/Driver_Link.thy ===== *)
theory Driver_Link
  imports Gpioirq Shield
begin

section \<open>User programs on the driver\<close>

text \<open>
  The platform on which \<open>ioctl\<close> is the driver of \<open>gpioirq_kdriver/gpioirq.c\<close>: its world is the state
  of the kernel, an open device file with the context \<open>c\<close> stands for every handle, and the system
  call turns a negative result of the driver into -1. On it run the wait of the shield
  (\<open>etherberry_9252::waitforirq_or_timeout\<close>) and the test program of the driver
  (\<open>gpioirq_kdriver/user_space_test/test.cpp\<close>), whose messages are left out.
\<close>

subsection \<open>The system call\<close>

definition sys_ioctl :: "'k irq_kernel \<Rightarrow> (u64 \<Rightarrow> u32 \<Rightarrow> bool) \<Rightarrow> MYCONTEXT \<Rightarrow> u32 \<Rightarrow> u64 \<Rightarrow> 'k \<Rightarrow> int \<times> 'k" where
  "sys_ioctl K ok c cmd arg k =
     (case driver_unioctl K ok cmd c arg k of
        None \<Rightarrow> (- 1, k)
      | Some (e, k) \<Rightarrow> (if e < 0 then - 1 else e, k))"

definition driver_platform :: "'k irq_kernel \<Rightarrow> (u64 \<Rightarrow> u32 \<Rightarrow> bool) \<Rightarrow> MYCONTEXT \<Rightarrow> 'k platform" where
  "driver_platform K ok c = \<lparr>
     xcall = (\<lambda>call k. case call of
         Ioctl h cmd arg \<Rightarrow> sys_ioctl K ok c cmd (ucast arg) k
       | _ \<Rightarrow> (3, k)),
     xfer = (\<lambda>b k. (0, k)), clock = (\<lambda>k. ((0, 0), k)), fread = (\<lambda>n k. (None, k)), indet = (\<lambda>k. 0)\<rparr>"

lemma driver_ioctl:
  "ext_call (driver_platform K ok c) (Ioctl h cmd arg) m =
     (let (r, k) = sys_ioctl K ok c cmd (ucast arg) (env m)
      in (r, m\<lparr>env := k, trace := trace m @ [Call (Ioctl h cmd arg) r]\<rparr>))"
  by (simp add: ext_call_def driver_platform_def)

text \<open>What the file needs for the commands: open for writing, and the plain numbers as addresses.\<close>

definition usable :: "(u64 \<Rightarrow> u32 \<Rightarrow> bool) \<Rightarrow> MYCONTEXT \<Rightarrow> bool" where
  "usable ok c \<longleftrightarrow> wOpen c \<noteq> 0 \<and> ok 100 4"

text \<open>\<open>down_interruptible\<close> when no signal comes: it waits for a unit and takes it.\<close>

definition interruptible_law :: "'k irq_kernel \<Rightarrow> ('k \<Rightarrow> nat) \<Rightarrow> bool" where
  "interruptible_law K taken \<longleftrightarrow>
     (\<forall>k. \<exists>k'. k_down_interruptible K k = (0, k') \<and> taken k' = taken k + 1)"

subsection \<open>The two commands\<close>

lemma down_timeout_command:
  assumes "usable ok c"
  shows "driver_unioctl K ok IRQMOD_DOWN_TIMEOUT c 100 k = down_timeoutms K 100 k"
  using assms irqmod_commands by (simp add: unioctl_outcome usable_def)

text \<open>The test program passes the bare number instead of the command; it has the same number field
  and no direction.\<close>

lemma bare_number:
  "IOC_NR IRQMODDEV_WAIT_IRQ = IRQMODDEV_WAIT_IRQ" "IOC_DIR IRQMODDEV_WAIT_IRQ = IOC_NONE"
  by (simp_all add: IRQMODDEV_WAIT_IRQ_def IOC_NR_def IOC_DIR_def)

lemma wait_irq_number:
  assumes "usable ok c"
  shows "driver_unioctl K ok IRQMODDEV_WAIT_IRQ c arg k = Some (k_down_interruptible K k)"
  using assms by (simp add: unioctl_outcome usable_def bare_number)

subsection \<open>The wait of the shield\<close>

lemma hundred: "unat (100 :: u64) = 100"
  by simp

lemma sys_ioctl_down_timeout:
  assumes "wait_laws K T taken" and "usable ok c"
  shows "\<exists>r k'. sys_ioctl K ok c IRQMOD_DOWN_TIMEOUT 100 k = (r, k') \<and> T k \<le> T k' \<and>
    (if r = 0 then taken k' = taken k + 1 else taken k' = taken k \<and> T k + 100 * 1000000 \<le> T k')"
proof -
  have u: "unat (100 :: u64) * 1000000 < 2 ^ 62" by simp
  obtain e k' where d: "down_timeoutms K 100 k = Some (e, k')" and m: "T k \<le> T k'"
    and r: "if e = 0 then taken k' = taken k + 1 else taken k' = taken k \<and> T k + 100 * 1000000 \<le> T k'"
    using down_timeoutms_waits [OF assms(1) u, of k] unfolding hundred by blast
  have "sys_ioctl K ok c IRQMOD_DOWN_TIMEOUT 100 k = (if e < 0 then - 1 else e, k')"
    using down_timeout_command [OF assms(2), of K k] d by (simp add: sys_ioctl_def)
  with m r show ?thesis
    by (intro exI [of _ "if e < 0 then - 1 else e"] exI [of _ k']) (auto split: if_splits)
qed

lemma ioctl_down_timeout:
  assumes "wait_laws K T taken" and "usable ok c"
  shows "\<exists>r m'. ext_call (driver_platform K ok c) (Ioctl h IRQMOD_DOWN_TIMEOUT 100) m = (r, m') \<and>
    (if r = 0 then taken (env m') = taken (env m) + 1
     else taken (env m') = taken (env m) \<and> T (env m) + 100 * 1000000 \<le> T (env m'))"
proof -
  obtain r k' where "sys_ioctl K ok c IRQMOD_DOWN_TIMEOUT 100 (env m) = (r, k')"
    "if r = 0 then taken k' = taken (env m) + 1
     else taken k' = taken (env m) \<and> T (env m) + 100 * 1000000 \<le> T k'"
    using sys_ioctl_down_timeout [OF assms, of "env m"] by blast
  then show ?thesis by (simp add: driver_ioctl split: if_splits)
qed

subsection \<open>The test program\<close>

text \<open>\<open>Inl\<close> is the value that \<open>main\<close> returns when the device cannot be opened.\<close>

definition test_open :: "'w platform \<Rightarrow> 'w machine \<Rightarrow> (int + int) \<times> 'w machine" where
  "test_open E m =
     (let (dev, m) = ext_call E (Open_RDWR device_path) m
      in if dev = - 1 then (Inl (- 1), m) else (Inr dev, m))"

text \<open>One round of its endless loop, with the number \<open>i\<close> that it prints. The second \<open>ioctl\<close> is
  called without its third argument.\<close>

definition test_round :: "'w platform \<Rightarrow> int \<Rightarrow> u64 \<Rightarrow> 'w machine \<Rightarrow> u64 \<times> 'w machine" where
  "test_round E dev i m =
     (let timems = 100;
          (err, m) = ext_call E (Ioctl dev IRQMOD_DOWN_TIMEOUT timems) m;
          (i, m) = (if err = 0
                    then (let m = ext_do E (Ioctl dev IRQMODDEV_WAIT_IRQ (indet E (env m))) m;
                              i = i + 1
                          in (i, m))
                    else (i, m));
          m = ext_do E (Usleep 10000) m
      in (i, m))"

fun test_rounds :: "nat \<Rightarrow> 'w platform \<Rightarrow> int \<Rightarrow> u64 \<Rightarrow> 'w machine \<Rightarrow> u64 \<times> 'w machine" where
  "test_rounds 0 E dev i m = (i, m)"
| "test_rounds (Suc n) E dev i m = (let (i, m) = test_round E dev i m in test_rounds n E dev i m)"

lemma ioctl_wait_irq:
  assumes "interruptible_law K taken" and "usable ok c"
  shows "taken (env (ext_do (driver_platform K ok c) (Ioctl h IRQMODDEV_WAIT_IRQ arg) m)) = taken (env m) + 1"
proof -
  obtain k' where "k_down_interruptible K (env m) = (0, k')" "taken k' = taken (env m) + 1"
    using assms(1) unfolding interruptible_law_def by blast
  then show ?thesis
    using wait_irq_number [OF assms(2), of K "ucast arg" "env m"]
    by (simp add: ext_do_env driver_platform_def sys_ioctl_def)
qed

lemma test_round_takes:
  assumes "wait_laws K T taken" and "interruptible_law K taken" and "usable ok c"
    and "test_round (driver_platform K ok c) dev i m = (i', m')"
  shows "i' = i \<and> taken (env m') = taken (env m) \<or> i' = i + 1 \<and> taken (env m') = taken (env m) + 2"
proof -
  let ?E = "driver_platform K ok c"
  obtain r m1 where c1: "ext_call ?E (Ioctl dev IRQMOD_DOWN_TIMEOUT 100) m = (r, m1)"
    and r: "if r = 0 then taken (env m1) = taken (env m) + 1 else taken (env m1) = taken (env m)"
    using ioctl_down_timeout [OF assms(1,3), of dev m] by (auto split: if_splits)
  have z: "env (ext_do ?E (Usleep 10000) x) = env x" for x
    by (simp add: ext_do_env driver_platform_def)
  show ?thesis
    using assms(4) c1 r ioctl_wait_irq [OF assms(2,3)]
    by (auto simp: test_round_def Let_def z split: if_splits)
qed

lemma test_rounds_take:
  assumes "wait_laws K T taken" and "interruptible_law K taken" and "usable ok c"
  shows "test_rounds n (driver_platform K ok c) dev i m = (i', m') \<Longrightarrow>
    \<exists>N \<le> n. i' = i + of_nat N \<and> taken (env m') = taken (env m) + 2 * N"
proof (induction n arbitrary: i m)
  case 0
  then show ?case by simp
next
  case (Suc n)
  obtain i1 m1 where t: "test_round (driver_platform K ok c) dev i m = (i1, m1)" by fastforce
  with Suc.prems have "test_rounds n (driver_platform K ok c) dev i1 m1 = (i', m')" by simp
  from Suc.IH [OF this] obtain N where N: "N \<le> n" "i' = i1 + of_nat N"
    "taken (env m') = taken (env m1) + 2 * N" by blast
  from test_round_takes [OF assms t] show ?case
  proof
    assume "i1 = i \<and> taken (env m1) = taken (env m)"
    with N show ?thesis by (intro exI [of _ N]) simp
  next
    assume "i1 = i + 1 \<and> taken (env m1) = taken (env m) + 2"
    with N show ?thesis by (intro exI [of _ "Suc N"]) simp
  qed
qed

text \<open>A kernel in which an interrupt comes for every wait.\<close>

definition pulse_kernel :: "(nat \<times> nat) irq_kernel" where
  "pulse_kernel = \<lparr>ktime_get_mono_fast_ns = (\<lambda>(t, n). (of_nat t, t, n)),
     k_down_timeout = (\<lambda>j (t, n). (0, t, n + 1)), k_down_interruptible = (\<lambda>(t, n). (0, t, n + 1)),
     usecs_to_jiffies = (\<lambda>us. ucast us div 4000)\<rparr>"

lemma pulse_kernel_laws: "wait_laws pulse_kernel fst snd" "interruptible_law pulse_kernel snd"
  by (auto simp: wait_laws_def interruptible_law_def pulse_kernel_def)

definition user_range :: "u64 \<Rightarrow> u32 \<Rightarrow> bool" where
  "user_range p n \<longleftrightarrow> unat p + unat n \<le> 0x7FFFFFFFF000"

lemma usable_open: "usable user_range (zeroed_context\<lparr>wOpen := 1\<rparr>)"
  by (simp add: usable_def user_range_def)

lemma pulse_rounds:
  "\<exists>m'. test_rounds n (driver_platform pulse_kernel user_range (zeroed_context\<lparr>wOpen := 1\<rparr>)) dev i m =
     (i + of_nat n, m')"
proof (induction n arbitrary: i m)
  case 0
  show ?case by simp
next
  case (Suc n)
  let ?E = "driver_platform pulse_kernel user_range (zeroed_context\<lparr>wOpen := 1\<rparr>)"
  have "down_timeoutms pulse_kernel 100 k = Some (0, fst k, snd k + 1)" for k
    by (cases k) (simp add: down_timeoutms_def pulse_kernel_def wait_loop.simps)
  then have "fst (ext_call ?E (Ioctl dev IRQMOD_DOWN_TIMEOUT 100) m) = 0"
    using down_timeout_command [OF usable_open, of pulse_kernel "env m"]
    by (simp add: driver_ioctl sys_ioctl_def)
  then have "fst (test_round ?E dev i m) = i + 1"
    by (auto simp: test_round_def Let_def split: prod.split)
  then obtain m1 where "test_round ?E dev i m = (i + 1, m1)"
    by (cases "test_round ?E dev i m") simp
  with Suc.IH [of "i + 1" m1] show ?case by (simp add: add.assoc)
qed

subsection \<open>Properties\<close>

text \<open>A wait of the real-time thread on the driver, with its timeout of 100 ms, gives 0 exactly
  when it has taken one interrupt, and an error only after the whole time, with none taken.\<close>

lemma shield_waits_for_interrupt:
  assumes "wait_laws K T taken" and "usable ok c" and "m_devhndl ob \<noteq> - 1"
  shows "\<exists>err m'. waitforirq_or_timeout (driver_platform K ok c) ob 100 m = (err, m') \<and>
    (if err = 0 then taken (env m') = taken (env m) + 1
     else taken (env m') = taken (env m) \<and> T (env m) + 100 * 1000000 \<le> T (env m'))"
  using ioctl_down_timeout [OF assms(1,2), of "m_devhndl ob" m] assms(3)
  by (simp add: waitforirq_or_timeout_def)

text \<open>The number that the test program prints as the number of interrupts is half of the
  interrupts it has taken: a counted round takes one unit with the first \<open>ioctl\<close> and another one
  with the second.\<close>

lemma test_counts_half:
  assumes "wait_laws K T taken" and "interruptible_law K taken" and "usable ok c"
    and "test_rounds n (driver_platform K ok c) dev i m = (i', m')"
  shows "\<exists>N \<le> n. i' = i + of_nat N \<and> taken (env m') = taken (env m) + 2 * N"
  by (rule test_rounds_take [OF assms])

end
