(* ===== verification/Board.thy ===== *)
theory Board
  imports Lan9252
begin

section \<open>A board with a documented chip\<close>

text \<open>
  An executable platform whose world holds a LAN9252 (\<open>lan9252\<close>), which takes frames byte by byte and
  answers with a delay. It does only what the relation \<open>chip_step\<close> allows (\<open>board_documented\<close>): the read
  FIFO shows nothing before a read was started, then 8 words after some readings. It is \<open>responsive\<close>
  (\<open>board_responsive\<close>), so it is on this board that the properties with that condition are applied.
\<close>

subsection \<open>The log tells what happened to the world\<close>

fun plays :: "'w platform \<Rightarrow> event \<Rightarrow> 'w \<Rightarrow> 'w option" where
  "plays E (Call c r) w = (if r = fst (xcall E c w) then Some (snd (xcall E c w)) else None)"
| "plays E (Xfer b r) w = (if r = fst (xfer E b w) then Some (snd (xfer E b w)) else None)"
| "plays E (Time s n) w = (if (s, n) = fst (clock E w) then Some (snd (clock E w)) else None)"
| "plays E (File n d) w = (if d = map_option (take n) (fst (fread E n w)) then Some (snd (fread E n w)) else None)"

definition played :: "'w platform \<Rightarrow> 'w machine \<Rightarrow> 'w machine \<Rightarrow> bool" where
  "played E m m' \<longleftrightarrow>
     (\<exists>evs. trace m' = trace m @ evs \<and> fold_option (plays E) evs (env m) = Some (env m'))"

lemma played_refl [intro]: "played E m m"
  by (simp add: played_def)

lemma played_trans: "played E m1 m2 \<Longrightarrow> played E m2 m3 \<Longrightarrow> played E m1 m3"
  unfolding played_def by (auto simp: fold_option_append)

lemma played_event:
  "trace m' = trace m @ [e] \<Longrightarrow> plays E e (env m) = Some (env m') \<Longrightarrow> played E m m'"
  unfolding played_def by (intro exI [of _ "[e]"]) simp

lemma played_ext_do: "played E m (ext_do E c m)"
  by (rule played_event [where e = "Call c (fst (xcall E c (env m)))"])
    (simp_all add: ext_do_def ext_call_def split: prod.split)

lemma played_transfer: "played E m (snd (bcm2835_spi_transfer E b m))"
  by (rule played_event [where e = "Xfer b (fst (xfer E b (env m)))"])
    (simp_all add: bcm2835_spi_transfer_def split: prod.split)

lemma played_select: "played E m (SCS_Low_macro E m)" "played E m (SCS_High_macro E m)"
  by (simp_all add: SCS_Low_macro_def SCS_High_macro_def played_ext_do)

lemma played_Write: "played E m (SPI_Write E b m)"
  by (simp add: SPI_Write_def played_transfer)

lemma played_read_loop: "played E m (snd (read_loop E i n u m))"
proof (induction n arbitrary: i u m)
  case 0
  show ?case by (simp add: played_refl)
next
  case (Suc n)
  obtain b m1 where b: "SPI_Read E DUMMY_BYTE m = (b, m1)" by fastforce
  then have "played E m m1" using played_transfer [of E m DUMMY_BYTE] by (simp add: SPI_Read_def)
  from played_trans [OF this Suc.IH [of m1 "Suc i" "set_Byte u i b"]] b show ?case by simp
qed

lemma played_write_loop: "played E m (write_loop E i n u m)"
  by (induction n arbitrary: i m) (auto intro: played_trans [OF played_Write])

lemmas played_steps = played_trans [OF _ played_select(1)] played_trans [OF _ played_select(2)]
  played_trans [OF _ played_Write] played_trans [OF _ played_read_loop] played_trans [OF _ played_write_loop]

lemma played_Write_Reg: "played E m (Write_Reg E a d m)"
  unfolding Write_Reg_def Let_def by (intro played_steps) (rule played_refl)

lemma played_Read_Reg:
  assumes "Read_Reg E a n m = Some (v, m')"
  shows "played E m m'"
proof -
  let ?m = "SPI_Write E (Byte a 0) (SPI_Write E (Byte a 1) (SPI_Write E COMM_SPI_READ (SCS_Low_macro E m)))"
  have "m' = SCS_High_macro E (snd (read_loop E 0 (unat n) (indet E (env m)) ?m))"
    using assms by (auto simp: Read_Reg_def Let_def split: if_splits prod.splits)
  then show ?thesis by (simp add: played_steps played_refl)
qed

subsection \<open>The board\<close>

text \<open>
  \<open>frame\<close> are the bytes sent and received since the chip was selected, \<open>lag\<close> is how many readings of a
  status register will still show that the last command is not done.
\<close>

record board =
  chip :: lan9252
  frame :: "(u8 \<times> u8) list option"
  spi_on :: bool
  lag :: nat

text \<open>The bytes of a register.\<close>

definition reg_byte :: "board \<Rightarrow> u16 \<Rightarrow> nat \<Rightarrow> u8" where
  "reg_byte w a i = (let c = chip w; byte = (\<lambda>bs. if i < length bs then bs ! i else 0)
     in if a = ECAT_CSR_DATA then byte (csr_data c)
        else if a = ECAT_CSR_CMD then (if i = 3 \<and> lag w \<noteq> 0 then ECAT_CSR_BUSY else 0)
        else if a = ECAT_PRAM_RD_CMD then
          (if lag w \<noteq> 0 \<or> snd (rd_left c) = 0 then 0
           else if i = 0 then PRAM_READ_AVAIL
           else if i = 1 then of_nat (min 16 (snd (rd_left c) div 4)) else 0)
        else if a = ECAT_PRAM_WR_CMD then
          (if lag w \<noteq> 0 \<or> snd (wr_left c) = 0 then 0
           else if i = 0 then PRAM_WRITE_AVAIL else if i = 1 then 16 else 0)
        else if a = ECAT_PRAM_RD_DATA then esc_mem c (fst (rd_left c) + i)
        else if a = HW_CFG then Byte (READY :: ULONG) i
        else if a = BYTE_TEST then Byte (TEST_PATTERN :: ULONG) i
        else byte (sys_regs c a))"

lemma reg_byte_frame [simp]: "reg_byte (w\<lparr>frame := f\<rparr>) = reg_byte w"
  by (intro ext) (simp add: reg_byte_def Let_def)

text \<open>What the chip does at the end of an access.\<close>

definition chip_write :: "u16 \<Rightarrow> u8 list \<Rightarrow> lan9252 \<Rightarrow> lan9252" where
  "chip_write a bs c =
     (if a = ECAT_CSR_DATA then c\<lparr>csr_data := bs\<rparr>
      else if a = ECAT_CSR_CMD then (if csr_op c = None then c\<lparr>csr_op := Some (csr_decode bs)\<rparr> else c)
      else if a = ECAT_PRAM_RD_ADDR_LEN then c\<lparr>rd_area := halves bs\<rparr>
      else if a = ECAT_PRAM_RD_CMD then (if starts bs then c\<lparr>rd_left := rd_area c, rd_shown := 0\<rparr> else c)
      else if a = ECAT_PRAM_WR_ADDR_LEN then c\<lparr>wr_area := halves bs\<rparr>
      else if a = ECAT_PRAM_WR_CMD then (if starts bs then c\<lparr>wr_left := wr_area c, wr_shown := 0\<rparr> else c)
      else if a = ECAT_PRAM_WR_DATA then
        (if length bs \<le> wr_shown c \<and> length bs \<le> snd (wr_left c)
         then c\<lparr>esc_mem := store (fst (wr_left c)) bs (esc_mem c),
                wr_left := advance (length bs) (wr_left c), wr_shown := wr_shown c - length bs\<rparr>
         else c)
      else if a = RESET_CTL then c\<lparr>csr_op := None, rd_left := (0, 0), wr_left := (0, 0)\<rparr>
      else c\<lparr>sys_regs := (sys_regs c)(a := bs)\<rparr>)"

definition chip_read :: "u16 \<Rightarrow> u8 list \<Rightarrow> lan9252 \<Rightarrow> lan9252" where
  "chip_read a bs c =
     (if a = ECAT_CSR_CMD then (if starts bs then c else csr_finish c)
      else if a = ECAT_PRAM_RD_CMD then
        (if bs ! 0 AND PRAM_READ_AVAIL \<noteq> 0 then c\<lparr>rd_shown := 4 * unat (bs ! 1)\<rparr> else c)
      else if a = ECAT_PRAM_WR_CMD then
        (if bs ! 0 AND PRAM_WRITE_AVAIL \<noteq> 0 then c\<lparr>wr_shown := 4 * unat (bs ! 1)\<rparr> else c)
      else if a = ECAT_PRAM_RD_DATA then
        (if length bs \<le> rd_shown c \<and> length bs \<le> snd (rd_left c)
         then c\<lparr>rd_left := advance (length bs) (rd_left c), rd_shown := rd_shown c - length bs\<rparr>
         else c)
      else c)"

text \<open>A command starts the delay, a reading of a status register shortens it.\<close>

definition slow_ports :: "u16 set" where
  "slow_ports = {ECAT_CSR_CMD, ECAT_PRAM_RD_CMD, ECAT_PRAM_WR_CMD}"

fun board_access :: "nat \<Rightarrow> action \<Rightarrow> board \<Rightarrow> board" where
  "board_access L (Reg_write a bs) w =
     w\<lparr>chip := chip_write a bs (chip w), lag := (if a \<in> slow_ports then L else lag w)\<rparr>"
| "board_access L (Reg_read a bs) w =
     w\<lparr>chip := chip_read a bs (chip w), lag := (if a \<in> slow_ports then lag w - 1 else lag w)\<rparr>"
| "board_access L _ w = w"

definition board_deselect :: "nat \<Rightarrow> board \<Rightarrow> board" where
  "board_deselect L w =
     (case frame w of
        None \<Rightarrow> w
      | Some fr \<Rightarrow>
          (case decode_frame fr of
             None \<Rightarrow> w
           | Some a \<Rightarrow> if spi_on w then board_access L a w else w)\<lparr>frame := None\<rparr>)"

definition frame_reply :: "board \<Rightarrow> u8" where
  "frame_reply w = (case frame w of
      Some ((c, r) # (h, s) # (l, t) # ds) \<Rightarrow>
        (if spi_on w \<and> c = 3 then reg_byte w (slice_put (slice_put 0 1 h) 0 l) (length ds) else 0)
    | _ \<Rightarrow> 0)"

fun board_call :: "nat \<Rightarrow> call \<Rightarrow> board \<Rightarrow> board" where
  "board_call L (Gpio_write PIN LOW) w = w\<lparr>frame := Some []\<rparr>"
| "board_call L (Gpio_write PIN HIGH) w = board_deselect L w"
| "board_call L Bcm2835_spi_begin w = w\<lparr>spi_on := True\<rparr>"
| "board_call L Bcm2835_spi_end w = w\<lparr>spi_on := False\<rparr>"
| "board_call L _ w = w"

text \<open>The board with a chip that shows \<open>L\<close> readings too few before it is done.\<close>

definition lan_board :: "nat \<Rightarrow> board platform" where
  "lan_board L = \<lparr>xcall = (\<lambda>c w. (3, board_call L c w)),
     xfer = (\<lambda>b w. (frame_reply w,
       w\<lparr>frame := map_option (\<lambda>fr. fr @ [(b, frame_reply w)]) (frame w)\<rparr>)),
     clock = (\<lambda>w. ((1, 5), w)), fread = (\<lambda>k w. (None, w)), indet = (\<lambda>w. 0)\<rparr>"

lemma lan_board_simps [simp]:
  "xcall (lan_board L) c w = (3, board_call L c w)"
  "xfer (lan_board L) b w = (frame_reply w,
     w\<lparr>frame := map_option (\<lambda>fr. fr @ [(b, frame_reply w)]) (frame w)\<rparr>)"
  "clock (lan_board L) w = ((1, 5), w)" "fread (lan_board L) k w = (None, w)" "indet (lan_board L) w = 0"
  by (simp_all add: lan_board_def)

subsection \<open>It behaves as documented\<close>

lemma chip_write_documented: "on_write a bs c (chip_write a bs c)"
  by (simp add: on_write_def chip_write_def)

lemma chip_read_documented:
  assumes "bs = map (reg_byte w a) [0..<length bs]"
  shows "on_read a bs (chip w) (chip_read a bs (chip w))"
proof -
  have byte: "bs ! i = reg_byte w a i" if "i < length bs" for i
    using that arg_cong [OF assms, of "\<lambda>bs. bs ! i"] by simp
  have "take (length (csr_data (chip w))) bs = take (length bs) (csr_data (chip w))" if "a = ECAT_CSR_DATA"
    by (rule nth_equalityI) (simp_all add: byte that reg_byte_def Let_def)
  moreover have "bs = load (fst (rd_left (chip w))) (length bs) (esc_mem (chip w))" if "a = ECAT_PRAM_RD_DATA"
    by (rule nth_equalityI) (simp_all add: byte that reg_byte_def load_def Let_def)
  ultimately show ?thesis by (auto simp: on_read_def chip_read_def)
qed

text \<open>What an action of the log does to the board.\<close>

fun board_step :: "nat \<Rightarrow> action \<Rightarrow> board \<Rightarrow> board \<Rightarrow> bool" where
  "board_step L (Reg_read a bs) w w' =
     (w' = (if spi_on w then board_access L (Reg_read a bs) w else w) \<and>
      (spi_on w \<longrightarrow> bs = map (reg_byte w a) [0..<length bs]))"
| "board_step L (Reg_write a bs) w w' = (w' = (if spi_on w then board_access L (Reg_write a bs) w else w))"
| "board_step L (Ext c r) w w' = (w' = board_call L c w)"
| "board_step L _ w w' = (w' = w)"

fun board_run :: "nat \<Rightarrow> action list \<Rightarrow> board \<Rightarrow> board \<Rightarrow> bool" where
  "board_run L [] w w' = (w' = w)"
| "board_run L (a # as) w w' = (\<exists>w1. board_step L a w w1 \<and> board_run L as w1 w')"

text \<open>The replies in a frame are those of the register that its first bytes name.\<close>

definition frame_ok :: "board \<Rightarrow> bool" where
  "frame_ok w \<longleftrightarrow> (\<forall>fr. frame w = Some fr \<longrightarrow>
     (\<forall>i < length fr. snd (fr ! i) = frame_reply (w\<lparr>frame := Some (take i fr)\<rparr>)))"

lemma frame_same: "frame w = f \<Longrightarrow> w\<lparr>frame := f\<rparr> = w"
  by (cases w) simp

lemma frame_ok_start: "frame w = None \<Longrightarrow> frame_ok w" "frame_ok (w\<lparr>frame := Some []\<rparr>)"
  by (simp_all add: frame_ok_def)

lemma frame_ok_snoc:
  assumes "frame_ok w" and "frame w = Some fr"
  shows "frame_ok (w\<lparr>frame := Some (fr @ [(b, frame_reply w)])\<rparr>)"
  using assms by (auto simp: frame_ok_def nth_append less_Suc_eq frame_same [OF assms(2)])

lemma frame_ok_read:
  assumes "frame_ok w" and "frame w = Some fr" and "decode_frame fr = Some (Reg_read a bs)" and "spi_on w"
  shows "bs = map (reg_byte w a) [0..<length bs]"
proof -
  from assms(3) obtain r h s l t ds where fr: "fr = (3, r) # (h, s) # (l, t) # ds" and bs: "bs = map snd ds"
    and a: "a = slice_put (slice_put 0 1 h) 0 l"
    by (cases fr rule: decode_frame.cases) (auto simp: Let_def split: if_splits)
  have "snd (ds ! i) = reg_byte w a i" if "i < length ds" for i
  proof -
    have "i + 3 < length fr" using that by (simp add: fr)
    then have "snd (fr ! (i + 3)) = frame_reply (w\<lparr>frame := Some (take (i + 3) fr)\<rparr>)"
      using assms(1,2) unfolding frame_ok_def by blast
    moreover have "take (i + 3) fr = (3, r) # (h, s) # (l, t) # take i ds" "fr ! (i + 3) = ds ! i"
      by (simp_all add: fr numeral_3_eq_3)
    ultimately show ?thesis
      using that assms(4) by (simp add: frame_reply_def a min_def del: One_nat_def)
  qed
  then show ?thesis by (intro nth_equalityI) (simp_all add: bs)
qed

lemma decode_frame_cases: "decode_frame fr = Some x \<Longrightarrow> \<exists>a bs. x = Reg_read a bs \<or> x = Reg_write a bs"
  by (cases fr rule: decode_frame.cases) (auto simp: Let_def split: if_splits)

lemma deselect_step:
  assumes "frame_ok w" and "frame w = Some fr" and "decode_frame fr = Some x"
  shows "board_step L x (w\<lparr>frame := None\<rparr>) (board_deselect L w)"
proof -
  from decode_frame_cases [OF assms(3)] obtain a bs where "x = Reg_read a bs \<or> x = Reg_write a bs" by blast
  then show ?thesis
    using assms frame_ok_read [OF assms(1,2)] by (auto simp: board_deselect_def)
qed

lemma board_call_frame:
  "frame w = None \<Longrightarrow> c \<noteq> Gpio_write PIN LOW \<Longrightarrow> c \<noteq> Gpio_write PIN HIGH \<Longrightarrow> frame (board_call L c w) = None"
  by (cases "(L, c, w)" rule: board_call.cases) simp_all

text \<open>A log of the board is a run of these steps.\<close>

lemma board_plays:
  assumes "fold_option (plays (lan_board L)) evs w = Some w'" and "actions evs (frame w) = Some as"
    and "frame_ok w"
  shows "board_run L as (w\<lparr>frame := None\<rparr>) w'"
  using assms
proof (induction evs arbitrary: w as)
  case Nil
  then show ?case by (cases "frame w") auto
next
  case (Cons e evs)
  show ?case
  proof (cases e)
    case (Call c r)
    consider "c = Gpio_write PIN LOW" | "c = Gpio_write PIN HIGH" |
      "c \<noteq> Gpio_write PIN LOW" "c \<noteq> Gpio_write PIN HIGH" by blast
    then show ?thesis
    proof cases
      case 1
      with Call Cons.prems have "frame w = None"
        "fold_option (plays (lan_board L)) evs (w\<lparr>frame := Some []\<rparr>) = Some w'" "actions evs (Some []) = Some as"
        by (auto split: if_splits)
      with Cons.IH [of "w\<lparr>frame := Some []\<rparr>" as] frame_ok_start(2) show ?thesis by simp
    next
      case 2
      with Call Cons.prems obtain fr x bs where fr: "frame w = Some fr" "decode_frame fr = Some x"
        and run: "fold_option (plays (lan_board L)) evs (board_deselect L w) = Some w'"
        and as: "actions evs None = Some bs" "as = x # bs"
        by (auto split: if_splits option.splits)
      have n: "frame (board_deselect L w) = None" using fr by (simp add: board_deselect_def)
      note frame_same [OF n]
      with Cons.IH [OF run, of bs] n as(1) frame_ok_start(1) [OF n] have "board_run L bs (board_deselect L w) w'" by simp
      with deselect_step [OF Cons.prems(3) fr, of L] show ?thesis unfolding as(2) by auto
    next
      case 3
      with Call Cons.prems obtain bs where w: "frame w = None"
        and run: "fold_option (plays (lan_board L)) evs (board_call L c w) = Some w'"
        and as: "actions evs None = Some bs" "as = Ext c r # bs"
        by (auto split: if_splits)
      note n = board_call_frame [OF w 3]
      from Cons.IH [OF run, of bs] n as(1) frame_ok_start(1) [OF n] frame_same [OF n] frame_same [OF w]
      show ?thesis by (simp add: as(2))
    qed
  next
    case (Xfer b r)
    with Cons.prems obtain fr where fr: "frame w = Some fr" and r: "r = frame_reply w"
      and run: "fold_option (plays (lan_board L)) evs (w\<lparr>frame := Some (fr @ [(b, r)])\<rparr>) = Some w'"
      and as: "actions evs (Some (fr @ [(b, r)])) = Some as"
      by (cases "frame w") (auto split: if_splits)
    from Cons.IH [OF run] as frame_ok_snoc [OF Cons.prems(3) fr, of b] r show ?thesis by simp
  next
    case (Time s n)
    with Cons.prems obtain bs where "frame w = None" "fold_option (plays (lan_board L)) evs w = Some w'"
      "actions evs None = Some bs" "as = Clock s n # bs"
      by (auto split: if_splits)
    with Cons.IH [of w bs] Cons.prems(3) show ?thesis by (auto intro!: exI [of _ w])
  next
    case (File n d)
    with Cons.prems obtain bs where "frame w = None" "fold_option (plays (lan_board L)) evs w = Some w'"
      "actions evs None = Some bs" "as = File_data n d # bs"
      by (auto split: if_splits)
    with Cons.IH [of w bs] Cons.prems(3) show ?thesis by (auto intro!: exI [of _ w])
  qed
qed

lemma played_on_board:
  assumes "played (lan_board L) m m'" and "emits m m' as" and "frame (env m) = None"
  shows "board_run L as (env m) (env m')"
proof -
  from assms(1,2) obtain evs where
    "fold_option (plays (lan_board L)) evs (env m) = Some (env m')" "actions evs (frame (env m)) = Some as"
    using assms(3) by (auto simp: played_def emits_def)
  from board_plays [OF this frame_ok_start(1) [OF assms(3)]] frame_same [OF assms(3)] show ?thesis by simp
qed

text \<open>So the chip on the board follows every log of the board as its data sheet says.\<close>

lemma board_call_chip: "frame w = None \<Longrightarrow> chip (board_call L c w) = chip w"
  by (cases "(L, c, w)" rule: board_call.cases) (simp_all add: board_deselect_def)

lemma board_call_off_bus:
  "off_bus c \<Longrightarrow> frame (board_call L c w) = frame w" "off_bus c \<Longrightarrow> spi_on w \<Longrightarrow> spi_on (board_call L c w)"
  by (cases "(L, c, w)" rule: board_call.cases; simp add: off_bus_def)+

lemma board_documented:
  assumes "board_run L as w w'" and "frame w = None" and "spi_on w"
    and "\<And>c r. Ext c r \<in> set as \<Longrightarrow> off_bus c"
  shows "chip_run as (chip w) (chip w') \<and> frame w' = None \<and> spi_on w'"
  using assms
proof (induction as arbitrary: w)
  case Nil
  then show ?case by simp
next
  case (Cons a as)
  then obtain w1 where s: "board_step L a w w1" and r: "board_run L as w1 w'" by auto
  have "chip_step a (chip w) (chip w1) \<and> frame w1 = None \<and> spi_on w1"
  proof (cases a)
    case (Reg_read x bs)
    with s Cons.prems(2,3) chip_read_documented [of bs w x] show ?thesis by simp
  next
    case (Reg_write x bs)
    with s Cons.prems(2,3) chip_write_documented show ?thesis by simp
  next
    case (Ext c n)
    with Cons.prems(4) [of c n] have "off_bus c" by simp
    with Ext s Cons.prems(2,3) show ?thesis by (simp add: board_call_chip board_call_off_bus)
  qed (use s Cons.prems in auto)
  with Cons.IH [OF r] Cons.prems(4) show ?case by auto
qed

subsection \<open>It answers\<close>

definition board_idle :: "board \<Rightarrow> bool" where
  "board_idle w \<longleftrightarrow> frame w = None \<and> csr_op (chip w) = None \<and>
     snd (rd_left (chip w)) = 0 \<and> snd (wr_left (chip w)) = 0"

definition board_rest :: "board \<Rightarrow> bool" where
  "board_rest w \<longleftrightarrow> board_idle w \<and> spi_on w"

lemma Write_Reg_board:
  assumes "frame (env m) = None" and "spi_on (env m)"
  shows "env (Write_Reg (lan_board L) a d m) = board_access L (Reg_write a (le_bytes 4 (ucast d :: ULONG))) (env m)"
  using played_on_board [OF played_Write_Reg Write_Reg_emits assms(1)] assms(2) by simp

lemma Read_Reg_board:
  assumes "Read_Reg (lan_board L) a n m = Some (v, m')" and "frame (env m) = None" and "spi_on (env m)"
  shows "env m' = board_access L (Reg_read a (le_bytes (unat n) (ucast v :: ULONG))) (env m)"
    and "le_bytes (unat n) (ucast v :: ULONG) = map (reg_byte (env m) a) [0..<unat n]"
  using played_on_board [OF played_Read_Reg [OF assms(1)] Read_Reg_emits(1) [OF assms(1)] assms(2)] assms(3)
  by simp_all

lemma Read_Long_board:
  assumes "frame (env m) = None" and "spi_on (env m)"
  obtains v m' where "Read_Long (lan_board L) a m = Some (v, m')"
    and "le_bytes 4 v = map (reg_byte (env m) a) [0..<4]"
    and "env m' = board_access L (Reg_read a (map (reg_byte (env m) a) [0..<4])) (env m)"
proof -
  obtain r m' where r: "Read_Reg (lan_board L) a 4 m = Some (r, m')"
    using Read_Reg_total [of 4 "lan_board L" a m] by auto
  note Read_Reg_board [OF r assms]
  with r that [of "ucast r" m'] show thesis by (simp add: Read_Long_def)
qed

lemma answers_later:
  assumes "Read_Long E a m = Some (u, m1)" and "busy u" and "answers E a busy Q m1"
  shows "answers E a busy Q m"
proof -
  obtain n v m' where n: "reading (Read_Long E a) n m1 = Some (v, m')" "\<not> busy v" "Q m'"
    "\<forall>k < n. \<forall>u m2. reading (Read_Long E a) k m1 = Some (u, m2) \<longrightarrow> busy u"
    using assms(3) unfolding answers_def by blast
  have "busy x" if "k < Suc n" "reading (Read_Long E a) k m = Some (x, m2)" for k x m2
    using that n(4) assms(1,2) by (cases k) auto
  with n assms(1) show ?thesis
    unfolding answers_def by (intro exI [where x = "Suc n"] exI [of _ v] exI [of _ m']) simp
qed

text \<open>A status register that is busy as long as there is a lag, and whose reading changes nothing but the
  lag before that.\<close>

lemma answers_after_lag:
  assumes "I (env m)" and "\<And>w. I w \<Longrightarrow> frame w = None \<and> spi_on w"
    and "\<And>w v. I w \<Longrightarrow> 0 < lag w \<Longrightarrow> le_bytes 4 v = map (reg_byte w a) [0..<4] \<Longrightarrow>
      busy v \<and> I (w\<lparr>lag := lag w - 1\<rparr>) \<and>
      board_access L (Reg_read a (map (reg_byte w a) [0..<4])) w = w\<lparr>lag := lag w - 1\<rparr>"
    and "\<And>(m1 :: board machine) v m'. I (env m1) \<Longrightarrow> lag (env m1) = 0 \<Longrightarrow> le_bytes 4 v = map (reg_byte (env m1) a) [0..<4] \<Longrightarrow>
      env m' = board_access L (Reg_read a (map (reg_byte (env m1) a) [0..<4])) (env m1) \<Longrightarrow>
      \<not> busy v \<and> Q m'"
  shows "answers (lan_board L) a busy Q m"
  using assms(1)
proof (induction "lag (env m)" arbitrary: m)
  case 0
  obtain v m' where r: "Read_Long (lan_board L) a m = Some (v, m')"
    "le_bytes 4 v = map (reg_byte (env m) a) [0..<4]"
    "env m' = board_access L (Reg_read a (map (reg_byte (env m) a) [0..<4])) (env m)"
    using Read_Long_board assms(2) [OF 0(2)] by metis
  from assms(4) [OF 0(2) 0(1) [symmetric] r(2,3)] r(1) show ?case by (auto intro: answers_at_once)
next
  case (Suc n)
  obtain v m' where r: "Read_Long (lan_board L) a m = Some (v, m')"
    "le_bytes 4 v = map (reg_byte (env m) a) [0..<4]"
    "env m' = board_access L (Reg_read a (map (reg_byte (env m) a) [0..<4])) (env m)"
    using Read_Long_board assms(2) [OF Suc(3)] by metis
  have "0 < lag (env m)" using Suc(2) by simp
  from assms(3) [OF Suc(3) this r(2)] r(3) have b: "busy v" "I (env m')" "env m' = (env m)\<lparr>lag := lag (env m) - 1\<rparr>"
    by simp_all
  have "answers (lan_board L) a busy Q m'" by (rule Suc(1)) (use b Suc(2) in simp_all)
  with r(1) b(1) show ?case by (rule answers_later)
qed

lemma starts_bytes [simp]: "starts (map f [0..<4]) \<longleftrightarrow> f 3 AND 0x80 \<noteq> 0"
  by (simp add: starts_def)

lemma le_bytes_nth: "le_bytes 4 v = map f [0..<4] \<Longrightarrow> i < 4 \<Longrightarrow> Byte v i = f i"
  by (drule arg_cong [where f = "\<lambda>bs. bs ! i"]) simp

lemma board_csr_answers:
  assumes "frame (env m) = None" and "spi_on (env m)" and "snd (rd_left (chip (env m))) = 0"
    and "snd (wr_left (chip (env m))) = 0"
  shows "answers (lan_board L) ECAT_CSR_CMD csr_busy (\<lambda>m'. board_rest (env m')) m"
proof (rule answers_after_lag [where I = "\<lambda>w. frame w = None \<and> spi_on w \<and> snd (rd_left (chip w)) = 0 \<and>
      snd (wr_left (chip w)) = 0"])
  fix w and v :: ULONG
  assume I: "frame w = None \<and> spi_on w \<and> snd (rd_left (chip w)) = 0 \<and> snd (wr_left (chip w)) = 0"
    and v: "le_bytes 4 v = map (reg_byte w ECAT_CSR_CMD) [0..<4]" and "0 < lag w"
  then show "csr_busy v \<and> (frame (w\<lparr>lag := lag w - 1\<rparr>) = None \<and> spi_on (w\<lparr>lag := lag w - 1\<rparr>) \<and>
      snd (rd_left (chip (w\<lparr>lag := lag w - 1\<rparr>))) = 0 \<and> snd (wr_left (chip (w\<lparr>lag := lag w - 1\<rparr>))) = 0) \<and>
      board_access L (Reg_read ECAT_CSR_CMD (map (reg_byte w ECAT_CSR_CMD) [0..<4])) w = w\<lparr>lag := lag w - 1\<rparr>"
    using le_bytes_nth [OF v, of 3]
    by (simp add: csr_busy_def chip_read_def slow_ports_def) (simp add: reg_byte_def)
next
  fix m1 m' :: "board machine" and v :: ULONG
  assume I: "frame (env m1) = None \<and> spi_on (env m1) \<and> snd (rd_left (chip (env m1))) = 0 \<and>
      snd (wr_left (chip (env m1))) = 0"
    and v: "le_bytes 4 v = map (reg_byte (env m1) ECAT_CSR_CMD) [0..<4]" and l: "lag (env m1) = 0"
    and m': "env m' = board_access L (Reg_read ECAT_CSR_CMD (map (reg_byte (env m1) ECAT_CSR_CMD) [0..<4])) (env m1)"
  have z: "reg_byte (env m1) ECAT_CSR_CMD 3 = 0" using l by (simp add: reg_byte_def)
  have "chip (env m') = csr_finish (chip (env m1))" "frame (env m') = None" "spi_on (env m')"
    using I by (simp_all add: m' chip_read_def z)
  moreover have "rd_left (csr_finish c) = rd_left c" "wr_left (csr_finish c) = wr_left c" "csr_op (csr_finish c) = None"
    for c by (simp_all add: csr_finish_def split: option.split)
  ultimately show "\<not> csr_busy v \<and> board_rest (env m')"
    using I le_bytes_nth [OF v, of 3] by (simp add: csr_busy_def z board_rest_def board_idle_def)
qed (use assms in simp_all)

text \<open>A transfer of 32 bytes that was started.\<close>

definition reading_32 :: "board \<Rightarrow> bool" where
  "reading_32 w \<longleftrightarrow> frame w = None \<and> spi_on w \<and> csr_op (chip w) = None \<and>
     snd (rd_left (chip w)) = 32 \<and> snd (wr_left (chip w)) = 0"

definition writing_32 :: "board \<Rightarrow> bool" where
  "writing_32 w \<longleftrightarrow> frame w = None \<and> spi_on w \<and> csr_op (chip w) = None \<and>
     snd (wr_left (chip w)) = 32 \<and> snd (rd_left (chip w)) = 0"

lemma board_read_taken:
  assumes "reading_32 (env m)" and "rd_shown (chip (env m)) = 32"
  shows "board_rest (env (read_taken (lan_board L) b m))"
proof -
  let ?h = "SPI_Write (lan_board L) 0 (SPI_Write (lan_board L) 0
     (SPI_Write (lan_board L) COMM_SPI_READ (SCS_Low_macro (lan_board L) m)))"
  obtain b' m1 where loop: "read_loop (lan_board L) 0 32 b ?h = (b', m1)" by fastforce
  then have taken: "read_taken (lan_board L) b m = SCS_High_macro (lan_board L) m1"
    by (simp add: read_taken_def)
  have "played (lan_board L) m (read_taken (lan_board L) b m)"
    unfolding read_taken_def by (intro played_steps) (rule played_refl)
  from played_on_board [OF this [unfolded taken] emits_read_data [OF loop]] assms
  have "env (read_taken (lan_board L) b m) =
      board_access L (Reg_read ECAT_PRAM_RD_DATA (le_bytes 32 b')) (env m)"
    by (simp add: taken reading_32_def)
  with assms show ?thesis
    by (simp add: chip_read_def advance_def slow_ports_def reading_32_def board_rest_def board_idle_def)
qed

lemma board_write_given:
  assumes "writing_32 (env m)" and "32 \<le> wr_shown (chip (env m))"
  shows "board_rest (env (write_given (lan_board L) b m))"
proof -
  have "played (lan_board L) m (write_given (lan_board L) b m)"
    unfolding write_given_def by (intro played_steps) (rule played_refl)
  from played_on_board [OF this emits_write_data [of m "lan_board L" b, folded write_given_def]] assms
  have "env (write_given (lan_board L) b m) =
      board_access L (Reg_write ECAT_PRAM_WR_DATA (le_bytes 32 b)) (env m)"
    by (simp add: writing_32_def)
  with assms show ?thesis
    by (simp add: chip_write_def advance_def slow_ports_def writing_32_def board_rest_def board_idle_def)
qed

lemma board_rd_answers:
  assumes "reading_32 (env m)"
  shows "answers (lan_board L) ECAT_PRAM_RD_CMD rd_fifo_wait
    (\<lambda>m'. \<forall>b. board_rest (env (read_taken (lan_board L) b m'))) m"
proof (rule answers_after_lag [where I = reading_32])
  fix w and v :: ULONG
  assume "reading_32 w" and v: "le_bytes 4 v = map (reg_byte w ECAT_PRAM_RD_CMD) [0..<4]" and "0 < lag w"
  moreover from this have "reg_byte w ECAT_PRAM_RD_CMD 0 = 0" by (simp add: reg_byte_def)
  ultimately show "rd_fifo_wait v \<and> reading_32 (w\<lparr>lag := lag w - 1\<rparr>) \<and>
      board_access L (Reg_read ECAT_PRAM_RD_CMD (map (reg_byte w ECAT_PRAM_RD_CMD) [0..<4])) w = w\<lparr>lag := lag w - 1\<rparr>"
    using le_bytes_nth [OF v, of 0]
    by (simp add: rd_fifo_wait_def reading_32_def chip_read_def slow_ports_def)
next
  fix m1 m' :: "board machine" and v :: ULONG
  assume I: "reading_32 (env m1)"
    and v: "le_bytes 4 v = map (reg_byte (env m1) ECAT_PRAM_RD_CMD) [0..<4]" and l: "lag (env m1) = 0"
    and m': "env m' = board_access L (Reg_read ECAT_PRAM_RD_CMD (map (reg_byte (env m1) ECAT_PRAM_RD_CMD) [0..<4])) (env m1)"
  have z: "reg_byte (env m1) ECAT_PRAM_RD_CMD 0 = 1" "reg_byte (env m1) ECAT_PRAM_RD_CMD 1 = 8"
    using l I by (simp_all add: reg_byte_def reading_32_def)
  have "reading_32 (env m')" "rd_shown (chip (env m')) = 32"
    using I z by (simp_all add: m' chip_read_def reading_32_def)
  then show "\<not> rd_fifo_wait v \<and> (\<forall>b. board_rest (env (read_taken (lan_board L) b m')))"
    using le_bytes_nth [OF v, of 0] le_bytes_nth [OF v, of 1] z board_read_taken
    by (simp add: rd_fifo_wait_def)
qed (use assms in \<open>simp_all add: reading_32_def\<close>)

lemma board_wr_answers:
  assumes "writing_32 (env m)"
  shows "answers (lan_board L) ECAT_PRAM_WR_CMD wr_fifo_wait
    (\<lambda>m'. \<forall>b. board_rest (env (write_given (lan_board L) b m'))) m"
proof (rule answers_after_lag [where I = writing_32])
  fix w and v :: ULONG
  assume "writing_32 w" and v: "le_bytes 4 v = map (reg_byte w ECAT_PRAM_WR_CMD) [0..<4]" and "0 < lag w"
  moreover from this have "reg_byte w ECAT_PRAM_WR_CMD 0 = 0" by (simp add: reg_byte_def)
  ultimately show "wr_fifo_wait v \<and> writing_32 (w\<lparr>lag := lag w - 1\<rparr>) \<and>
      board_access L (Reg_read ECAT_PRAM_WR_CMD (map (reg_byte w ECAT_PRAM_WR_CMD) [0..<4])) w = w\<lparr>lag := lag w - 1\<rparr>"
    using le_bytes_nth [OF v, of 0]
    by (simp add: wr_fifo_wait_def writing_32_def chip_read_def slow_ports_def)
next
  fix m1 m' :: "board machine" and v :: ULONG
  assume I: "writing_32 (env m1)"
    and v: "le_bytes 4 v = map (reg_byte (env m1) ECAT_PRAM_WR_CMD) [0..<4]" and l: "lag (env m1) = 0"
    and m': "env m' = board_access L (Reg_read ECAT_PRAM_WR_CMD (map (reg_byte (env m1) ECAT_PRAM_WR_CMD) [0..<4])) (env m1)"
  have z: "reg_byte (env m1) ECAT_PRAM_WR_CMD 0 = 1" "reg_byte (env m1) ECAT_PRAM_WR_CMD 1 = 16"
    using l I by (simp_all add: reg_byte_def writing_32_def)
  have "writing_32 (env m')" "32 \<le> wr_shown (chip (env m'))"
    using I z by (simp_all add: m' chip_read_def writing_32_def)
  then show "\<not> wr_fifo_wait v \<and> (\<forall>b. board_rest (env (write_given (lan_board L) b m')))"
    using le_bytes_nth [OF v, of 0] le_bytes_nth [OF v, of 1] z board_write_given
    by (simp add: wr_fifo_wait_def)
qed (use assms in \<open>simp_all add: writing_32_def\<close>)

lemma board_undisturbed: "undisturbed (lan_board L) board_idle" "undisturbed (lan_board L) board_rest"
proof -
  have "board_idle (board_call L c w) \<and> (spi_on w \<longrightarrow> spi_on (board_call L c w))"
    if "off_bus c" "board_idle w" for c w
    using that board_call_off_bus [where c = c and w = w and L = L] board_call_chip [of w L c] by (simp add: board_idle_def)
  then show "undisturbed (lan_board L) board_idle" "undisturbed (lan_board L) board_rest"
    by (simp_all add: undisturbed_def board_rest_def)
qed

theorem board_responsive: "responsive (lan_board L) board_rest"
  unfolding responsive_def
proof (intro conjI allI impI ballI)
  fix m :: "board machine"
  assume rest: "board_rest (env m)"
  then have on: "frame (env m) = None" "spi_on (env m)" by (simp_all add: board_rest_def board_idle_def)
  note w = Write_Reg_board [OF on]
  show "board_rest (env (Write_Reg (lan_board L) a d m))" if "a \<in> {ECAT_CSR_DATA, IRQ_CFG, INT_EN}" for a d
    using that rest by (auto simp: w chip_write_def slow_ports_def board_rest_def board_idle_def)
  have "board_rest (env (Write_Reg (lan_board L) RESET_CTL d m))" for d
    using rest by (simp add: w chip_write_def slow_ports_def board_rest_def board_idle_def)
  then show "board_rest (env (ext_do (lan_board L) (Usleep 2000) (Write_Reg (lan_board L) RESET_CTL d m)))" for d
    by (simp add: ext_do_env)
  show "board_rest (env m')"
    if "a \<in> {HW_CFG, BYTE_TEST, ECAT_CSR_DATA}" "Read_Reg (lan_board L) a n m = Some (v, m')" for a n v m'
    using that(1) rest Read_Reg_board(1) [OF that(2) on]
    by (auto simp: chip_read_def slow_ports_def board_rest_def board_idle_def)
  show "answers (lan_board L) ECAT_CSR_CMD csr_busy (\<lambda>m'. board_rest (env m'))
      (Write_Reg (lan_board L) ECAT_CSR_CMD (ucast (csr_command u a n cmd)) m)" for u a n cmd
    using rest by (intro board_csr_answers) (simp_all add: w chip_write_def board_rest_def board_idle_def)
  have two: "env (Write_Reg (lan_board L) b y (Write_Reg (lan_board L) a x m)) =
      board_access L (Reg_write b (le_bytes 4 (ucast y :: ULONG)))
        (board_access L (Reg_write a (le_bytes 4 (ucast x :: ULONG))) (env m))" for a b x y
    using w on by (subst Write_Reg_board) simp_all
  show "answers (lan_board L) ECAT_PRAM_RD_CMD rd_fifo_wait
      (\<lambda>m'. \<forall>b. board_rest (env (read_taken (lan_board L) b m'))) (read_started (lan_board L) m)"
    using rest
    by (intro board_rd_answers)
      (simp add: read_started_def two chip_write_def area_bytes reading_32_def board_rest_def board_idle_def)
  show "answers (lan_board L) ECAT_PRAM_WR_CMD wr_fifo_wait
      (\<lambda>m'. \<forall>b. board_rest (env (write_given (lan_board L) b m'))) (write_started (lan_board L) m)"
    using rest
    by (intro board_wr_answers)
      (simp add: write_started_def two chip_write_def area_bytes writing_32_def board_rest_def board_idle_def)
qed (rule board_undisturbed)

text \<open>The set-up of the SPI brings an idle board to rest.\<close>

lemma board_starts_up: "starts_up (lan_board L) board_idle board_rest"
proof -
  have "board_rest (env m')" if "board_idle (env m)" "spi_init (lan_board L) m = (0, m')" for m m'
    using that by (auto simp: spi_init_def ext_call_def ext_do_def Let_def board_rest_def board_idle_def)
  with board_undisturbed(1) show ?thesis unfolding starts_up_def by blast
qed

text \<open>And \<open>init\<close> succeeds on it.\<close>

lemma board_long:
  assumes "board_rest (env m)" and "\<And>i. reg_byte (env m) a i = Byte v i" and "a \<in> {HW_CFG, BYTE_TEST}"
  shows "\<exists>m'. Read_Long (lan_board L) a m = Some (v, m') \<and> board_rest (env m')"
proof -
  have on: "frame (env m) = None" "spi_on (env m)" using assms(1) by (simp_all add: board_rest_def board_idle_def)
  obtain u m' where u: "Read_Long (lan_board L) a m = Some (u, m')"
    "le_bytes 4 u = map (reg_byte (env m) a) [0..<4]"
    "env m' = board_access L (Reg_read a (map (reg_byte (env m) a) [0..<4])) (env m)"
    using Read_Long_board [OF on, where a = a and L = L] .
  have "map (reg_byte (env m) a) [0..<4] = le_bytes 4 v"
    by (rule le_bytes_eqI [symmetric]) (simp_all add: assms(2))
  with u(2) have "u = v" by (simp add: le_bytes_inject32)
  moreover have "board_rest (env m')"
    using assms(1,3) by (auto simp: u(3) chip_read_def slow_ports_def board_rest_def board_idle_def)
  ultimately show ?thesis using u(1) by blast
qed

lemma init_board: "board_idle (env m) \<Longrightarrow> \<exists>ob' m'. init (lan_board L) ob m = Some (0, ob', m')"
proof -
  assume idle: "board_idle (env m)"
  obtain m1 where spi: "spi_init (lan_board L) m = (0, m1)"
    by (simp add: spi_init_def ext_call_def Let_def)
  with board_starts_up idle have rest: "board_rest (env m1)" unfolding starts_up_def by blast
  obtain m2 where hw: "Read_Long (lan_board L) HW_CFG m1 = Some (READY, m2)" "board_rest (env m2)"
    using board_long [OF rest, where a = HW_CFG and v = READY and L = L] by (auto simp: reg_byte_def)
  obtain m3 where bt: "Read_Long (lan_board L) BYTE_TEST m2 = Some (TEST_PATTERN, m3)" "board_rest (env m3)"
    using board_long [OF hw(2), where a = BYTE_TEST and v = TEST_PATTERN and L = L] by (auto simp: reg_byte_def)
  have need: "is_resetneeded (lan_board L) m1 = Some (0, m3)"
    unfolding is_resetneeded_def using hw(1) bt(1) by simp
  obtain m4 where w: "Write_Reg_Wait (lan_board L) AL_EVENT_MASK_REG_0 0x100 m3 = Some m4"
    using Write_Reg_Wait_returns [OF board_responsive bt(2)] by blast
  have "\<exists>ob' m'. do_initirq (lan_board L) ob m3 = Some (0, ob', m')"
    using w by (simp add: do_initirq_def Let_def ext_call_def)
  with spi need show ?thesis by (simp add: init_def)
qed

text \<open>A board after power-up.\<close>

definition board_on :: board where
  "board_on = \<lparr>chip = \<lparr>esc_mem = (\<lambda>a. if a = 0x0440 then 1 else if a = 0x0130 then 8 else of_nat a), csr_data = [],
       csr_op = None, rd_area = (0, 0), rd_left = (0, 0), rd_shown = 0, wr_area = (0, 0), wr_left = (0, 0),
       wr_shown = 0, sys_regs = (\<lambda>a. [])\<rparr>, frame = None, spi_on = False, lag = 0\<rparr>"

lemma board_on_idle: "board_idle board_on" "board_rest (board_on\<lparr>spi_on := True\<rparr>)"
  by (simp_all add: board_on_def board_rest_def board_idle_def)

end
