(* ===== verification/Cycle_Rate.thy ===== *)
theory Cycle_Rate
  imports Footprint Irq_Count Driver_Link Board
begin

section \<open>Cycles, interrupts and timeouts\<close>

text \<open>
  The real-time thread on the driver and on a board: what makes a round of
  \<open>etherberry_9252::execute_fromthread\<close> begin. The platform of this theory answers \<open>ioctl\<close> with the
  driver of \<open>gpioirq_kdriver/gpioirq.c\<close> and everything else with a board of its own, while the
  kernel goes on: the board is the SPI chip with the library that reaches it, and the interrupts
  that it raises are part of what the kernel does meanwhile. The device file is open, with the
  context \<open>c\<close>, and it is the only one of the line; the thread is the only one that waits on it.
\<close>

subsection \<open>A board next to the driver\<close>

text \<open>\<open>pass\<close> is what happens to the kernel while a call other than \<open>ioctl\<close> runs.\<close>

definition board_on_driver :: "'k irq_kernel \<Rightarrow> (u64 \<Rightarrow> u32 \<Rightarrow> bool) \<Rightarrow> MYCONTEXT \<Rightarrow>
    ('w \<Rightarrow> 'k \<Rightarrow> 'k) \<Rightarrow> 'w platform \<Rightarrow> ('k \<times> 'w) platform" where
  "board_on_driver K ok c pass E = \<lparr>
     xcall = (\<lambda>call (k, w). case call of
         Ioctl h cmd arg \<Rightarrow> (let (r, k) = sys_ioctl K ok c cmd (ucast arg) k in (r, k, w))
       | _ \<Rightarrow> (let (r, w) = xcall E call w in (r, pass w k, w))),
     xfer = (\<lambda>b (k, w). let (r, w) = xfer E b w in (r, pass w k, w)),
     clock = (\<lambda>(k, w). let (r, w) = clock E w in (r, pass w k, w)),
     fread = (\<lambda>n (k, w). let (r, w) = fread E n w in (r, pass w k, w)),
     indet = (\<lambda>(k, w). indet E w)\<rparr>"

text \<open>Time does not go back, and nobody else takes the interrupts of this file.\<close>

definition pass_law :: "('w \<Rightarrow> 'k \<Rightarrow> 'k) \<Rightarrow> ('k \<Rightarrow> nat) \<Rightarrow> ('k \<Rightarrow> nat) \<Rightarrow> bool" where
  "pass_law pass T taken \<longleftrightarrow> (\<forall>w k. T k \<le> T (pass w k) \<and> taken (pass w k) = taken k)"

lemma on_driver_call:
  assumes "no_ioctl call"
  shows "xcall (board_on_driver K ok c pass E) call (k, w) =
    (let (r, w) = xcall E call w in (r, pass w k, w))"
  using assms by (cases call) (auto simp: board_on_driver_def no_ioctl_def)

lemma on_driver_ioctl:
  "xcall (board_on_driver K ok c pass E) (Ioctl h cmd arg) (k, w) =
    (let (r, k) = sys_ioctl K ok c cmd (ucast arg) k in (r, k, w))"
  by (simp add: board_on_driver_def)

lemma on_driver_rest:
  "xfer (board_on_driver K ok c pass E) b (k, w) = (let (r, w) = xfer E b w in (r, pass w k, w))"
  "clock (board_on_driver K ok c pass E) (k, w) = (let (r, w) = clock E w in (r, pass w k, w))"
  "fread (board_on_driver K ok c pass E) n (k, w) = (let (r, w) = fread E n w in (r, pass w k, w))"
  "indet (board_on_driver K ok c pass E) (k, w) = indet E w"
  by (simp_all add: board_on_driver_def)

subsection \<open>The two views of the platform\<close>

text \<open>The kernel goes on and on, however often; the board is the one that was put in.\<close>

definition goes_on :: "('w \<Rightarrow> 'k \<Rightarrow> 'k) \<Rightarrow> 'k \<times> 'w \<Rightarrow> 'k \<times> 'w \<Rightarrow> bool" where
  "goes_on pass u v \<longleftrightarrow> (\<lambda>k k'. \<exists>w. k' = pass w k)\<^sup>*\<^sup>* (fst u) (fst v)"

lemma goes_on_preorder:
  "goes_on pass u u" "goes_on pass u v \<Longrightarrow> goes_on pass v w \<Longrightarrow> goes_on pass u w"
  unfolding goes_on_def by (blast, rule rtranclp_trans)

lemma goes_on_calls:
  "no_ioctl call \<Longrightarrow> goes_on pass u (snd (xcall (board_on_driver K ok c pass E) call u))"
  "goes_on pass u (snd (xfer (board_on_driver K ok c pass E) b u))"
  "goes_on pass u (snd (clock (board_on_driver K ok c pass E) u))"
  by (cases u; auto simp: goes_on_def on_driver_call on_driver_rest split: prod.split)+

interpretation going: footprint "board_on_driver K ok c pass E" "goes_on pass" for K ok c pass E
  by unfold_locales (fact goes_on_preorder goes_on_calls)+

interpretation chip_side: embedded_board "board_on_driver K ok c pass E" E snd for K ok c pass E
  by unfold_locales (auto simp: on_driver_call on_driver_ioctl on_driver_rest split: prod.split)

lemma goes_on_laws:
  assumes "pass_law pass T taken" and "goes_on pass u v"
  shows "T (fst u) \<le> T (fst v)" and "taken (fst v) = taken (fst u)"
proof -
  from assms(2) have "T (fst u) \<le> T (fst v) \<and> taken (fst v) = taken (fst u)"
    unfolding goes_on_def
    by (induction rule: rtranclp_induct) (use assms(1) in \<open>auto simp: pass_law_def intro: order_trans\<close>)
  then show "T (fst u) \<le> T (fst v)" and "taken (fst v) = taken (fst u)" by simp_all
qed

subsection \<open>The wait of a round\<close>

lemma wait_on_driver:
  assumes "wait_laws K T taken" and "usable ok c" and "m_devhndl ob \<noteq> - 1"
    and "waitforirq_or_timeout (board_on_driver K ok c pass E) ob 100 m = (err, m1)"
  shows "T (fst (env m)) \<le> T (fst (env m1))"
    and "if err = 0 then taken (fst (env m1)) = taken (fst (env m)) + 1
      else taken (fst (env m1)) = taken (fst (env m)) \<and> T (fst (env m)) + 100 * 1000000 \<le> T (fst (env m1))"
proof -
  obtain k w where m: "env m = (k, w)" by fastforce
  obtain r k' where r: "sys_ioctl K ok c IRQMOD_DOWN_TIMEOUT 100 k = (r, k')" "T k \<le> T k'"
    "if r = 0 then taken k' = taken k + 1 else taken k' = taken k \<and> T k + 100 * 1000000 \<le> T k'"
    using sys_ioctl_down_timeout [OF assms(1,2), of k] by blast
  then have "err = r" "env m1 = (k', w)"
    using assms(3,4) by (auto simp: waitforirq_or_timeout_def ext_call_def m on_driver_ioctl)
  with r(2,3) show "T (fst (env m)) \<le> T (fst (env m1))"
    and "if err = 0 then taken (fst (env m1)) = taken (fst (env m)) + 1
      else taken (fst (env m1)) = taken (fst (env m)) \<and> T (fst (env m)) + 100 * 1000000 \<le> T (fst (env m1))"
    by (simp_all add: m split: if_splits)
qed

text \<open>A wait that gives up has found no unit at its start.\<close>

lemma wait_prompt:
  assumes "sema_laws K pass md irq D raised" and "usable ok c" and "m_devhndl ob \<noteq> - 1"
    and "waitforirq_or_timeout (board_on_driver K ok c pass E) ob 100 m = (err, m1)" and "err \<noteq> 0"
    and "armed md irq (D (fst (env m)))"
  shows "units md (D (fst (env m))) = 0"
proof (rule ccontr)
  assume u: "units md (D (fst (env m))) \<noteq> 0"
  have "0 < sint (1000000 * 100 :: u64)" by simp
  with down_timeoutms_prompt [OF assms(1,6), of 100] u obtain k' where
    "down_timeoutms K 100 (fst (env m)) = Some (0, k')" by auto
  then have "sys_ioctl K ok c IRQMOD_DOWN_TIMEOUT 100 (fst (env m)) = (0, k')"
    using down_timeout_command [OF assms(2), of K "fst (env m)"] by (simp add: sys_ioctl_def)
  then show False
    using assms(3-5) by (cases "env m") (auto simp: waitforirq_or_timeout_def ext_call_def on_driver_ioctl)
qed

subsection \<open>What the kernel keeps in the rounds\<close>

lemma sys_ioctl_keeps:
  assumes "kernel_keeps K pass P" and "usable ok c" and "sys_ioctl K ok c IRQMOD_DOWN_TIMEOUT 100 k = (r, k')"
    and "P k"
  shows "P k'"
  using assms(3,4) down_timeoutms_keeps [OF assms(1), of 100 k] down_timeout_command [OF assms(2), of K k]
  by (auto simp: sys_ioctl_def split: option.splits prod.splits)

lemma goes_on_keeps:
  assumes "kernel_keeps K pass P" and "goes_on pass u v" and "P (fst u)"
  shows "P (fst v)"
  using assms(2,3) unfolding goes_on_def
  by (induction rule: rtranclp_induct) (use assms(1) in \<open>auto simp: kernel_keeps_def\<close>)

lemma round_kernel_keeps:
  assumes "kernel_keeps K pass P" and "usable ok c" and "P (fst (env m))"
    and "execute_round (board_on_driver K ok c pass E) F ob m = Some (ob', m')"
  shows "P (fst (env m'))"
proof -
  obtain err m1 where w: "waitforirq_or_timeout (board_on_driver K ok c pass E) ob 100 m = (err, m1)"
    by fastforce
  obtain k v where m: "env m = (k, v)" by fastforce
  obtain r k' where r: "sys_ioctl K ok c IRQMOD_DOWN_TIMEOUT 100 k = (r, k')" by fastforce
  from assms(3) have "P k" by (simp add: m)
  with sys_ioctl_keeps [OF assms(1,2) r] have "P k'" .
  moreover from w have "fst (env m1) = (if m_devhndl ob = - 1 then k else k')"
    using m by (auto simp: waitforirq_or_timeout_def ext_call_def r on_driver_ioctl split: if_splits)
  ultimately have "P (fst (env m1))" using \<open>P k\<close> by simp
  then show ?thesis by (rule goes_on_keeps [OF assms(1) going.foot_round [OF assms(4) w]])
qed

subsection \<open>Many rounds\<close>

text \<open>The result of \<open>n\<close> rounds that began with \<open>u\<close> units: \<open>N\<close> of them with an interrupt, \<open>Z\<close> without.\<close>

definition paced :: "('k \<Rightarrow> nat) \<Rightarrow> ('k \<Rightarrow> nat) \<Rightarrow> nat \<Rightarrow> nat \<Rightarrow> 'k \<Rightarrow> 'k \<Rightarrow> bool" where
  "paced T taken u n k k' \<longleftrightarrow> (\<exists>N Z. n = N + Z \<and> min n u \<le> N \<and> taken k' = taken k + N \<and>
     T k + Z * (100 * 1000000) \<le> T k')"

lemma paced_Suc:
  assumes "paced T taken u n k k1" and "T k1 \<le> T k2"
    and "taken k2 = taken k1 + 1 \<or>
      taken k2 = taken k1 \<and> T k1 + 100 * 1000000 \<le> T k2 \<and> u + taken k \<le> taken k1"
  shows "paced T taken u (Suc n) k k2"
proof -
  obtain N Z where NZ: "n = N + Z" "min n u \<le> N" "taken k1 = taken k + N" "T k + Z * (100 * 1000000) \<le> T k1"
    using assms(1) by (auto simp: paced_def)
  from assms(3) show ?thesis
  proof
    assume "taken k2 = taken k1 + 1"
    with NZ assms(2) show ?thesis unfolding paced_def by (intro exI [of _ "Suc N"] exI [of _ Z]) auto
  next
    assume "taken k2 = taken k1 \<and> T k1 + 100 * 1000000 \<le> T k2 \<and> u + taken k \<le> taken k1"
    with NZ show ?thesis unfolding paced_def by (intro exI [of _ N] exI [of _ "Suc Z"]) auto
  qed
qed

lemma round_paced:
  assumes "wait_laws K T taken" and "usable ok c" and "pass_law pass T taken"
    and "sema_laws K pass md irq D raised" and "m_devhndl ob \<noteq> - 1" and "armed md irq (D (fst (env m)))"
    and "execute_round (board_on_driver K ok c pass E) F ob m = Some (ob', m')"
  shows "T (fst (env m)) \<le> T (fst (env m'))"
    and "taken (fst (env m')) = taken (fst (env m)) + 1 \<or>
      taken (fst (env m')) = taken (fst (env m)) \<and> T (fst (env m)) + 100 * 1000000 \<le> T (fst (env m')) \<and>
      units md (D (fst (env m))) = 0"
proof -
  obtain err m1 where w: "waitforirq_or_timeout (board_on_driver K ok c pass E) ob 100 m = (err, m1)"
    by fastforce
  note goes_on_laws [OF assms(3) going.foot_round [OF assms(7) w]] wait_on_driver [OF assms(1,2,5) w]
    wait_prompt [OF assms(4,2,5) w _ assms(6)]
  then show "T (fst (env m)) \<le> T (fst (env m'))"
    and "taken (fst (env m')) = taken (fst (env m)) + 1 \<or>
      taken (fst (env m')) = taken (fst (env m)) \<and> T (fst (env m)) + 100 * 1000000 \<le> T (fst (env m')) \<and>
      units md (D (fst (env m))) = 0"
    by (auto split: if_splits)
qed

lemma round_keeps:
  assumes "execute_round E F ob m = Some (ob', m')"
  shows "m_devhndl ob' = m_devhndl ob" and "m_count ob' = m_count ob + 1"
proof -
  from execute_round_emits [OF assms] obtain as code ob1 a b where c: "cycle_spec ob as code ob1"
    and ob': "ob' = record_times F a b ob1" by blast
  from c have "m_devhndl ob1 = m_devhndl ob" "m_count ob1 = m_count ob" by (auto elim!: cycle_specE)
  then show "m_devhndl ob' = m_devhndl ob" and "m_count ob' = m_count ob + 1"
    by (simp_all add: ob' record_times_def Let_def)
qed

lemma rounds_paced:
  assumes "wait_laws K T taken" and "usable ok c" and "pass_law pass T taken"
    and "sema_laws K pass md irq D raised" and "m_devhndl ob \<noteq> - 1" and "armed md irq (D (fst (env m)))"
    and "execute_fromthread n (board_on_driver K ok c pass E) F ob m = Some (ob', m')"
  shows "paced T taken (units md (D (fst (env m)))) n (fst (env m)) (fst (env m')) \<and>
    balanced md irq D raised taken (fst (env m)) (fst (env m')) \<and>
    m_count ob' = m_count ob + of_nat n \<and> m_devhndl ob' = m_devhndl ob"
  using assms(7)
proof (induction n arbitrary: ob' m')
  case 0
  with assms(6) show ?case by (simp add: paced_def balanced_def)
next
  case (Suc n)
  then obtain ob1 m1 where
    run: "execute_fromthread n (board_on_driver K ok c pass E) F ob m = Some (ob1, m1)"
    and round: "execute_round (board_on_driver K ok c pass E) F ob1 m1 = Some (ob', m')"
    by (auto simp: execute_fromthread_snoc bind_Some_iff simp del: execute_fromthread.simps)
  note IH = Suc.IH [OF run]
  then have b: "balanced md irq D raised taken (fst (env m)) (fst (env m1))" by blast
  have keeps: "kernel_keeps K pass (balanced md irq D raised taken (fst (env m)))"
    using assms(1,3,4) by (intro kernel_keeps_balance) (auto simp: pass_law_def)
  from IH assms(5) have h: "m_devhndl ob1 \<noteq> - 1" by simp
  from b have "armed md irq (D (fst (env m1)))" by (simp add: balanced_def)
  note p = round_paced [OF assms(1-4) h this round]
  have z: "units md (D (fst (env m1))) = 0 \<Longrightarrow>
      units md (D (fst (env m))) + taken (fst (env m)) \<le> taken (fst (env m1))"
    using b by (simp add: balanced_def)
  have "paced T taken (units md (D (fst (env m)))) (Suc n) (fst (env m)) (fst (env m'))"
    using conjunct1 [OF IH] p(1) by (rule paced_Suc) (use p(2) z in blast)
  moreover note round_kernel_keeps [OF keeps assms(2) b round]
  ultimately show ?case using IH round_keeps [OF round] by simp
qed

subsection \<open>Properties\<close>

text \<open>C18: On the driver and a board whose chip answers what it is asked for (\<open>responsive\<close>) and is at rest,
  every round of the real-time thread ends, and the rounds keep step with the interrupts: each of \<open>n\<close> rounds,
  which \<open>m_count\<close> counts, has either taken one interrupt of its own or waited the whole 100 ms in vain; of the
  interrupts for which the driver's handler ran each one has had its round or is still counted in the
  semaphore, so none is lost and none is taken twice; and those that were counted at the start have the first
  rounds.\<close>

theorem cycles_follow_interrupts:
  assumes "wait_laws K T taken" and "pass_law pass T taken" and "sema_laws K pass md irq D raised"
    and "usable ok c" and "responsive E at_rest" and "at_rest (snd (env m))"
    and "ring_bounds ob" and "m_devhndl ob \<noteq> - 1" and "armed md irq (D (fst (env m)))"
  shows "\<exists>ob' m' N Z. execute_fromthread n (board_on_driver K ok c pass E) F ob m = Some (ob', m') \<and>
    n = N + Z \<and> m_count ob' = m_count ob + of_nat n \<and> min n (units md (D (fst (env m)))) \<le> N \<and>
    T (fst (env m)) + Z * (100 * 1000000) \<le> T (fst (env m')) \<and>
    units md (D (fst (env m'))) + N + raised (fst (env m)) = units md (D (fst (env m))) + raised (fst (env m'))"
proof -
  obtain ob' m' where run: "execute_fromthread n (board_on_driver K ok c pass E) F ob m = Some (ob', m')"
    using execute_fromthread_returns [OF chip_side.seen_responsive [OF assms(5)] assms(6,7)] by blast
  from rounds_paced [OF assms(1,4,2,3,8,9) run] obtain N Z where
    NZ: "n = N + Z" "min n (units md (D (fst (env m)))) \<le> N" "taken (fst (env m')) = taken (fst (env m)) + N"
    "T (fst (env m)) + Z * (100 * 1000000) \<le> T (fst (env m'))" "m_count ob' = m_count ob + of_nat n"
    and b: "balanced md irq D raised taken (fst (env m)) (fst (env m'))"
    unfolding paced_def by blast
  from b NZ(3) have "units md (D (fst (env m'))) + N + raised (fst (env m)) =
      units md (D (fst (env m))) + raised (fst (env m'))" by (simp add: balanced_def)
  with run NZ show ?thesis by blast
qed

text \<open>Three rounds on a board with a documented chip, with the device opened, one interrupt waiting and one
  more every 150 ms.\<close>

theorem cycles_follow_interrupts_witness:
  "\<exists>ob' m' N Z. execute_fromthread 3
      (board_on_driver (edge_kernel 8 61 every_150ms) user_range (zeroed_context\<lparr>wOpen := 1\<rparr>)
        (\<lambda>w. go_on 61 every_150ms) (lan_board 2)) real_fpu
      ((raw_shield real_fpu)\<lparr>m_devhndl := 3\<rparr>) (start (opened_kernel, board_on\<lparr>spi_on := True\<rparr>)) = Some (ob', m') \<and>
    3 = N + Z \<and> m_count ob' = 3 \<and> 1 \<le> N \<and> 5 + Z * (100 * 1000000) \<le> at_ns (fst (env m')) \<and>
    units 8 (the_drv (fst (env m'))) + N = irqs (fst (env m'))"
proof -
  let ?ob = "(raw_shield real_fpu)\<lparr>m_devhndl := 3\<rparr>"
  let ?m = "start (opened_kernel, board_on\<lparr>spi_on := True\<rparr>) :: (clocked_drv \<times> board) machine"
  have ob: "ring_bounds ?ob" "m_devhndl ?ob \<noteq> - 1" "m_count ?ob = 0"
    using raw_shield_facts(2,5) [of real_fpu] by (simp_all add: ring_bounds_def wf_object_def)
  have rest: "board_rest (snd (env ?m))" using board_on_idle(2) by simp
  have pass: "pass_law (\<lambda>w. go_on 61 every_150ms) at_ns downs"
    by (simp add: pass_law_def go_on_clock)
  have m: "armed 8 61 (the_drv (fst (env ?m)))" "units 8 (the_drv (fst (env ?m))) = 1"
    "irqs (fst (env ?m)) = 1" "at_ns (fst (env ?m)) = 5"
    using opened_kernel_armed by (simp_all add: opened_kernel_def)
  from cycles_follow_interrupts [OF edge_kernel_waits pass edge_kernel_sema usable_open board_responsive [of 2]
      rest ob(1,2) m(1), of 3 real_fpu] m ob(3)
  show ?thesis by simp
qed

end
