(* ===== verification/Seqlock.thy ===== *)
theory Seqlock
  imports Process_Data
begin

section \<open>The sequence counter between the two threads\<close>

text \<open>
  \<open>SPIReadProcRamFifo\<close> (real-time thread) publishes the process data in
  \<open>m_BufferOutEthToSlaveBuffer\<close> between two increments of \<open>m_atomiccounter\<close>; \<open>receive_input\<close>
  (main thread) copies the buffer until the counter is the same before and after its copy
  (\<open>rpi_base/src/rpi_base.cpp\<close>). Here the two run interleaved. The assignment of the 32-byte
  union is four copies of 64-bit words in order; the steps are sequentially consistent.
  The fields \<open>frames\<close> (the initial content and all complete frames, oldest first), \<open>ticks\<close> (the
  number of increments), \<open>load_ticks\<close>, \<open>done_ticks\<close> and \<open>load_frames\<close> (what they were when the
  reader loaded and compared the counter) are history and are not read by any step.
\<close>

subsection \<open>The two programs\<close>

text \<open>The writer: outside the protected part, or inside it with \<open>k\<close> words of the frame copied.\<close>

datatype writer = W_idle | W_copy PROCBUFFER nat

text \<open>
  The reader: at the top of its loop, copying with the value \<open>localcounter\<close> and \<open>k\<close> words copied,
  or returned.
\<close>

datatype reader = R_start | R_copy u32 nat | R_done u32

record seq_sys =
  counter :: u32
  shared_buf :: PROCBUFFER
  wr :: writer
  rd :: reader
  local_buf :: PROCBUFFER
  frames :: "PROCBUFFER list"
  ticks :: nat
  load_ticks :: nat
  done_ticks :: nat
  load_frames :: nat

definition seq_init :: "seq_sys \<Rightarrow> bool" where
  "seq_init s \<longleftrightarrow> counter s = 0 \<and> ticks s = 0 \<and> wr s = W_idle \<and> rd s = R_start \<and>
     frames s = [shared_buf s]"

inductive seq_step :: "seq_sys \<Rightarrow> seq_sys \<Rightarrow> bool" where
  w_begin: "wr s = W_idle \<Longrightarrow>
    seq_step s (s\<lparr>counter := counter s + 1, ticks := Suc (ticks s), wr := W_copy d 0\<rparr>)"
| w_copy: "wr s = W_copy d k \<Longrightarrow> k < 4 \<Longrightarrow>
    seq_step s (s\<lparr>shared_buf := set_ul (shared_buf s) k (ul d k), wr := W_copy d (Suc k)\<rparr>)"
| w_end: "wr s = W_copy d 4 \<Longrightarrow>
    seq_step s (s\<lparr>counter := counter s + 1, ticks := Suc (ticks s), wr := W_idle,
      frames := frames s @ [d]\<rparr>)"
| r_load: "rd s = R_start \<Longrightarrow>
    seq_step s (s\<lparr>rd := R_copy (counter s) 0, load_ticks := ticks s, load_frames := length (frames s)\<rparr>)"
| r_copy: "rd s = R_copy c k \<Longrightarrow> k < 4 \<Longrightarrow>
    seq_step s (s\<lparr>local_buf := set_ul (local_buf s) k (ul (shared_buf s) k), rd := R_copy c (Suc k)\<rparr>)"
| r_done: "rd s = R_copy c 4 \<Longrightarrow> c = counter s \<Longrightarrow>
    seq_step s (s\<lparr>rd := R_done c, done_ticks := ticks s\<rparr>)"
| r_retry: "rd s = R_copy c 4 \<Longrightarrow> c \<noteq> counter s \<Longrightarrow> seq_step s (s\<lparr>rd := R_start\<rparr>)"
| r_again: "rd s = R_done c \<Longrightarrow> seq_step s (s\<lparr>rd := R_start\<rparr>)"

subsection \<open>The invariant\<close>

definition words_agree :: "nat \<Rightarrow> PROCBUFFER \<Rightarrow> PROCBUFFER \<Rightarrow> bool" where
  "words_agree k a b \<longleftrightarrow> (\<forall>j < k. ul a j = ul b j)"

lemma words_agree_0 [simp]: "words_agree 0 a b"
  by (simp add: words_agree_def)

lemma words_agree_4: "words_agree 4 a b \<Longrightarrow> a = b"
  unfolding words_agree_def by (rule buf_uls.view_ext) simp

lemma words_agree_copy:
  "words_agree k a b \<Longrightarrow> k < 4 \<Longrightarrow> words_agree (Suc k) (set_ul a k (ul b k)) b"
  by (auto simp: words_agree_def less_Suc_eq buf_uls.get_put_same buf_uls.get_put_other)

definition writer_inv :: "seq_sys \<Rightarrow> bool" where
  "writer_inv s \<longleftrightarrow> counter s = of_nat (ticks s) \<and> frames s \<noteq> [] \<and>
     (case wr s of
        W_idle \<Rightarrow> even (ticks s) \<and> shared_buf s = last (frames s)
      | W_copy d k \<Rightarrow> odd (ticks s) \<and> k \<le> 4 \<and> words_agree k (shared_buf s) d)"

text \<open>A read is clean when it began outside the protected part and no increment came since.\<close>

definition reader_inv :: "seq_sys \<Rightarrow> bool" where
  "reader_inv s \<longleftrightarrow>
     (case rd s of
        R_start \<Rightarrow> True
      | R_copy c k \<Rightarrow> k \<le> 4 \<and> c = of_nat (load_ticks s) \<and> load_ticks s \<le> ticks s \<and>
          (even (load_ticks s) \<and> ticks s = load_ticks s \<longrightarrow>
             words_agree k (local_buf s) (shared_buf s) \<and> length (frames s) = load_frames s)
      | R_done c \<Rightarrow> c = of_nat (load_ticks s) \<and> c = of_nat (done_ticks s) \<and>
          load_ticks s \<le> done_ticks s \<and>
          (even (load_ticks s) \<and> done_ticks s = load_ticks s \<longrightarrow>
             load_frames s \<le> length (frames s) \<and> 0 < load_frames s \<and>
             local_buf s = frames s ! (load_frames s - 1)))"

inductive_cases seq_stepE: "seq_step s t"

lemma writer_inv_step: "writer_inv s \<Longrightarrow> seq_step s t \<Longrightarrow> writer_inv t"
proof (erule seq_stepE)
  fix d assume "writer_inv s" "wr s = W_copy d 4"
    and t: "t = s\<lparr>counter := counter s + 1, ticks := Suc (ticks s), wr := W_idle, frames := frames s @ [d]\<rparr>"
  then have "words_agree 4 (shared_buf s) d" by (simp add: writer_inv_def)
  then have "shared_buf s = d" by (rule words_agree_4)
  with \<open>writer_inv s\<close> \<open>wr s = W_copy d 4\<close> t show "writer_inv t"
    by (simp add: writer_inv_def)
next
  fix d k assume "writer_inv s" "wr s = W_copy d k" "k < 4"
    "t = s\<lparr>shared_buf := set_ul (shared_buf s) k (ul d k), wr := W_copy d (Suc k)\<rparr>"
  then show "writer_inv t" by (simp add: writer_inv_def words_agree_copy)
qed (auto simp: writer_inv_def split: writer.splits)

text \<open>A copy that is complete when the counter is even and has not moved is the newest frame.\<close>

lemma reader_inv_done:
  assumes "writer_inv s" and "reader_inv s" and rd: "rd s = R_copy (counter s) 4"
    and t: "t = s\<lparr>rd := R_done (counter s), done_ticks := ticks s\<rparr>"
  shows "reader_inv t"
proof (cases "even (load_ticks s) \<and> ticks s = load_ticks s")
  case True
  with assms(2) rd(1) have "words_agree 4 (local_buf s) (shared_buf s)"
    "length (frames s) = load_frames s"
    by (simp_all add: reader_inv_def)
  moreover from True assms(1) have "shared_buf s = last (frames s)" "frames s \<noteq> []"
    by (auto simp: writer_inv_def split: writer.splits)
  ultimately have "local_buf s = frames s ! (load_frames s - 1)" "0 < load_frames s"
    using words_agree_4 [of "local_buf s" "shared_buf s"] length_greater_0_conv [of "frames s"]
    by (simp_all add: last_conv_nth)
  with assms rd t \<open>length (frames s) = load_frames s\<close> show ?thesis
    by (auto simp: reader_inv_def writer_inv_def)
next
  case False
  with assms rd t show ?thesis by (auto simp: reader_inv_def writer_inv_def)
qed

lemma reader_inv_step:
  assumes "writer_inv s" and "reader_inv s" and "seq_step s t"
  shows "reader_inv t"
  using assms(3)
proof (rule seq_stepE)
  fix d k assume "wr s = W_copy d k"
    and t: "t = s\<lparr>shared_buf := set_ul (shared_buf s) k (ul d k), wr := W_copy d (Suc k)\<rparr>"
  with assms(1) have "odd (ticks s)" by (simp add: writer_inv_def)
  with assms(2) t show ?thesis by (auto simp: reader_inv_def split: reader.splits)
next
  assume rd: "rd s = R_copy (counter s) 4"
    and t: "t = s\<lparr>rd := R_done (counter s), done_ticks := ticks s\<rparr>"
  show ?thesis using assms(1,2) rd t by (rule reader_inv_done)
next
  fix c k assume "rd s = R_copy c k" "k < 4"
    "t = s\<lparr>local_buf := set_ul (local_buf s) k (ul (shared_buf s) k), rd := R_copy c (Suc k)\<rparr>"
  with assms(2) show ?thesis by (auto simp: reader_inv_def words_agree_copy)
next
  fix d assume "wr s = W_copy d 4"
    "t = s\<lparr>counter := counter s + 1, ticks := Suc (ticks s), wr := W_idle, frames := frames s @ [d]\<rparr>"
  with assms(2) show ?thesis
    by (auto simp: reader_inv_def nth_append split: reader.splits)
next
  fix d assume "wr s = W_idle"
    "t = s\<lparr>counter := counter s + 1, ticks := Suc (ticks s), wr := W_copy d 0\<rparr>"
  with assms(2) show ?thesis by (auto simp: reader_inv_def split: reader.splits)
next
  assume "rd s = R_start"
    "t = s\<lparr>rd := R_copy (counter s) 0, load_ticks := ticks s, load_frames := length (frames s)\<rparr>"
  with assms(1) show ?thesis by (simp add: reader_inv_def writer_inv_def)
qed (simp_all add: reader_inv_def)

interpretation seq: step_invariant seq_init seq_step "\<lambda>s. writer_inv s \<and> reader_inv s"
proof unfold_locales
  fix s assume "seq_init s"
  then show "writer_inv s \<and> reader_inv s"
    by (simp add: seq_init_def writer_inv_def reader_inv_def)
next
  fix s t assume "writer_inv s \<and> reader_inv s" "seq_step s t"
  then show "writer_inv t \<and> reader_inv t"
    by (blast intro: writer_inv_step reader_inv_step)
qed

subsection \<open>Parity and wrap-around of the counter\<close>

lemma counter_parity: "even (unat (of_nat n :: u32)) \<longleftrightarrow> even n"
  by (simp add: unat_of_nat dvd_mod_iff)

lemma same_counter_same_ticks:
  assumes "(of_nat a :: u32) = of_nat b" and "a \<le> b" and "b < a + 2 ^ 32"
  shows "a = b"
proof -
  have "a mod 2 ^ 32 = b mod 2 ^ 32"
    using arg_cong [OF assms(1), of unat] by (simp add: unat_of_nat)
  with assms(2) have "2 ^ 32 dvd b - a" using mod_eq_dvd_iff_nat [of a b "2 ^ 32"] by simp
  with assms(2,3) show ?thesis using nat_dvd_not_less [of "b - a" "2 ^ 32"] by linarith
qed

subsection \<open>Runs of one of the two threads alone\<close>

definition read_start :: "seq_sys \<Rightarrow> seq_sys" where
  "read_start s = s\<lparr>rd := R_copy (counter s) 0, load_ticks := ticks s,
     load_frames := length (frames s)\<rparr>"

definition read_word :: "u32 \<Rightarrow> nat \<Rightarrow> seq_sys \<Rightarrow> seq_sys" where
  "read_word c k s =
     s\<lparr>local_buf := set_ul (local_buf s) k (ul (shared_buf s) k), rd := R_copy c (Suc k)\<rparr>"

definition read_end :: "u32 \<Rightarrow> seq_sys \<Rightarrow> seq_sys" where
  "read_end c s = s\<lparr>rd := R_done c, done_ticks := ticks s\<rparr>"

definition write_start :: "PROCBUFFER \<Rightarrow> seq_sys \<Rightarrow> seq_sys" where
  "write_start d s = s\<lparr>counter := counter s + 1, ticks := Suc (ticks s), wr := W_copy d 0\<rparr>"

definition write_word :: "PROCBUFFER \<Rightarrow> nat \<Rightarrow> seq_sys \<Rightarrow> seq_sys" where
  "write_word d k s =
     s\<lparr>shared_buf := set_ul (shared_buf s) k (ul d k), wr := W_copy d (Suc k)\<rparr>"

definition write_end :: "PROCBUFFER \<Rightarrow> seq_sys \<Rightarrow> seq_sys" where
  "write_end d s =
     s\<lparr>counter := counter s + 1, ticks := Suc (ticks s), wr := W_idle, frames := frames s @ [d]\<rparr>"

lemmas solo_defs = read_start_def read_word_def read_end_def write_start_def write_word_def write_end_def

lemma solo_steps:
  "rd s = R_start \<Longrightarrow> seq_step s (read_start s)"
  "rd s = R_copy c k \<Longrightarrow> k < 4 \<Longrightarrow> seq_step s (read_word c k s)"
  "rd s = R_copy c 4 \<Longrightarrow> c = counter s \<Longrightarrow> seq_step s (read_end c s)"
  "wr s = W_idle \<Longrightarrow> seq_step s (write_start d s)"
  "wr s = W_copy d k \<Longrightarrow> k < 4 \<Longrightarrow> seq_step s (write_word d k s)"
  "wr s = W_copy d 4 \<Longrightarrow> seq_step s (write_end d s)"
  by (simp_all add: solo_defs seq_step.intros)

lemma solo_states [simp]:
  "rd (read_start s) = R_copy (counter s) 0"
  "rd (read_word c k s) = R_copy c (Suc k)"
  "rd (read_end c s) = R_done c"
  "rd (write_start d s) = rd s"
  "rd (write_word d k s) = rd s"
  "rd (write_end d s) = rd s"
  "wr (read_start s) = wr s"
  "wr (read_word c k s) = wr s"
  "wr (read_end c s) = wr s"
  "wr (write_start d s) = W_copy d 0"
  "wr (write_word d k s) = W_copy d (Suc k)"
  "wr (write_end d s) = W_idle"
  "counter (read_start s) = counter s"
  "counter (read_word c k s) = counter s"
  "counter (read_end c s) = counter s"
  "counter (write_start d s) = counter s + 1"
  "counter (write_word d k s) = counter s"
  "counter (write_end d s) = counter s + 1"
  "shared_buf (read_start s) = shared_buf s"
  "shared_buf (read_word c k s) = shared_buf s"
  "shared_buf (read_end c s) = shared_buf s"
  "shared_buf (write_start d s) = shared_buf s"
  "shared_buf (write_word d k s) = set_ul (shared_buf s) k (ul d k)"
  "shared_buf (write_end d s) = shared_buf s"
  "local_buf (read_start s) = local_buf s"
  "local_buf (read_word c k s) = set_ul (local_buf s) k (ul (shared_buf s) k)"
  "local_buf (read_end c s) = local_buf s"
  "frames (read_start s) = frames s"
  "frames (read_word c k s) = frames s"
  "frames (read_end c s) = frames s"
  "frames (write_start d s) = frames s"
  "frames (write_word d k s) = frames s"
  "frames (write_end d s) = frames s @ [d]"
  by (simp_all add: solo_defs)

text \<open>A call of \<open>receive_input\<close> during which the other thread does not run, and a publication of
  the frame \<open>d\<close> during which the reader does not run.\<close>

definition solo_read :: "seq_sys \<Rightarrow> seq_sys list" where
  "solo_read s =
     (let c = counter s; s0 = read_start s; s1 = read_word c 0 s0; s2 = read_word c 1 s1;
          s3 = read_word c 2 s2; s4 = read_word c 3 s3
      in [s0, s1, s2, s3, s4, read_end c s4])"

definition solo_write :: "PROCBUFFER \<Rightarrow> seq_sys \<Rightarrow> seq_sys list" where
  "solo_write d s =
     (let s0 = write_start d s; s1 = write_word d 0 s0; s2 = write_word d 1 s1;
          s3 = write_word d 2 s2; s4 = write_word d 3 s3
      in [s0, s1, s2, s3, s4, write_end d s4])"

lemma copy_four:
  "set_ul (set_ul (set_ul (set_ul b 0 (ul d 0)) (Suc 0) (ul d (Suc 0))) 2 (ul d 2)) 3 (ul d 3) =
     (d :: PROCBUFFER)"
proof -
  have "words_agree 1 (set_ul b 0 (ul d 0)) d" using words_agree_copy [of 0 b d] by simp
  then have "words_agree 2 (set_ul (set_ul b 0 (ul d 0)) 1 (ul d 1)) d"
    using words_agree_copy [of 1 _ d] by (simp add: numeral_2_eq_2)
  then have "words_agree 3 (set_ul (set_ul (set_ul b 0 (ul d 0)) 1 (ul d 1)) 2 (ul d 2)) d"
    using words_agree_copy [of 2 _ d] by (simp add: numeral_3_eq_3)
  then show ?thesis using words_agree_copy [of 3 _ d] by (intro words_agree_4) simp
qed

lemma solo_read_run: "rd s = R_start \<Longrightarrow> run_from seq_step s (solo_read s)"
  by (simp add: solo_read_def Let_def solo_steps)

lemma solo_write_run: "wr s = W_idle \<Longrightarrow> run_from seq_step s (solo_write d s)"
  by (simp add: solo_write_def Let_def solo_steps)

lemma solo_read_last:
  "rd (last (solo_read s)) = R_done (counter s)"
  "local_buf (last (solo_read s)) = shared_buf s"
  "counter (last (solo_read s)) = counter s" "wr (last (solo_read s)) = wr s"
  "shared_buf (last (solo_read s)) = shared_buf s" "frames (last (solo_read s)) = frames s"
  by (simp_all add: solo_read_def Let_def copy_four)

lemma solo_write_last:
  "wr (last (solo_write d s)) = W_idle" "rd (last (solo_write d s)) = rd s"
  "shared_buf (last (solo_write d s)) = d" "counter (last (solo_write d s)) = counter s + 2"
  "frames (last (solo_write d s)) = frames s @ [d]"
  by (simp_all add: solo_write_def Let_def copy_four)

subsection \<open>A run with a torn read\<close>

definition seq_start :: seq_sys where
  "seq_start = \<lparr>counter = 0, shared_buf = 0, wr = W_idle, rd = R_start, local_buf = 0, frames = [0],
     ticks = 0, load_ticks = 0, done_ticks = 0, load_frames = 0\<rparr>"

lemma seq_init_start: "seq_init seq_start"
  by (simp add: seq_init_def seq_start_def)

lemma seq_reach_start: "reach seq_init seq_step seq_start"
  by (rule reach_init [of seq_init, OF seq_init_start])

text \<open>The writer has begun a frame of ones and copied one of its words.\<close>

definition half_written :: seq_sys where
  "half_written = write_word (pack [1, 1, 1, 1]) 0 (write_start (pack [1, 1, 1, 1]) seq_start)"

lemma half_written_facts:
  "reach seq_init seq_step half_written" "rd half_written = R_start" "counter half_written = 1"
  "wr half_written = W_copy (pack [1, 1, 1, 1]) 1" "frames half_written = [0]"
  "shared_buf half_written = set_ul 0 0 1"
proof -
  have "run_from seq_step seq_start [write_start (pack [1, 1, 1, 1]) seq_start, half_written]"
    unfolding half_written_def by (simp add: solo_steps seq_start_def)
  from reach_run_from [OF seq_reach_start this] show "reach seq_init seq_step half_written" by simp
  show "shared_buf half_written = set_ul 0 0 1"
    unfolding half_written_def solo_states ul_pack [of "[1, 1, 1, 1]" 0, simplified]
    by (simp add: seq_start_def)
qed (simp_all add: half_written_def seq_start_def)

lemma half_written_words:
  "ul (set_ul 0 0 1 :: PROCBUFFER) 0 = 1" "ul (set_ul 0 0 1 :: PROCBUFFER) 1 = 0"
proof -
  show "ul (set_ul 0 0 1 :: PROCBUFFER) 0 = 1" by (rule buf_uls.get_put_same) simp
  have "ul (set_ul 0 0 1 :: PROCBUFFER) 1 = ul (0 :: PROCBUFFER) 1"
    by (rule buf_uls.get_put_other) simp_all
  then show "ul (set_ul 0 0 1 :: PROCBUFFER) 1 = 0" by (simp add: slice_get_def)
qed

subsection \<open>Properties\<close>

text \<open>C12: A read that ends with an even counter is clean: in every interleaving of the two
  threads, provided fewer than \<open>2^32\<close> increments fall into one attempt, the buffer that
  \<open>receive_input\<close> has copied is the newest complete frame at the time it loaded the counter.\<close>

theorem receive_input_even_is_clean:
  assumes "reach seq_init seq_step s" and "rd s = R_done c" and "even (unat c)"
    and "done_ticks s < load_ticks s + 2 ^ 32"
  shows "0 < load_frames s \<and> load_frames s \<le> length (frames s) \<and>
         local_buf s = frames s ! (load_frames s - 1)"
proof -
  from seq.reach_Inv [OF assms(1)] have "reader_inv s" by blast
  then have c: "c = of_nat (load_ticks s)"
    "c = of_nat (done_ticks s)" "load_ticks s \<le> done_ticks s"
    and clean: "even (load_ticks s) \<and> done_ticks s = load_ticks s \<longrightarrow>
             load_frames s \<le> length (frames s) \<and> 0 < load_frames s \<and>
             local_buf s = frames s ! (load_frames s - 1)"
    unfolding reader_inv_def assms(2) reader.case by blast+
  have "load_ticks s = done_ticks s" using same_counter_same_ticks c assms(4) by metis
  moreover have "even (load_ticks s)" using assms(3) c(1) counter_parity by metis
  ultimately show ?thesis using clean by simp
qed

theorem receive_input_even_is_clean_witness:
  "\<exists>s. reach seq_init seq_step s \<and> rd s = R_done 2 \<and> even (unat (2 :: u32)) \<and>
       done_ticks s < load_ticks s + 2 ^ 32 \<and> frames s = [0, pack [1, 2, 3, 4]] \<and>
       0 < load_frames s \<and> load_frames s \<le> length (frames s) \<and>
       local_buf s = frames s ! (load_frames s - 1)"
proof -
  let ?t = "last (solo_write (pack [1, 2, 3, 4]) seq_start)"
  let ?s = "last (solo_read ?t)"
  have "reach seq_init seq_step ?t"
    using reach_run_from [OF seq_reach_start solo_write_run, of "pack [1, 2, 3, 4]"]
    by (simp add: seq_start_def solo_write_def Let_def)
  moreover have rd: "rd ?t = R_start" by (simp add: solo_write_last seq_start_def)
  ultimately have r: "reach seq_init seq_step ?s"
    using reach_run_from [OF _ solo_read_run] by (simp add: solo_read_def Let_def)
  have c: "rd ?s = R_done 2"
    by (simp add: solo_read_last solo_write_last seq_start_def)
  have b: "done_ticks ?s < load_ticks ?s + 2 ^ 32"
    by (simp add: solo_read_def Let_def solo_defs)
  have f: "frames ?s = [0, pack [1, 2, 3, 4]]"
    by (simp add: solo_read_last solo_write_last seq_start_def)
  have e: "even (unat (2 :: u32))" by simp
  show ?thesis using r c b f e receive_input_even_is_clean [OF r c e b] by blast
qed

text \<open>C36: \<open>receive_input\<close> only compares the counter with itself and never asks whether it is even:
  there is an execution in which a call that starts while the real-time thread is inside its
  protected part returns, with an unchanged odd counter, a buffer that is neither the old frame
  nor the one being written.\<close>

theorem receive_input_torn_read:
  "\<exists>s d. reach seq_init seq_step s \<and> rd s = R_done 1 \<and> done_ticks s = load_ticks s \<and>
         wr s = W_copy d 1 \<and> local_buf s \<notin> set (frames s) \<and> local_buf s \<noteq> d"
proof -
  let ?s = "last (solo_read half_written)"
  have "reach seq_init seq_step ?s"
    using reach_run_from [OF half_written_facts(1) solo_read_run [OF half_written_facts(2)]]
    by (simp add: solo_read_def Let_def)
  moreover have "done_ticks ?s = load_ticks ?s" by (simp add: solo_read_def Let_def solo_defs)
  moreover have "local_buf ?s = set_ul 0 0 1"
    by (simp only: solo_read_last half_written_facts)
  then have "local_buf ?s \<noteq> 0" "local_buf ?s \<noteq> pack [1, 1, 1, 1]"
    using half_written_words ul_pack [of "[1, 1, 1, 1]" 1] by (auto simp: slice_get_def)
  ultimately show ?thesis
    by (intro exI [of _ ?s] exI [of _ "pack [1, 1, 1, 1]"])
       (simp add: solo_read_last half_written_facts)
qed

text \<open>A call of \<open>receive_input\<close> that is not interrupted by the other thread returns after its
  first round: the model of the undisturbed call is a run of six reader steps, which ends with the
  buffer that the call gives and leaves the shared data as it was.\<close>

lemma receive_input_undisturbed:
  assumes "rd s = R_start" and "counter s = m_atomiccounter ob"
    and "shared_buf s = m_BufferOutEthToSlaveBuffer ob"
  shows "\<exists>b ts. receive_input ob = Some b \<and> run_from seq_step s ts \<and> length ts = 6 \<and>
         rd (last ts) = R_done (m_atomiccounter ob) \<and> local_buf (last ts) = b \<and>
         counter (last ts) = counter s \<and> wr (last ts) = wr s \<and> shared_buf (last ts) = shared_buf s"
proof -
  have "length (solo_read s) = 6" by (simp add: solo_read_def Let_def)
  with solo_read_run [OF assms(1)] assms(2,3) show ?thesis
    by (intro exI [of _ "m_BufferOutEthToSlaveBuffer ob"] exI [of _ "solo_read s"])
       (simp add: solo_read_last receive_input_eq)
qed

text \<open>The transfer that \<open>SPIReadProcRamFifo\<close> performs is a publication of the step system:
  from any state of it that agrees with the object on the counter and on the shared buffer, a run
  of writer steps leads to one that agrees with the object after the call, with the received
  bytes as the newest frame.\<close>

lemma SPIReadProcRamFifo_publishes:
  assumes "SPIReadProcRamFifo E ob m = Some (ob', m')" and "wr s = W_idle"
    and "counter s = m_atomiccounter ob" and "shared_buf s = m_BufferOutEthToSlaveBuffer ob"
  shows "\<exists>ts. run_from seq_step s ts \<and> wr (last ts) = W_idle \<and> rd (last ts) = rd s \<and>
              counter (last ts) = m_atomiccounter ob' \<and>
              shared_buf (last ts) = m_BufferOutEthToSlaveBuffer ob' \<and>
              frames (last ts) = frames s @ [BufferOut ob']"
proof -
  obtain b where "ob' = ob\<lparr>m_atomiccounter := m_atomiccounter ob + 2, BufferOut := b,
              m_BufferOutEthToSlaveBuffer := b\<rparr>"
    using SPIReadProcRamFifo_emits [OF assms(1)] by blast
  with assms(3) solo_write_run [OF assms(2), of b] show ?thesis
    by (intro exI [of _ "solo_write b s"]) (simp add: solo_write_last)
qed

end
