(* ===== verification/Out_Ring.thy ===== *)
theory Out_Ring
  imports Process_Data
begin

section \<open>The output ring between the two threads\<close>

text \<open>
  \<open>send_output\<close> (main thread) fills the slot \<open>m_curqidx\<close>, then makes it the newest one by setting
  \<open>m_curqoutidx\<close>, then advances; \<open>SPIWriteProcRamFifo\<close> (real-time thread) copies the slot
  \<open>m_curqoutidx\<close> to \<open>BufferIn\<close> (\<open>rpi_base/src/rpi_base.cpp\<close>). Here the two run interleaved, one
  64-bit word at a time and sequentially consistent; no lock and no counter protects the slots.
  \<open>m_curqidx\<close> is used by the main thread only, so its increment and wrap-around are one step.
  The fields \<open>msgs\<close> (the message in the newest slot at the beginning and all published ones,
  oldest first), \<open>begun\<close> (the number of messages begun), \<open>base\<close> (the slot of the first one), \<open>skew\<close>
  (1 when the indices were not one apart at the beginning, as the constructor leaves them, else 0),
  \<open>load_msgs\<close> and \<open>done_begun\<close> (how many were published when the copy began and begun when it
  ended) are history and are not read by any step.
\<close>

subsection \<open>The two programs\<close>

datatype producer = P_idle | P_copy "u64 list" nat | P_advance

datatype consumer = C_idle | C_copy u32 nat | C_done

record ring_sys =
  slots :: "PROCBUFFER list"
  curqidx :: u32
  curqoutidx :: u32
  producer :: producer
  consumer :: consumer
  copied :: PROCBUFFER
  msgs :: "PROCBUFFER list"
  begun :: nat
  base :: nat
  skew :: nat
  load_msgs :: nat
  done_begun :: nat

inductive ring_step :: "ring_sys \<Rightarrow> ring_sys \<Rightarrow> bool" where
  p_begin: "producer s = P_idle \<Longrightarrow> length xs = 4 \<Longrightarrow>
    ring_step s (s\<lparr>producer := P_copy xs 0, begun := Suc (begun s)\<rparr>)"
| p_copy: "producer s = P_copy xs k \<Longrightarrow> k < 4 \<Longrightarrow> set_slot_ul (slots s) (curqidx s) k (xs ! k) = Some q \<Longrightarrow>
    ring_step s (s\<lparr>slots := q, producer := P_copy xs (Suc k)\<rparr>)"
| p_publish: "producer s = P_copy xs 4 \<Longrightarrow>
    ring_step s (s\<lparr>curqoutidx := curqidx s, producer := P_advance, msgs := msgs s @ [pack xs]\<rparr>)"
| p_advance: "producer s = P_advance \<Longrightarrow>
    ring_step s (s\<lparr>curqidx := (if of_nat QINSize \<le> curqidx s + 1 then 0 else curqidx s + 1),
      producer := P_idle\<rparr>)"
| c_load: "consumer s = C_idle \<or> consumer s = C_done \<Longrightarrow>
    ring_step s (s\<lparr>consumer := C_copy (curqoutidx s) 0, load_msgs := length (msgs s)\<rparr>)"
| c_copy: "consumer s = C_copy i k \<Longrightarrow> k < 4 \<Longrightarrow> slot (slots s) i = Some b \<Longrightarrow>
    ring_step s (s\<lparr>copied := set_ul (copied s) k (ul b k), consumer := C_copy i (Suc k)\<rparr>)"
| c_done: "consumer s = C_copy i 4 \<Longrightarrow>
    ring_step s (s\<lparr>consumer := C_done, done_begun := begun s\<rparr>)"

inductive_cases ring_stepE: "ring_step s t"

text \<open>The beginning: any state of the ring between two calls. The message before the one to be filled
  next is taken for the newest; after the first call it is, and \<open>m_curqoutidx\<close> is its slot.\<close>

definition ring_start :: "ring_sys \<Rightarrow> bool" where
  "ring_start s \<longleftrightarrow> length (slots s) = QINSize \<and> unat (curqidx s) < QINSize \<and>
     unat (curqoutidx s) < QINSize \<and> producer s = P_idle \<and> consumer s = C_idle \<and>
     base s = (unat (curqidx s) + 9) mod QINSize \<and> msgs s = [slots s ! base s] \<and> begun s = 1 \<and>
     skew s = (if unat (curqoutidx s) = base s then 0 else 1)"

subsection \<open>The invariant\<close>

text \<open>Message \<open>j\<close> is in the slot \<open>base + j\<close> until the message that comes ten later is begun.\<close>

definition slot_of :: "ring_sys \<Rightarrow> nat \<Rightarrow> nat" where
  "slot_of s j = (base s + j) mod QINSize"

definition slots_hold :: "ring_sys \<Rightarrow> bool" where
  "slots_hold s \<longleftrightarrow>
     (\<forall>j < length (msgs s). begun s \<le> j + QINSize \<longrightarrow> slots s ! slot_of s j = msgs s ! j)"

definition producer_inv :: "ring_sys \<Rightarrow> bool" where
  "producer_inv s \<longleftrightarrow> length (slots s) = QINSize \<and> msgs s \<noteq> [] \<and>
     unat (curqoutidx s) < QINSize \<and>
     (skew s < length (msgs s) \<longrightarrow> unat (curqoutidx s) = slot_of s (length (msgs s) - 1)) \<and>
     slots_hold s \<and> skew s \<le> 1 \<and>
     (case producer s of
        P_idle \<Rightarrow> begun s = length (msgs s) \<and> unat (curqidx s) = slot_of s (length (msgs s))
      | P_copy xs k \<Rightarrow> begun s = length (msgs s) + 1 \<and> k \<le> 4 \<and> length xs = 4 \<and>
          unat (curqidx s) = slot_of s (length (msgs s)) \<and>
          (\<forall>i < k. ul (slots s ! unat (curqidx s)) i = xs ! i)
      | P_advance \<Rightarrow> begun s = length (msgs s) \<and> unat (curqidx s) = slot_of s (length (msgs s) - 1))"

definition consumer_inv :: "ring_sys \<Rightarrow> bool" where
  "consumer_inv s \<longleftrightarrow>
     (case consumer s of
        C_idle \<Rightarrow> True
      | C_copy i k \<Rightarrow> 0 < load_msgs s \<and> load_msgs s \<le> length (msgs s) \<and> k \<le> 4 \<and>
          unat i < QINSize \<and>
          (skew s < load_msgs s \<longrightarrow> unat i = slot_of s (load_msgs s - 1)) \<and>
          (skew s < load_msgs s \<and> begun s < load_msgs s + QINSize \<longrightarrow>
             (\<forall>w < k. ul (copied s) w = ul (msgs s ! (load_msgs s - 1)) w))
      | C_done \<Rightarrow> 0 < load_msgs s \<and> load_msgs s \<le> length (msgs s) \<and>
          (skew s < load_msgs s \<and> done_begun s < load_msgs s + QINSize \<longrightarrow>
             copied s = msgs s ! (load_msgs s - 1)))"

lemma slot_of_less [simp]: "slot_of s j < 10"
  by (simp add: slot_of_def)

lemma slot_of_update [simp]:
  "slot_of (s\<lparr>slots := q\<rparr>) = slot_of s" "slot_of (s\<lparr>curqidx := i\<rparr>) = slot_of s"
  "slot_of (s\<lparr>curqoutidx := i\<rparr>) = slot_of s" "slot_of (s\<lparr>producer := p\<rparr>) = slot_of s"
  "slot_of (s\<lparr>consumer := c\<rparr>) = slot_of s" "slot_of (s\<lparr>copied := b\<rparr>) = slot_of s"
  "slot_of (s\<lparr>msgs := m\<rparr>) = slot_of s" "slot_of (s\<lparr>begun := n\<rparr>) = slot_of s"
  "slot_of (s\<lparr>load_msgs := n\<rparr>) = slot_of s" "slot_of (s\<lparr>done_begun := n\<rparr>) = slot_of s"
  by (simp_all add: slot_of_def fun_eq_iff)

lemma slot_of_inject:
  assumes "j < n" and "n < j + 10"
  shows "slot_of s j \<noteq> slot_of s n"
proof
  assume "slot_of s j = slot_of s n"
  then have "10 dvd (base s + n) - (base s + j)"
    using assms(1) mod_eq_dvd_iff_nat [of "base s + j" "base s + n" 10] by (simp add: slot_of_def)
  with assms show False using nat_dvd_not_less [of "n - j" 10] by simp
qed

lemma slot_of_Suc: "slot_of s (Suc j) = (slot_of s j + 1) mod 10"
  by (simp add: slot_of_def mod_simps)

lemma slots_hold_more: "slots_hold s \<Longrightarrow> begun s \<le> n \<Longrightarrow> slots_hold (s\<lparr>begun := n\<rparr>)"
  by (simp add: slots_hold_def)

lemma slots_hold_update [simp]:
  "slots_hold (s\<lparr>curqidx := i\<rparr>) = slots_hold s" "slots_hold (s\<lparr>curqoutidx := i\<rparr>) = slots_hold s"
  "slots_hold (s\<lparr>producer := p\<rparr>) = slots_hold s" "slots_hold (s\<lparr>consumer := c\<rparr>) = slots_hold s"
  "slots_hold (s\<lparr>copied := b\<rparr>) = slots_hold s" "slots_hold (s\<lparr>load_msgs := n\<rparr>) = slots_hold s"
  "slots_hold (s\<lparr>done_begun := n\<rparr>) = slots_hold s"
  by (simp_all add: slots_hold_def)

text \<open>The copy of a word into the slot in work leaves the older slots alone.\<close>

lemma slots_hold_copy:
  assumes "slots_hold s" and "begun s = length (msgs s) + 1" and "c = slot_of s (length (msgs s))"
  shows "slots_hold (s\<lparr>slots := (slots s)[c := b]\<rparr>)"
  unfolding slots_hold_def
proof (clarsimp)
  fix j assume j: "j < length (msgs s)" "begun s \<le> j + 10"
  then have "slot_of s j \<noteq> c" using assms(2,3) slot_of_inject [of j "length (msgs s)" s] by simp
  then have "(slots s)[c := b] ! slot_of s j = slots s ! slot_of s j" by simp
  also have "\<dots> = msgs s ! j" using assms(1) j by (simp add: slots_hold_def)
  finally show "(slots s)[c := b] ! slot_of s j = msgs s ! j" .
qed

lemma pack_words:
  assumes "length xs = 4" and "\<And>i. i < 4 \<Longrightarrow> ul b i = xs ! i"
  shows "b = pack xs"
  using assms by (intro buf_uls.view_ext) (simp add: ul_pack)

lemma slots_hold_publish:
  assumes "slots_hold s" and "slots s ! slot_of s (length (msgs s)) = b"
  shows "slots_hold (s\<lparr>msgs := msgs s @ [b]\<rparr>)"
  using assms by (auto simp: slots_hold_def nth_append less_Suc_eq)

text \<open>The producer writes a word of the message, and makes the message public.\<close>

lemma producer_inv_copy:
  assumes "producer_inv s" and p: "producer s = P_copy xs k" "k < 4"
    and q: "set_slot_ul (slots s) (curqidx s) k (xs ! k) = Some q"
    and t: "t = s\<lparr>slots := q, producer := P_copy xs (Suc k)\<rparr>"
  shows "producer_inv t"
proof -
  let ?c = "unat (curqidx s)"
  have inv: "begun s = length (msgs s) + 1" "?c = slot_of s (length (msgs s))" "slots_hold s"
    "length (slots s) = 10" "length xs = 4" "\<forall>i < k. ul (slots s ! ?c) i = xs ! i"
    using assms(1) p(1) by (auto simp: producer_inv_def)
  from q have q': "q = (slots s)[?c := set_ul (slots s ! ?c) k (xs ! k)]"
    by (simp add: set_slot_ul_def split: if_splits)
  have "slots_hold (s\<lparr>slots := q\<rparr>)" unfolding q' using inv by (intro slots_hold_copy)
  then have "slots_hold t" by (simp only: t slots_hold_update)
  moreover have "?c < length (slots s)" using inv(2,4) by simp
  then have "ul (q ! ?c) i = xs ! i" if "i < Suc k" for i
    using that inv(6) p(2) by (cases "i = k") (simp_all add: q' buf_uls.get_put_same buf_uls.get_put_other less_Suc_eq)
  ultimately show ?thesis
    using assms(1) p inv by (simp add: producer_inv_def t q')
qed

lemma producer_inv_publish:
  assumes "producer_inv s" and p: "producer s = P_copy xs 4"
    and t: "t = s\<lparr>curqoutidx := curqidx s, producer := P_advance, msgs := msgs s @ [pack xs]\<rparr>"
  shows "producer_inv t"
proof -
  have inv: "begun s = length (msgs s) + 1" "unat (curqidx s) = slot_of s (length (msgs s))" "slots_hold s"
    "length xs = 4" "\<forall>i < 4. ul (slots s ! unat (curqidx s)) i = xs ! i"
    using assms(1) p(1) by (auto simp: producer_inv_def)
  then have "slots s ! slot_of s (length (msgs s)) = pack xs" by (intro pack_words) simp_all
  then have "slots_hold (s\<lparr>msgs := msgs s @ [pack xs]\<rparr>)" using inv(3) by (intro slots_hold_publish)
  moreover have "t = s\<lparr>msgs := msgs s @ [pack xs], curqoutidx := curqidx s, producer := P_advance\<rparr>"
    by (simp add: t)
  ultimately have "slots_hold t" by (simp only: slots_hold_update)
  with assms(1) inv(1,2) show ?thesis by (simp add: producer_inv_def t)
qed

lemma producer_inv_step:
  assumes "producer_inv s" and "ring_step s t"
  shows "producer_inv t"
  using assms(2)
proof (rule ring_stepE)
  fix xs assume p: "producer s = P_idle" "length xs = (4 :: nat)"
    and t: "t = s\<lparr>producer := P_copy xs 0, begun := Suc (begun s)\<rparr>"
  have "slots_hold (s\<lparr>begun := Suc (begun s)\<rparr>)"
    using assms(1) by (intro slots_hold_more) (simp_all add: producer_inv_def)
  moreover have "s\<lparr>producer := P_copy xs 0, begun := Suc (begun s)\<rparr> =
      s\<lparr>begun := Suc (begun s), producer := P_copy xs 0\<rparr>" by simp
  ultimately have "slots_hold t" unfolding t by (simp only: slots_hold_update)
  with assms(1) p show ?thesis by (simp add: producer_inv_def t)
next
  assume p: "producer s = P_advance"
    and t: "t = s\<lparr>curqidx := if 10 \<le> curqidx s + 1 then 0 else curqidx s + 1, producer := P_idle\<rparr>"
  have c: "unat (curqidx s) = slot_of s (length (msgs s) - 1)" "msgs s \<noteq> []"
    using assms(1) p by (simp_all add: producer_inv_def)
  then have "unat (curqidx s) < QINSize" by simp
  from next_index [OF this] c have "unat (curqidx t) = slot_of s (length (msgs s))"
    using slot_of_Suc [of s "length (msgs s) - 1"] by (simp add: t)
  with assms(1) p show ?thesis by (simp add: producer_inv_def t)
next
  fix xs k q assume "producer s = P_copy xs k" "k < 4"
    "set_slot_ul (slots s) (curqidx s) k (xs ! k) = Some q" "t = s\<lparr>slots := q, producer := P_copy xs (Suc k)\<rparr>"
  with assms(1) show ?thesis by (rule producer_inv_copy)
next
  fix xs assume "producer s = P_copy xs 4"
    "t = s\<lparr>curqoutidx := curqidx s, producer := P_advance, msgs := msgs s @ [pack xs]\<rparr>"
  with assms(1) show ?thesis by (rule producer_inv_publish)
qed (use assms(1) in \<open>auto simp: producer_inv_def split: producer.splits\<close>)

lemma consumer_inv_step:
  assumes "producer_inv s" and "consumer_inv s" and "ring_step s t"
  shows "consumer_inv t"
  using assms(3)
proof (rule ring_stepE)
  fix xs assume "t = s\<lparr>producer := P_copy xs 0, begun := Suc (begun s)\<rparr>"
  with assms(2) show ?thesis by (simp add: consumer_inv_def split: consumer.splits)
next
  fix xs assume "t = s\<lparr>curqoutidx := curqidx s, producer := P_advance, msgs := msgs s @ [pack xs]\<rparr>"
  with assms(2) show ?thesis by (auto simp: consumer_inv_def nth_append split: consumer.splits)
next
  assume "t = s\<lparr>consumer := C_copy (curqoutidx s) 0, load_msgs := length (msgs s)\<rparr>"
  with assms(1) show ?thesis by (simp add: consumer_inv_def producer_inv_def)
next
  fix i k b assume c: "consumer s = C_copy i k" "k < 4" "slot (slots s) i = Some b"
    and t: "t = s\<lparr>copied := set_ul (copied s) k (ul b k), consumer := C_copy i (Suc k)\<rparr>"
  have l: "0 < load_msgs s" "load_msgs s \<le> length (msgs s)"
    "skew s < load_msgs s \<longrightarrow> unat i = slot_of s (load_msgs s - 1)"
    using assms(2) c(1) by (simp_all add: consumer_inv_def)
  have "b = msgs s ! (load_msgs s - 1)" if "skew s < load_msgs s" "begun s < load_msgs s + 10"
  proof -
    from c(3) have "b = slots s ! slot_of s (load_msgs s - 1)"
      using l(3) that(1) by (simp add: slot_def split: if_splits)
    also have "\<dots> = msgs s ! (load_msgs s - 1)"
      using assms(1) l(1,2) that by (simp add: producer_inv_def slots_hold_def)
    finally show ?thesis .
  qed
  then have "ul (set_ul (copied s) k (ul b k)) w = ul (msgs s ! (load_msgs s - 1)) w"
    if "skew s < load_msgs s" "begun s < load_msgs s + 10" "w < Suc k" for w
    using that assms(2) c(1,2)
    by (cases "w = k") (simp_all add: consumer_inv_def buf_uls.get_put_same buf_uls.get_put_other)
  with assms(2) c(1,2) show ?thesis by (simp add: consumer_inv_def t)
next
  fix i assume c: "consumer s = C_copy i 4" and t: "t = s\<lparr>consumer := C_done, done_begun := begun s\<rparr>"
  have "copied s = msgs s ! (load_msgs s - 1)" if "skew s < load_msgs s" "begun s < load_msgs s + 10"
    using assms(2) c that by (intro buf_uls.view_ext) (simp add: consumer_inv_def)
  with assms(2) c show ?thesis by (simp add: consumer_inv_def t)
qed (use assms(2) in \<open>simp_all add: consumer_inv_def split: consumer.splits\<close>)

interpretation ring: step_invariant ring_start ring_step "\<lambda>s. producer_inv s \<and> consumer_inv s"
proof unfold_locales
  fix s assume "ring_start s"
  then show "producer_inv s \<and> consumer_inv s"
    by (auto simp: ring_start_def producer_inv_def consumer_inv_def slots_hold_def slot_of_def mod_simps)
next
  fix s t assume "producer_inv s \<and> consumer_inv s" "ring_step s t"
  then show "producer_inv t \<and> consumer_inv t"
    by (blast intro: producer_inv_step consumer_inv_step)
qed

subsection \<open>Runs of one of the two threads alone\<close>

definition put_begin :: "u64 list \<Rightarrow> ring_sys \<Rightarrow> ring_sys" where
  "put_begin xs s = s\<lparr>producer := P_copy xs 0, begun := Suc (begun s)\<rparr>"

definition put_word :: "u64 list \<Rightarrow> nat \<Rightarrow> ring_sys \<Rightarrow> ring_sys" where
  "put_word xs k s = s\<lparr>slots := (slots s)[unat (curqidx s) := set_ul (slots s ! unat (curqidx s)) k (xs ! k)],
     producer := P_copy xs (Suc k)\<rparr>"

definition put_publish :: "u64 list \<Rightarrow> ring_sys \<Rightarrow> ring_sys" where
  "put_publish xs s = s\<lparr>curqoutidx := curqidx s, producer := P_advance, msgs := msgs s @ [pack xs]\<rparr>"

definition put_advance :: "ring_sys \<Rightarrow> ring_sys" where
  "put_advance s = s\<lparr>curqidx := (if of_nat QINSize \<le> curqidx s + 1 then 0 else curqidx s + 1),
     producer := P_idle\<rparr>"

definition take_begin :: "ring_sys \<Rightarrow> ring_sys" where
  "take_begin s = s\<lparr>consumer := C_copy (curqoutidx s) 0, load_msgs := length (msgs s)\<rparr>"

definition take_word :: "u32 \<Rightarrow> nat \<Rightarrow> ring_sys \<Rightarrow> ring_sys" where
  "take_word i k s = s\<lparr>copied := set_ul (copied s) k (ul (slots s ! unat i) k), consumer := C_copy i (Suc k)\<rparr>"

definition take_end :: "ring_sys \<Rightarrow> ring_sys" where
  "take_end s = s\<lparr>consumer := C_done, done_begun := begun s\<rparr>"

lemmas ring_moves = put_begin_def put_word_def put_publish_def put_advance_def take_begin_def
  take_word_def take_end_def

lemma ring_move_steps:
  "producer s = P_idle \<Longrightarrow> length xs = 4 \<Longrightarrow> ring_step s (put_begin xs s)"
  "producer s = P_copy xs k \<Longrightarrow> k < 4 \<Longrightarrow> unat (curqidx s) < length (slots s) \<Longrightarrow> ring_step s (put_word xs k s)"
  "producer s = P_copy xs 4 \<Longrightarrow> ring_step s (put_publish xs s)"
  "producer s = P_advance \<Longrightarrow> ring_step s (put_advance s)"
  "consumer s = C_idle \<or> consumer s = C_done \<Longrightarrow> ring_step s (take_begin s)"
  "consumer s = C_copy i k \<Longrightarrow> k < 4 \<Longrightarrow> unat i < length (slots s) \<Longrightarrow> ring_step s (take_word i k s)"
  "consumer s = C_copy i 4 \<Longrightarrow> ring_step s (take_end s)"
  unfolding ring_moves
  by (rule ring_step.intros; simp add: set_slot_ul_def slot_def)+

lemma ring_move_states [simp]:
  "producer (put_begin xs s) = P_copy xs 0" "producer (put_word xs k s) = P_copy xs (Suc k)"
  "producer (put_publish xs s) = P_advance" "producer (put_advance s) = P_idle"
  "producer (take_begin s) = producer s" "producer (take_word i k s) = producer s"
  "producer (take_end s) = producer s"
  "consumer (put_begin xs s) = consumer s" "consumer (put_word xs k s) = consumer s"
  "consumer (put_publish xs s) = consumer s" "consumer (put_advance s) = consumer s"
  "consumer (take_begin s) = C_copy (curqoutidx s) 0" "consumer (take_word i k s) = C_copy i (Suc k)"
  "consumer (take_end s) = C_done"
  "curqidx (put_begin xs s) = curqidx s" "curqidx (put_word xs k s) = curqidx s"
  "curqidx (put_publish xs s) = curqidx s" "curqidx (take_begin s) = curqidx s"
  "curqidx (put_advance s) = (if 10 \<le> curqidx s + 1 then 0 else curqidx s + 1)"
  "curqidx (take_word i k s) = curqidx s" "curqidx (take_end s) = curqidx s"
  "curqoutidx (put_begin xs s) = curqoutidx s" "curqoutidx (put_word xs k s) = curqoutidx s"
  "curqoutidx (put_publish xs s) = curqidx s" "curqoutidx (put_advance s) = curqoutidx s"
  "curqoutidx (take_begin s) = curqoutidx s" "curqoutidx (take_word i k s) = curqoutidx s"
  "curqoutidx (take_end s) = curqoutidx s"
  "slots (put_begin xs s) = slots s" "slots (put_publish xs s) = slots s" "slots (put_advance s) = slots s"
  "slots (put_word xs k s) =
     (slots s)[unat (curqidx s) := set_ul (slots s ! unat (curqidx s)) k (xs ! k)]"
  "slots (take_begin s) = slots s" "slots (take_word i k s) = slots s" "slots (take_end s) = slots s"
  "copied (put_begin xs s) = copied s" "copied (put_word xs k s) = copied s"
  "copied (put_publish xs s) = copied s" "copied (put_advance s) = copied s"
  "copied (take_begin s) = copied s" "copied (take_end s) = copied s"
  "copied (take_word i k s) = set_ul (copied s) k (ul (slots s ! unat i) k)"
  "msgs (put_begin xs s) = msgs s" "msgs (put_word xs k s) = msgs s"
  "msgs (put_publish xs s) = msgs s @ [pack xs]" "msgs (put_advance s) = msgs s"
  "msgs (take_begin s) = msgs s" "msgs (take_word i k s) = msgs s" "msgs (take_end s) = msgs s"
  by (simp_all add: ring_moves)

text \<open>A call of \<open>send_output\<close> and a copy of \<open>SPIWriteProcRamFifo\<close> that are not disturbed.\<close>

definition solo_put :: "u64 list \<Rightarrow> ring_sys \<Rightarrow> ring_sys list" where
  "solo_put xs s =
     (let s0 = put_begin xs s; s1 = put_word xs 0 s0; s2 = put_word xs 1 s1; s3 = put_word xs 2 s2;
          s4 = put_word xs 3 s3; s5 = put_publish xs s4
      in [s0, s1, s2, s3, s4, s5, put_advance s5])"

definition solo_take :: "ring_sys \<Rightarrow> ring_sys list" where
  "solo_take s =
     (let i = curqoutidx s; s0 = take_begin s; s1 = take_word i 0 s0; s2 = take_word i 1 s1;
          s3 = take_word i 2 s2; s4 = take_word i 3 s3
      in [s0, s1, s2, s3, s4, take_end s4])"

lemma solo_put_run:
  assumes "producer s = P_idle" and "length xs = 4" and "unat (curqidx s) < length (slots s)"
  shows "run_from ring_step s (solo_put xs s)"
  using assms
  by (simp add: solo_put_def Let_def ring_move_steps)

lemma solo_take_run:
  assumes "consumer s = C_idle \<or> consumer s = C_done" and "unat (curqoutidx s) < length (slots s)"
  shows "run_from ring_step s (solo_take s)"
  using assms by (auto simp: solo_take_def Let_def intro!: ring_move_steps)

lemma put_four: "length xs = 4 \<Longrightarrow>
  set_ul (set_ul (set_ul (set_ul b 0 (xs ! 0)) (Suc 0) (xs ! Suc 0)) 2 (xs ! 2)) 3 (xs ! 3) = pack xs"
  by (rule pack_words) (auto simp: less_Suc_eq numeral_eq_Suc buf_uls.get_put_same buf_uls.get_put_other)

lemma solo_put_last:
  assumes "length xs = 4" and "unat (curqidx s) < length (slots s)"
  shows "slots (last (solo_put xs s)) = (slots s)[unat (curqidx s) := pack xs]"
    and "curqoutidx (last (solo_put xs s)) = curqidx s"
    and "curqidx (last (solo_put xs s)) = (if 10 \<le> curqidx s + 1 then 0 else curqidx s + 1)"
    and "producer (last (solo_put xs s)) = P_idle" "consumer (last (solo_put xs s)) = consumer s"
    and "msgs (last (solo_put xs s)) = msgs s @ [pack xs]"
  using assms by (simp_all add: solo_put_def Let_def put_four)

lemma solo_take_last:
  "copied (last (solo_take s)) = slots s ! unat (curqoutidx s)"
  "consumer (last (solo_take s)) = C_done" "producer (last (solo_take s)) = producer s"
  "slots (last (solo_take s)) = slots s"
proof -
  have "set_ul (set_ul (set_ul (set_ul b 0 (ul d 0)) (Suc 0) (ul d (Suc 0))) 2 (ul d 2)) 3 (ul d 3) = (d :: PROCBUFFER)"
    for b d
    by (rule buf_uls.view_ext) (auto simp: less_Suc_eq numeral_eq_Suc buf_uls.get_put_same buf_uls.get_put_other)
  then show "copied (last (solo_take s)) = slots s ! unat (curqoutidx s)"
    by (simp add: solo_take_def Let_def)
qed (simp_all add: solo_take_def Let_def)

text \<open>The copy that \<open>SPIWriteProcRamFifo\<close> makes is such a run.\<close>

lemma SPIWriteProcRamFifo_takes:
  assumes "SPIWriteProcRamFifo E ob m = Some (ob', m')" and "consumer s = C_idle \<or> consumer s = C_done"
    and "slots s = fromSlaveBufferIn ob" and "curqoutidx s = m_curqoutidx ob"
  shows "run_from ring_step s (solo_take s) \<and> copied (last (solo_take s)) = BufferIn ob'"
proof -
  from SPIWriteProcRamFifo_emits [OF assms(1)] obtain b where
    "cur_output ob = Some b" "ob' = ob\<lparr>BufferIn := b\<rparr>" by blast
  then show ?thesis
    using assms(3,4) solo_take_run [OF assms(2)]
    by (simp add: solo_take_last cur_output_def slot_def split: if_splits)
qed

subsection \<open>The state of the program at its start\<close>

text \<open>The constructor of \<open>rpi_base\<close> leaves both indices at 0, so the first message goes into the slot
  that the real-time thread sends from.\<close>

definition ring_fresh :: ring_sys where
  "ring_fresh = \<lparr>slots = fromSlaveBufferIn (static_object real_fpu),
     curqidx = m_curqidx (static_object real_fpu), curqoutidx = m_curqoutidx (static_object real_fpu),
     producer = P_idle, consumer = C_idle, copied = 0, msgs = [0], begun = 1, base = 9, skew = 1,
     load_msgs = 0, done_begun = 0\<rparr>"

lemma ring_fresh_simps [simp]:
  "slots ring_fresh = replicate 10 0" "curqidx ring_fresh = 0" "curqoutidx ring_fresh = 0"
  "producer ring_fresh = P_idle" "consumer ring_fresh = C_idle" "copied ring_fresh = 0" "msgs ring_fresh = [0]"
  by (simp_all add: ring_fresh_def static_object_def)

lemma ring_fresh_start: "ring_start ring_fresh"
  by (simp add: ring_start_def ring_fresh_def static_object_def)

text \<open>The thread has loaded the index when the first message of ones is begun, one word comes before
  its copy and the others after it.\<close>

definition first_message_run :: "ring_sys list" where
  "first_message_run =
     (let xs = [1, 1, 1, 1]; s0 = take_begin ring_fresh; s1 = put_begin xs s0; s2 = put_word xs 0 s1;
          s3 = take_word 0 0 s2; s4 = take_word 0 1 s3; s5 = take_word 0 2 s4; s6 = take_word 0 3 s5
      in [s0, s1, s2, s3, s4, s5, s6, take_end s6])"

lemma first_message_steps: "run_from ring_step ring_fresh first_message_run"
  by (simp add: first_message_run_def Let_def ring_move_steps)

lemma first_message_copied: "ul (copied (last first_message_run)) 0 = 1" "ul (copied (last first_message_run)) 3 = 0"
proof -
  have z: "ul (0 :: PROCBUFFER) i = 0" for i by (simp add: slice_get_def)
  show "ul (copied (last first_message_run)) 0 = 1" "ul (copied (last first_message_run)) 3 = 0"
    by (simp_all add: first_message_run_def Let_def buf_uls.get_put_same buf_uls.get_put_other z)
qed

subsection \<open>Properties\<close>

text \<open>C13: In every interleaving of the two threads, from the state that the constructor leaves too, the
  buffer that \<open>SPIWriteProcRamFifo\<close> copies is a complete message, namely the newest one at the time
  it loaded the index, provided that a first message was published then (or the indices were one
  apart at the beginning) and that fewer than ten messages are begun until its copy ends.\<close>

theorem ring_copy_is_message:
  assumes "reach ring_start ring_step s" and "consumer s = C_done" and "skew s < load_msgs s"
    and "done_begun s < load_msgs s + QINSize"
  shows "0 < load_msgs s \<and> load_msgs s \<le> length (msgs s) \<and> copied s = msgs s ! (load_msgs s - 1)"
  using ring.reach_Inv [OF assms(1)] assms(2,3,4) by (simp add: consumer_inv_def)

theorem ring_copy_is_message_witness:
  "\<exists>s. reach ring_start ring_step s \<and> consumer s = C_done \<and> skew s < load_msgs s \<and>
     done_begun s < load_msgs s + QINSize \<and>
     msgs s = [0, pack [5, 7, 1, 2]] \<and> copied s = msgs s ! (load_msgs s - 1)"
proof -
  let ?s1 = "last (solo_put [5, 7, 1, 2] ring_fresh)"
  let ?s2 = "last (solo_take ?s1)"
  have fresh: "begun ring_fresh = 1" "skew ring_fresh = 1" by (simp_all add: ring_fresh_def)
  have "reach ring_start ring_step ring_fresh" using ring_fresh_start by (rule reach_init)
  then have r1: "reach ring_start ring_step ?s1"
    using reach_run_from [OF _ solo_put_run, of ring_start ring_fresh "[5, 7, 1, 2]"]
    by (simp add: solo_put_def Let_def)
  have s1: "consumer ?s1 = C_idle" "curqoutidx ?s1 = 0" "slots ?s1 = (replicate 10 0)[0 := pack [5, 7, 1, 2]]"
    "msgs ?s1 = [0, pack [5, 7, 1, 2]]"
    using solo_put_last [of "[5, 7, 1, 2]" ring_fresh] by simp_all
  then have "run_from ring_step ?s1 (solo_take ?s1)" by (intro solo_take_run) simp_all
  from reach_run_from [OF r1 this] have r2: "reach ring_start ring_step ?s2"
    by (simp add: solo_take_def Let_def)
  have d: "consumer ?s2 = C_done" by (simp add: solo_take_last)
  have m: "msgs ?s2 = [0, pack [5, 7, 1, 2]]" by (simp add: s1(4) solo_take_def Let_def)
  have b: "skew ?s2 < load_msgs ?s2" "done_begun ?s2 < load_msgs ?s2 + QINSize"
    by (simp_all add: solo_take_def solo_put_def Let_def ring_moves fresh)
  show ?thesis using r2 d b m ring_copy_is_message [OF r2 d b] by blast
qed

text \<open>A call of \<open>send_output\<close> is a run of the step system: from any state of it that agrees with
  the object on the slots and the indices, a run of producer steps leads to one that agrees with
  the object after the call, with the message as the newest one.\<close>

lemma send_output_is_run:
  assumes "send_output xs ob = Some ob'" and "ring_bounds ob" and "length xs = 4" and "producer s = P_idle"
    and "slots s = fromSlaveBufferIn ob" and "curqidx s = m_curqidx ob"
  shows "\<exists>ts. run_from ring_step s ts \<and> producer (last ts) = P_idle \<and> consumer (last ts) = consumer s \<and>
     slots (last ts) = fromSlaveBufferIn ob' \<and> curqidx (last ts) = m_curqidx ob' \<and>
     curqoutidx (last ts) = m_curqoutidx ob' \<and> msgs (last ts) = msgs s @ [pack xs]"
proof -
  have c: "unat (curqidx s) < length (slots s)"
    using assms(2,5,6) by (simp add: ring_bounds_def wf_object_def)
  show ?thesis
    using solo_put_run [OF assms(4,3) c] solo_put_last [OF assms(3) c] assms(1,5,6)
      send_output_eq [OF assms(2,3)]
    by (intro exI [of _ "solo_put xs s"]) auto
qed

text \<open>C37: The first message has no such protection: the constructor leaves both indices at 0, so
  \<open>send_output\<close> writes into the slot that the real-time thread copies, and there is an execution in
  which the thread sends a mixture of this message and of what was there before.\<close>

theorem first_message_torn:
  "\<exists>ts. run_from ring_step ring_fresh ts \<and> consumer (last ts) = C_done \<and>
     copied (last ts) \<noteq> 0 \<and> copied (last ts) \<noteq> pack [1, 1, 1, 1]"
proof -
  have "ul (0 :: PROCBUFFER) 0 = 0" by (simp add: slice_get_def)
  moreover have "ul (pack [1, 1, 1, 1]) 3 = 1" using ul_pack [of "[1, 1, 1, 1]" 3] by simp
  ultimately have "copied (last first_message_run) \<noteq> 0 \<and> copied (last first_message_run) \<noteq> pack [1, 1, 1, 1]"
    using first_message_copied by (metis zero_neq_one)
  moreover have "consumer (last first_message_run) = C_done"
    by (simp add: first_message_run_def Let_def)
  ultimately show ?thesis using first_message_steps by blast
qed

end
