(* ===== verification/Concurrent.thy ===== *)
theory Concurrent
  imports Seqlock Out_Ring Slave_System
begin

section \<open>The two threads word by word\<close>

text \<open>
  The loop of \<open>main\<close> (\<open>slave_test/src/slave_test.cpp\<close>) and the rounds of the real-time thread
  (\<open>execute\<close>, \<open>MainTask\<close>) as they overlap, with the shared data of \<open>Seqlock\<close> and \<open>Out_Ring\<close> in one
  state: every step of the whole is a step of one thread in the order of its program, and changes
  at most one of the two parts. What a thread does to its own data only, and the bus, are left out
  between these steps, but not the waits of the real-time thread for the chip, of which there may be any
  number (\<open>t_wait\<close>); the statistics that \<open>bashoutput\<close> reads are in \<open>Stat_Race\<close>.
  \<open>taken\<close> and \<open>sent\<close> are history: for each call of \<open>receive_input\<close> the number of frames when it
  loaded the counter, whether it was clean and its buffer; for each copy of \<open>SPIWriteProcRamFifo\<close>
  the number of messages when it loaded the index, whether it was clean and its buffer; \<open>waits\<close> is the
  number of the steps with which the real-time thread has waited.
\<close>

subsection \<open>The program\<close>

text \<open>Where the main thread is: before a round, in \<open>receive_input\<close> with the time that the round
  began, before \<open>send_output\<close> with its argument, or in it; and where the real-time thread is: before
  a cycle, in \<open>SPIReadProcRamFifo\<close>, before the copy of \<open>SPIWriteProcRamFifo\<close>, or in it.\<close>

datatype main_pc = M_top | M_receive u64 | M_send "u64 list" | M_put

datatype rt_pc = T_top | T_read | T_load | T_write

record conc =
  io :: seq_sys
  oring :: ring_sys
  main_at :: main_pc
  rt_at :: rt_pc
  next_count :: u64
  taken :: "(nat \<times> bool \<times> PROCBUFFER) list"
  sent :: "(nat \<times> bool \<times> PROCBUFFER) list"
  waits :: nat

text \<open>The steps of one thread in each part: they leave the program of the other where it is.\<close>

definition reader_move :: "seq_sys \<Rightarrow> seq_sys \<Rightarrow> bool" where
  "reader_move p q \<longleftrightarrow> seq_step p q \<and> wr q = wr p"

definition writer_move :: "seq_sys \<Rightarrow> seq_sys \<Rightarrow> bool" where
  "writer_move p q \<longleftrightarrow> seq_step p q \<and> rd q = rd p"

definition producer_move :: "ring_sys \<Rightarrow> ring_sys \<Rightarrow> bool" where
  "producer_move p q \<longleftrightarrow> ring_step p q \<and> consumer q = consumer p"

definition consumer_move :: "ring_sys \<Rightarrow> ring_sys \<Rightarrow> bool" where
  "consumer_move p q \<longleftrightarrow> ring_step p q \<and> producer q = producer p"

definition read_over :: "seq_sys \<Rightarrow> bool" where
  "read_over p \<longleftrightarrow> (case rd p of R_done c \<Rightarrow> True | _ \<Rightarrow> False)"

text \<open>A read is known to be clean when it ends with an even counter that has not gone round.\<close>

definition clean_read :: "u32 \<Rightarrow> seq_sys \<Rightarrow> bool" where
  "clean_read c p \<longleftrightarrow> even (unat c) \<and> done_ticks p < load_ticks p + 2 ^ 32"

text \<open>A copy of a slot is when a message was published before and fewer than ten were begun since.\<close>

definition clean_copy :: "ring_sys \<Rightarrow> bool" where
  "clean_copy q \<longleftrightarrow> skew q < load_msgs q \<and> done_begun q < load_msgs q + QINSize"

inductive main_step :: "conc \<Rightarrow> conc \<Rightarrow> bool" where
  m_time: "main_at s = M_top \<Longrightarrow>
    main_step s (s\<lparr>main_at := M_receive t, io := (io s)\<lparr>rd := R_start\<rparr>\<rparr>)"
| m_read: "main_at s = M_receive t \<Longrightarrow> \<not> read_over (io s) \<Longrightarrow> reader_move (io s) q \<Longrightarrow>
    main_step s (s\<lparr>io := q\<rparr>)"
| m_taken: "main_at s = M_receive t \<Longrightarrow> rd (io s) = R_done c \<Longrightarrow>
    main_step s (s\<lparr>main_at := M_send [t div 1000000, next_count s, 1, 2], next_count := next_count s + 1,
      taken := taken s @ [(load_frames (io s), clean_read c (io s), local_buf (io s))]\<rparr>)"
| m_begin: "main_at s = M_send xs \<Longrightarrow> producer_move (oring s) q \<Longrightarrow> producer q = P_copy xs 0 \<Longrightarrow>
    main_step s (s\<lparr>main_at := M_put, oring := q\<rparr>)"
| m_put: "main_at s = M_put \<Longrightarrow> producer (oring s) \<noteq> P_idle \<Longrightarrow> producer_move (oring s) q \<Longrightarrow>
    main_step s (s\<lparr>oring := q\<rparr>)"
| m_end: "main_at s = M_put \<Longrightarrow> producer (oring s) = P_idle \<Longrightarrow> main_step s (s\<lparr>main_at := M_top\<rparr>)"

text \<open>
  Where the real-time thread may find that it has to wait: between two cycles for the interrupt, and then for
  the CSR port; in \<open>SPIReadProcRamFifo\<close> between the first increment of the counter and the first word; in
  \<open>SPIWriteProcRamFifo\<close> after the copy of the slot. Each reading of a status register that shows busy, and each
  look for an interrupt that has not come, is a step that changes nothing.
\<close>

definition may_wait :: "conc \<Rightarrow> bool" where
  "may_wait s \<longleftrightarrow>
     (case rt_at s of
        T_top \<Rightarrow> True
      | T_read \<Rightarrow> (\<exists>d. wr (io s) = W_copy d 0)
      | T_load \<Rightarrow> False
      | T_write \<Rightarrow> consumer (oring s) = C_done)"

inductive rt_step :: "conc \<Rightarrow> conc \<Rightarrow> bool" where
  t_wait: "may_wait s \<Longrightarrow> rt_step s (s\<lparr>waits := Suc (waits s)\<rparr>)"
| t_begin: "rt_at s = T_top \<Longrightarrow> writer_move (io s) q \<Longrightarrow> rt_step s (s\<lparr>rt_at := T_read, io := q\<rparr>)"
| t_skip: "rt_at s = T_top \<Longrightarrow> rt_step s (s\<lparr>rt_at := T_load\<rparr>)"
| t_read: "rt_at s = T_read \<Longrightarrow> wr (io s) \<noteq> W_idle \<Longrightarrow> writer_move (io s) q \<Longrightarrow> rt_step s (s\<lparr>io := q\<rparr>)"
| t_read_end: "rt_at s = T_read \<Longrightarrow> wr (io s) = W_idle \<Longrightarrow> rt_step s (s\<lparr>rt_at := T_load\<rparr>)"
| t_load: "rt_at s = T_load \<Longrightarrow> consumer_move (oring s) q \<Longrightarrow> rt_step s (s\<lparr>rt_at := T_write, oring := q\<rparr>)"
| t_write: "rt_at s = T_write \<Longrightarrow> consumer (oring s) \<noteq> C_done \<Longrightarrow> consumer_move (oring s) q \<Longrightarrow>
    rt_step s (s\<lparr>oring := q\<rparr>)"
| t_sent: "rt_at s = T_write \<Longrightarrow> consumer (oring s) = C_done \<Longrightarrow>
    rt_step s (s\<lparr>rt_at := T_top,
      sent := sent s @ [(load_msgs (oring s), clean_copy (oring s), copied (oring s))]\<rparr>)"

inductive_cases main_stepE: "main_step s t"
inductive_cases rt_stepE: "rt_step s t"

definition conc_step :: "turn \<Rightarrow> conc \<Rightarrow> conc \<Rightarrow> bool" where
  "conc_step p s t = (case p of Main_turn \<Rightarrow> main_step s t | Rt_turn \<Rightarrow> rt_step s t)"

definition any_step :: "conc \<Rightarrow> conc \<Rightarrow> bool" where
  "any_step s t \<longleftrightarrow> (\<exists>p. conc_step p s t)"

lemma any_step_cases: "any_step s t \<longleftrightarrow> main_step s t \<or> rt_step s t"
  unfolding any_step_def conc_step_def by (metis turn.exhaust turn.simps(3,4))

definition conc_init :: "conc \<Rightarrow> bool" where
  "conc_init s \<longleftrightarrow> seq_init (io s) \<and> ring_start (oring s) \<and> main_at s = M_top \<and> rt_at s = T_top \<and>
     next_count s = 0 \<and> taken s = [] \<and> sent s = [] \<and> waits s = 0"

subsection \<open>What a thread leaves alone\<close>

lemma reader_move_frame:
  assumes "reader_move p q"
  shows "frames q = frames p" and "counter q = counter p" and "ticks q = ticks p"
    and "shared_buf q = shared_buf p" and "wr q = wr p"
    and "load_frames q = (if rd p = R_start then length (frames p) else load_frames p)"
  using assms by (auto simp: reader_move_def elim!: seq_stepE)

lemma writer_move_frame:
  assumes "writer_move p q"
  shows "rd q = rd p" and "local_buf q = local_buf p" and "load_frames q = load_frames p"
    and "load_ticks q = load_ticks p" and "done_ticks q = done_ticks p"
    and "\<exists>ds. frames q = frames p @ ds"
  using assms by (auto simp: writer_move_def elim!: seq_stepE)

lemma producer_move_frame:
  assumes "producer_move p q"
  shows "consumer q = consumer p" and "copied q = copied p" and "load_msgs q = load_msgs p"
    and "done_begun q = done_begun p" and "skew q = skew p" and "\<exists>ms. msgs q = msgs p @ ms"
  using assms by (auto simp: producer_move_def elim!: ring_stepE)

lemma consumer_move_frame:
  assumes "consumer_move p q"
  shows "producer q = producer p" and "msgs q = msgs p" and "begun q = begun p" and "skew q = skew p"
    and "slots q = slots p" and "curqidx q = curqidx p" and "curqoutidx q = curqoutidx p"
    and "load_msgs q = load_msgs p \<or> load_msgs q = length (msgs p)"
  using assms by (auto simp: consumer_move_def elim!: ring_stepE)

subsection \<open>The parts in the whole\<close>

definition part_inv :: "conc \<Rightarrow> bool" where
  "part_inv s \<longleftrightarrow> writer_inv (io s) \<and> reader_inv (io s) \<and> producer_inv (oring s) \<and> consumer_inv (oring s)"

text \<open>The place of each thread in its program fits its place in the parts.\<close>

definition main_place :: "conc \<Rightarrow> bool" where
  "main_place s \<longleftrightarrow>
     (case main_at s of
        M_top \<Rightarrow> (\<forall>c k. rd (io s) \<noteq> R_copy c k) \<and> producer (oring s) = P_idle
      | M_receive t \<Rightarrow> producer (oring s) = P_idle
      | M_send xs \<Rightarrow> read_over (io s) \<and> producer (oring s) = P_idle \<and> length xs = 4
      | M_put \<Rightarrow> read_over (io s))"

definition rt_place :: "conc \<Rightarrow> bool" where
  "rt_place s \<longleftrightarrow>
     (case rt_at s of
        T_top \<Rightarrow> wr (io s) = W_idle \<and> (\<forall>i k. consumer (oring s) \<noteq> C_copy i k)
      | T_read \<Rightarrow> (\<forall>i k. consumer (oring s) \<noteq> C_copy i k)
      | T_load \<Rightarrow> wr (io s) = W_idle \<and> (\<forall>i k. consumer (oring s) \<noteq> C_copy i k)
      | T_write \<Rightarrow> wr (io s) = W_idle \<and> consumer (oring s) \<noteq> C_idle)"

lemma read_over_simps [simp]:
  "rd p = R_done c \<Longrightarrow> read_over p" "rd p = R_start \<Longrightarrow> \<not> read_over p"
  "rd p = R_copy c k \<Longrightarrow> \<not> read_over p"
  by (simp_all add: read_over_def)

lemma read_over_cases: "read_over p \<longleftrightarrow> (\<exists>c. rd p = R_done c)"
  by (simp add: read_over_def split: reader.split)

text \<open>Steps of the parts.\<close>

lemma part_inv_move:
  assumes "part_inv s" and "seq_step (io s) p" and "ring_step (oring s) q"
  shows "part_inv (s\<lparr>io := p\<rparr>)" and "part_inv (s\<lparr>oring := q\<rparr>)"
  using assms seq.Inv_step [of "io s" p] ring.Inv_step [of "oring s" q] by (auto simp: part_inv_def)

lemma main_step_parts:
  assumes "main_step s t" and "main_place s"
  shows "(seq_step\<^sup>=\<^sup>=) (io s) (io t)" and "(ring_step\<^sup>=\<^sup>=) (oring s) (oring t)"
proof -
  have r: "(seq_step\<^sup>=\<^sup>=) p (p\<lparr>rd := R_start\<rparr>)" if "\<forall>c k. rd p \<noteq> R_copy c k" for p
    using that by (cases "rd p") (auto intro: r_again)
  show "(seq_step\<^sup>=\<^sup>=) (io s) (io t)"
    using assms r [of "io s"] by (auto elim!: main_stepE simp: main_place_def reader_move_def)
  show "(ring_step\<^sup>=\<^sup>=) (oring s) (oring t)"
    using assms(1) by (auto elim!: main_stepE simp: producer_move_def)
qed

lemma rt_step_parts:
  assumes "rt_step s t"
  shows "(seq_step\<^sup>=\<^sup>=) (io s) (io t)" and "(ring_step\<^sup>=\<^sup>=) (oring s) (oring t)"
  using assms by (auto elim!: rt_stepE simp: writer_move_def consumer_move_def)

lemma part_inv_step:
  assumes "part_inv s" and "(seq_step\<^sup>=\<^sup>=) (io s) (io t)" and "(ring_step\<^sup>=\<^sup>=) (oring s) (oring t)"
  shows "part_inv t"
  using assms seq.Inv_step [of "io s" "io t"] ring.Inv_step [of "oring s" "oring t"]
  by (auto simp: part_inv_def)

text \<open>The places.\<close>

lemma main_place_step:
  assumes "any_step s t" and "main_place s"
  shows "main_place t"
proof (cases "main_step s t")
  case True
  then show ?thesis
  proof (cases rule: main_step.cases)
    case (m_put q)
    with assms(2) show ?thesis by (simp add: main_place_def)
  qed (use assms(2) in \<open>auto simp: main_place_def read_over_def\<close>)
next
  case False
  with assms(1) have "rt_step s t" by (simp add: any_step_cases)
  then have "rd (io t) = rd (io s)" "producer (oring t) = producer (oring s)" "main_at t = main_at s"
    by (auto elim!: rt_stepE simp: writer_move_def consumer_move_def)
  with assms(2) show ?thesis by (simp add: main_place_def read_over_def split: main_pc.splits)
qed

lemma rt_place_step:
  assumes "any_step s t" and "rt_place s"
  shows "rt_place t"
proof (cases "main_step s t")
  case True
  then have "wr (io t) = wr (io s)" "consumer (oring t) = consumer (oring s)" "rt_at t = rt_at s"
    by (auto elim!: main_stepE simp: reader_move_def producer_move_def)
  with assms(2) show ?thesis by (simp add: rt_place_def split: rt_pc.splits)
next
  case False
  with assms(1) have "rt_step s t" by (simp add: any_step_cases)
  then show ?thesis
  proof (cases rule: rt_step.cases)
    case (t_load q)
    with assms(2) show ?thesis
      by (auto simp: rt_place_def consumer_move_def elim!: ring_stepE)
  next
    case (t_write q)
    with assms(2) show ?thesis
      by (auto simp: rt_place_def consumer_move_def elim!: ring_stepE)
  qed (use assms(2) in \<open>auto simp: rt_place_def split: rt_pc.splits\<close>)
qed

subsection \<open>What the histories say\<close>

text \<open>Observations of a history that only grows: each has the length that the history had when it began and
  is, if sure, the entry that was the newest then; \<open>n\<close> is the length seen by the one in work.\<close>

definition follows :: "'b list \<Rightarrow> nat \<Rightarrow> (nat \<times> bool \<times> 'b) list \<Rightarrow> bool" where
  "follows hist n obs \<longleftrightarrow> sorted (map fst obs) \<and>
     (\<forall>(l, sure, b) \<in> set obs. l \<le> n \<and> l \<le> length hist \<and> (sure \<longrightarrow> 0 < l \<and> b = hist ! (l - 1)))"

lemma follows_Nil [simp]: "follows hist n []"
  by (simp add: follows_def)

lemma follows_log: "follows hist n obs \<Longrightarrow> follows (hist @ ys) n obs"
  by (fastforce simp: follows_def nth_append)

lemma follows_newest: "follows hist n obs \<Longrightarrow> follows hist (length hist) obs"
  by (fastforce simp: follows_def)

lemma follows_snoc:
  assumes "follows hist n obs" and "n \<le> length hist" and "sure \<Longrightarrow> 0 < n \<and> b = hist ! (n - 1)"
  shows "follows hist n (obs @ [(n, sure, b)])"
  using assms by (auto simp: follows_def sorted_append)

definition takes_inv :: "conc \<Rightarrow> bool" where
  "takes_inv s \<longleftrightarrow> follows (frames (io s)) (load_frames (io s)) (taken s) \<and>
     (rd (io s) \<noteq> R_start \<longrightarrow> load_frames (io s) \<le> length (frames (io s)))"

definition sends_inv :: "conc \<Rightarrow> bool" where
  "sends_inv s \<longleftrightarrow> follows (msgs (oring s)) (load_msgs (oring s)) (sent s)"

text \<open>The counter of the main program is in the second word of its messages.\<close>

definition count_inv :: "conc \<Rightarrow> bool" where
  "count_inv s \<longleftrightarrow> (let ms = msgs (oring s); n = of_nat (length ms) in
     (\<forall>j. Suc j < length ms \<longrightarrow> ul (ms ! Suc j) 1 = of_nat j) \<and>
     (case main_at s of
        M_send xs \<Rightarrow> xs ! 1 + 1 = n \<and> next_count s = n
      | M_put \<Rightarrow> (case producer (oring s) of
          P_copy xs k \<Rightarrow> xs ! 1 + 1 = n \<and> next_count s = n
        | _ \<Rightarrow> next_count s + 1 = n)
      | _ \<Rightarrow> next_count s + 1 = n))"

lemma clean_read_newest:
  assumes "reader_inv p" and "rd p = R_done c" and "clean_read c p"
  shows "0 < load_frames p \<and> load_frames p \<le> length (frames p) \<and> local_buf p = frames p ! (load_frames p - 1)"
proof -
  from assms have c: "c = of_nat (load_ticks p)" "c = of_nat (done_ticks p)" "load_ticks p \<le> done_ticks p"
    "done_ticks p < load_ticks p + 2 ^ 32" "even (unat c)"
    by (auto simp: reader_inv_def clean_read_def)
  then have "load_ticks p = done_ticks p" using same_counter_same_ticks by metis
  moreover have "even (load_ticks p)" using c(1,5) counter_parity by metis
  ultimately show ?thesis using assms(1,2) by (simp add: reader_inv_def)
qed

lemma clean_copy_newest:
  assumes "consumer_inv q" and "consumer q = C_done" and "clean_copy q"
  shows "0 < load_msgs q \<and> copied q = msgs q ! (load_msgs q - 1)"
  using assms by (simp add: consumer_inv_def clean_copy_def)

lemma takes_inv_main:
  assumes "main_step s t" and "takes_inv s" and "part_inv s"
  shows "takes_inv t"
  using assms(1)
proof (cases rule: main_step.cases)
  case (m_read u q)
  note f = reader_move_frame [OF m_read(4)]
  from m_read(3) have "rd (io s) \<noteq> R_start \<Longrightarrow> load_frames q \<le> length (frames (io s))"
    using assms(2) f(6) by (simp add: takes_inv_def)
  with assms(2) f m_read(1) show ?thesis
    by (cases "rd (io s) = R_start") (auto simp: takes_inv_def intro: follows_newest)
next
  case (m_taken u c)
  from assms(3) have "reader_inv (io s)" by (simp add: part_inv_def)
  from clean_read_newest [OF this m_taken(3)] assms(2) m_taken(1,3) show ?thesis
    by (auto simp: takes_inv_def intro!: follows_snoc)
qed (use assms(2) in \<open>auto simp: takes_inv_def\<close>)

lemma takes_inv_rt:
  assumes "rt_step s t" and "takes_inv s"
  shows "takes_inv t"
proof -
  have w: "takes_inv (s\<lparr>io := q\<rparr>)" if "writer_move (io s) q" for q
    using assms(2) writer_move_frame [OF that] by (auto simp: takes_inv_def intro: follows_log)
  have up: "takes_inv (u\<lparr>rt_at := a, sent := b\<rparr>) = takes_inv u" "takes_inv (u\<lparr>rt_at := a\<rparr>) = takes_inv u"
    "takes_inv (u\<lparr>oring := r\<rparr>) = takes_inv u" "takes_inv (u\<lparr>waits := n\<rparr>) = takes_inv u" "u\<lparr>rt_at := a, io := q\<rparr> = u\<lparr>io := q, rt_at := a\<rparr>"
    "u\<lparr>rt_at := a, oring := r\<rparr> = u\<lparr>oring := r, rt_at := a\<rparr>" for u a b q r n
    by (simp_all add: takes_inv_def)
  from assms(1) show ?thesis
    by (cases rule: rt_step.cases) (use assms(2) w in \<open>simp_all only: up\<close>)
qed

lemma sends_inv_main:
  assumes "main_step s t" and "sends_inv s"
  shows "sends_inv t"
proof -
  have "\<exists>ms. msgs (oring t) = msgs (oring s) @ ms" "load_msgs (oring t) = load_msgs (oring s)"
    "sent t = sent s"
    using assms(1) by (auto elim!: main_stepE dest: producer_move_frame)
  with assms(2) show ?thesis by (auto simp: sends_inv_def intro: follows_log)
qed

lemma sends_inv_rt:
  assumes "rt_step s t" and "sends_inv s" and "part_inv s"
  shows "sends_inv t"
proof -
  have c: "follows (msgs q) (load_msgs q) (sent s)" if "consumer_move (oring s) q" for q
    using consumer_move_frame [OF that] assms(2) by (auto simp: sends_inv_def intro: follows_newest)
  from assms(1) show ?thesis
  proof (cases rule: rt_step.cases)
    case t_sent
    from assms(3) have i: "consumer_inv (oring s)" by (simp add: part_inv_def)
    then have "load_msgs (oring s) \<le> length (msgs (oring s))" using t_sent(3) by (simp add: consumer_inv_def)
    with clean_copy_newest [OF i t_sent(3)] assms(2) t_sent(1) show ?thesis
      by (auto simp: sends_inv_def intro!: follows_snoc)
  qed (use assms(2) c in \<open>simp_all add: sends_inv_def\<close>)
qed

lemma numbered_snoc:
  assumes "\<forall>j. Suc j < length ms \<longrightarrow> ul (ms ! Suc j) 1 = of_nat j" and "ms \<noteq> []"
    and "length xs = 4" and "xs ! 1 + 1 = of_nat (length ms)"
  shows "\<forall>j. Suc j < length (ms @ [pack xs]) \<longrightarrow> ul ((ms @ [pack xs]) ! Suc j) 1 = of_nat j"
proof (intro allI impI)
  fix j assume j: "Suc j < length (ms @ [pack xs])"
  show "ul ((ms @ [pack xs]) ! Suc j) 1 = of_nat j"
  proof (cases "Suc j < length ms")
    case True
    with assms(1) show ?thesis by (simp add: nth_append)
  next
    case False
    with j have "length ms = Suc j" by simp
    with assms(3,4) show ?thesis by (simp add: nth_append ul_pack)
  qed
qed

lemma count_inv_main:
  assumes "main_step s t" and "count_inv s" and "part_inv s"
  shows "count_inv t"
  using assms(1)
proof (cases rule: main_step.cases)
  case (m_begin xs q)
  from m_begin(3,4) have "msgs q = msgs (oring s)"
    by (auto simp: producer_move_def elim!: ring_stepE)
  with assms(2) m_begin show ?thesis by (simp add: count_inv_def Let_def)
next
  case (m_put q)
  from assms(3) have p: "producer_inv (oring s)" by (simp add: part_inv_def)
  from m_put(4) have "ring_step (oring s) q" "consumer q = consumer (oring s)"
    by (simp_all add: producer_move_def)
  then show ?thesis
  proof (cases rule: ring_step.cases)
    case (p_publish xs)
    with p have "length xs = 4" "msgs (oring s) \<noteq> []" by (simp_all add: producer_inv_def)
    with numbered_snoc [of "msgs (oring s)" xs] assms(2) m_put(1,2) p_publish show ?thesis
      by (simp add: count_inv_def Let_def)
  qed (use assms(2) m_put(1,2,3) in \<open>auto simp: count_inv_def Let_def split: producer.splits\<close>)
qed (use assms(2) in \<open>simp_all add: count_inv_def Let_def split: producer.splits\<close>)

lemma count_inv_rt:
  assumes "rt_step s t" and "count_inv s"
  shows "count_inv t"
proof -
  have "msgs (oring t) = msgs (oring s)" "producer (oring t) = producer (oring s)"
    "main_at t = main_at s" "next_count t = next_count s"
    using assms(1) by (auto elim!: rt_stepE dest: consumer_move_frame)
  with assms(2) show ?thesis
    by (simp add: count_inv_def Let_def split: main_pc.splits producer.splits)
qed

definition conc_inv :: "conc \<Rightarrow> bool" where
  "conc_inv s \<longleftrightarrow> part_inv s \<and> main_place s \<and> rt_place s \<and> takes_inv s \<and> sends_inv s \<and> count_inv s"

interpretation conc: step_invariant conc_init any_step conc_inv
proof unfold_locales
  fix s assume i: "conc_init s"
  then have "part_inv s" "length (msgs (oring s)) = 1"
    using seq.Inv_init [of "io s"] ring.Inv_init [of "oring s"]
    by (simp_all add: conc_init_def part_inv_def ring_start_def)
  with i show "conc_inv s"
    by (simp add: conc_inv_def conc_init_def main_place_def rt_place_def takes_inv_def sends_inv_def
        count_inv_def seq_init_def ring_start_def Let_def)
next
  fix s t assume i: "conc_inv s" and st: "any_step s t"
  then have "part_inv t"
    using part_inv_step main_step_parts rt_step_parts unfolding any_step_cases conc_inv_def by metis
  moreover have "main_place t" "rt_place t"
    using i st main_place_step rt_place_step unfolding conc_inv_def by blast+
  moreover have "takes_inv t" "sends_inv t" "count_inv t"
    using i st takes_inv_main takes_inv_rt sends_inv_main sends_inv_rt count_inv_main count_inv_rt
    unfolding any_step_cases conc_inv_def by metis+
  ultimately show "conc_inv t" by (simp add: conc_inv_def)
qed

subsection \<open>Rounds that are not disturbed\<close>

text \<open>Runs of a part become runs of the whole.\<close>

definition read_work :: "seq_sys \<Rightarrow> seq_sys \<Rightarrow> bool" where
  "read_work p q \<longleftrightarrow> \<not> read_over p \<and> reader_move p q"

definition write_work :: "seq_sys \<Rightarrow> seq_sys \<Rightarrow> bool" where
  "write_work p q \<longleftrightarrow> wr p \<noteq> W_idle \<and> writer_move p q"

definition put_work :: "ring_sys \<Rightarrow> ring_sys \<Rightarrow> bool" where
  "put_work p q \<longleftrightarrow> producer p \<noteq> P_idle \<and> producer_move p q"

definition take_work :: "ring_sys \<Rightarrow> ring_sys \<Rightarrow> bool" where
  "take_work p q \<longleftrightarrow> consumer p \<noteq> C_done \<and> consumer_move p q"

lemma lift_steps:
  assumes "\<And>x y. a x y \<Longrightarrow> b (f x) (f y)"
  shows "a\<^sup>*\<^sup>* x y \<Longrightarrow> b\<^sup>*\<^sup>* (f x) (f y)"
proof (induction rule: rtranclp_induct)
  case (step y z)
  from step.IH assms [OF step.hyps(2)] show ?case by (rule rtranclp.rtrancl_into_rtrancl)
qed simp

lemma any_steps:
  "main_step\<^sup>*\<^sup>* s t \<Longrightarrow> any_step\<^sup>*\<^sup>* s t" "rt_step\<^sup>*\<^sup>* s t \<Longrightarrow> any_step\<^sup>*\<^sup>* s t"
  using lift_steps [of main_step any_step "\<lambda>x. x"] lift_steps [of rt_step any_step "\<lambda>x. x"]
  by (auto simp: any_step_cases)

lemma lift_parts:
  "main_at s = M_receive t \<Longrightarrow> read_work\<^sup>*\<^sup>* (io s) p \<Longrightarrow> main_step\<^sup>*\<^sup>* s (s\<lparr>io := p\<rparr>)"
  "main_at s = M_put \<Longrightarrow> put_work\<^sup>*\<^sup>* (oring s) q \<Longrightarrow> main_step\<^sup>*\<^sup>* s (s\<lparr>oring := q\<rparr>)"
  "rt_at s = T_read \<Longrightarrow> write_work\<^sup>*\<^sup>* (io s) p \<Longrightarrow> rt_step\<^sup>*\<^sup>* s (s\<lparr>io := p\<rparr>)"
  "rt_at s = T_write \<Longrightarrow> take_work\<^sup>*\<^sup>* (oring s) q \<Longrightarrow> rt_step\<^sup>*\<^sup>* s (s\<lparr>oring := q\<rparr>)"
proof -
  have w: "s\<lparr>io := io s\<rparr> = s" "s\<lparr>oring := oring s\<rparr> = s" by simp_all
  have m: "main_step (s\<lparr>io := x\<rparr>) (s\<lparr>io := y\<rparr>)" if "main_at s = M_receive t" "read_work x y" for x y
    using that m_read [of "s\<lparr>io := x\<rparr>" t y] by (simp add: read_work_def)
  show "main_at s = M_receive t \<Longrightarrow> read_work\<^sup>*\<^sup>* (io s) p \<Longrightarrow> main_step\<^sup>*\<^sup>* s (s\<lparr>io := p\<rparr>)"
    using lift_steps [of read_work main_step "\<lambda>x. s\<lparr>io := x\<rparr>", OF m, of "io s" p] w by simp
  have m: "main_step (s\<lparr>oring := x\<rparr>) (s\<lparr>oring := y\<rparr>)" if "main_at s = M_put" "put_work x y" for x y
    using that m_put [of "s\<lparr>oring := x\<rparr>" y] by (simp add: put_work_def)
  show "main_at s = M_put \<Longrightarrow> put_work\<^sup>*\<^sup>* (oring s) q \<Longrightarrow> main_step\<^sup>*\<^sup>* s (s\<lparr>oring := q\<rparr>)"
    using lift_steps [of put_work main_step "\<lambda>x. s\<lparr>oring := x\<rparr>", OF m, of "oring s" q] w by simp
  have m: "rt_step (s\<lparr>io := x\<rparr>) (s\<lparr>io := y\<rparr>)" if "rt_at s = T_read" "write_work x y" for x y
    using that t_read [of "s\<lparr>io := x\<rparr>" y] by (simp add: write_work_def)
  show "rt_at s = T_read \<Longrightarrow> write_work\<^sup>*\<^sup>* (io s) p \<Longrightarrow> rt_step\<^sup>*\<^sup>* s (s\<lparr>io := p\<rparr>)"
    using lift_steps [of write_work rt_step "\<lambda>x. s\<lparr>io := x\<rparr>", OF m, of "io s" p] w by simp
  have m: "rt_step (s\<lparr>oring := x\<rparr>) (s\<lparr>oring := y\<rparr>)" if "rt_at s = T_write" "take_work x y" for x y
    using that t_write [of "s\<lparr>oring := x\<rparr>" y] by (simp add: take_work_def)
  show "rt_at s = T_write \<Longrightarrow> take_work\<^sup>*\<^sup>* (oring s) q \<Longrightarrow> rt_step\<^sup>*\<^sup>* s (s\<lparr>oring := q\<rparr>)"
    using lift_steps [of take_work rt_step "\<lambda>x. s\<lparr>oring := x\<rparr>", OF m, of "oring s" q] w by simp
qed

lemma run_from_rtranclp: "run_from r s ts \<Longrightarrow> r\<^sup>*\<^sup>* s (last (s # ts))"
proof (induction ts arbitrary: s)
  case (Cons t ts)
  then have "r s t" "r\<^sup>*\<^sup>* t (last (t # ts))" by simp_all
  then show ?case by (simp add: converse_rtranclp_into_rtranclp)
qed simp

lemma solo_read_work:
  assumes "rd p = R_start"
  shows "read_work\<^sup>*\<^sup>* p (last (solo_read p))"
proof -
  have "run_from read_work p (solo_read p)"
    using assms by (simp add: solo_read_def Let_def read_work_def reader_move_def solo_steps)
  from run_from_rtranclp [OF this] show ?thesis by (simp add: solo_read_def Let_def)
qed

lemma solo_write_work:
  assumes "wr p = W_idle"
  shows "writer_move p (write_start d p)" and "write_work\<^sup>*\<^sup>* (write_start d p) (last (solo_write d p))"
proof -
  show "writer_move p (write_start d p)" using assms by (simp add: writer_move_def solo_steps)
  have "run_from write_work (write_start d p) (tl (solo_write d p))"
    using assms by (simp add: solo_write_def Let_def write_work_def writer_move_def solo_steps)
  from run_from_rtranclp [OF this] show "write_work\<^sup>*\<^sup>* (write_start d p) (last (solo_write d p))"
    by (simp add: solo_write_def Let_def)
qed

lemma solo_put_work:
  assumes "producer q = P_idle" and "length xs = 4" and "unat (curqidx q) < length (slots q)"
  shows "producer_move q (put_begin xs q)" and "put_work\<^sup>*\<^sup>* (put_begin xs q) (last (solo_put xs q))"
proof -
  show "producer_move q (put_begin xs q)" using assms by (simp add: producer_move_def ring_move_steps)
  have "run_from put_work (put_begin xs q) (tl (solo_put xs q))"
    using assms by (simp add: solo_put_def Let_def put_work_def producer_move_def ring_move_steps)
  from run_from_rtranclp [OF this] show "put_work\<^sup>*\<^sup>* (put_begin xs q) (last (solo_put xs q))"
    by (simp add: solo_put_def Let_def)
qed

lemma solo_take_work:
  assumes "consumer q = C_idle \<or> consumer q = C_done" and "unat (curqoutidx q) < length (slots q)"
  shows "consumer_move q (take_begin q)" and "take_work\<^sup>*\<^sup>* (take_begin q) (last (solo_take q))"
proof -
  show "consumer_move q (take_begin q)"
    using ring_move_steps(5) [OF assms(1)] by (simp add: consumer_move_def)
  have "run_from take_work (take_begin q) (tl (solo_take q))"
    using assms(2) by (simp add: solo_take_def Let_def take_work_def consumer_move_def ring_move_steps)
  from run_from_rtranclp [OF this] show "take_work\<^sup>*\<^sup>* (take_begin q) (last (solo_take q))"
    by (simp add: solo_take_def Let_def)
qed

text \<open>A whole round of the main thread that begins at time \<open>t\<close>, and a whole cycle of the real-time thread
  that publishes a frame or none.\<close>

definition main_whole :: "u64 \<Rightarrow> conc \<Rightarrow> conc" where
  "main_whole t s =
     (let p = last (solo_read ((io s)\<lparr>rd := R_start\<rparr>));
          q = last (solo_put [t div 1000000, next_count s, 1, 2] (oring s))
      in s\<lparr>io := p, oring := q, next_count := next_count s + 1,
           taken := taken s @ [(load_frames p, clean_read (counter (io s)) p, local_buf p)]\<rparr>)"

definition rt_whole :: "PROCBUFFER option \<Rightarrow> conc \<Rightarrow> conc" where
  "rt_whole fr s =
     (let p = (case fr of None \<Rightarrow> io s | Some d \<Rightarrow> last (solo_write d (io s)));
          q = last (solo_take (oring s))
      in s\<lparr>io := p, oring := q, sent := sent s @ [(load_msgs q, clean_copy q, copied q)]\<rparr>)"

lemma main_whole_run:
  assumes "main_at s = M_top" and "producer (oring s) = P_idle"
    and "unat (curqidx (oring s)) < length (slots (oring s))"
  shows "main_step\<^sup>*\<^sup>* s (main_whole t s)"
proof -
  define xs where "xs = [t div 1000000, next_count s, 1, 2]"
  define p where "p = last (solo_read ((io s)\<lparr>rd := R_start\<rparr>))"
  define q where "q = last (solo_put xs (oring s))"
  define s1 where "s1 = s\<lparr>main_at := M_receive t, io := (io s)\<lparr>rd := R_start\<rparr>\<rparr>"
  define s3 where "s3 = (s1\<lparr>io := p\<rparr>)\<lparr>main_at := M_send xs, next_count := next_count s + 1,
      taken := taken s @ [(load_frames p, clean_read (counter (io s)) p, local_buf p)]\<rparr>"
  define s4 where "s4 = s3\<lparr>main_at := M_put, oring := put_begin xs (oring s)\<rparr>"
  have rd: "rd p = R_done (counter (io s))" unfolding p_def by (subst solo_read_last) simp
  have len: "length xs = 4" by (simp add: xs_def)
  have "main_step s s1" unfolding s1_def using assms(1) by (rule m_time)
  moreover have "main_step\<^sup>*\<^sup>* s1 (s1\<lparr>io := p\<rparr>)"
    by (rule lift_parts(1) [of _ t]) (simp_all add: s1_def p_def solo_read_work)
  moreover have "main_step (s1\<lparr>io := p\<rparr>) s3"
    using m_taken [of "s1\<lparr>io := p\<rparr>" t "counter (io s)"] rd by (simp add: s3_def s1_def xs_def)
  moreover have "main_step s3 s4"
    using m_begin [of s3 xs "put_begin xs (oring s)"] solo_put_work(1) [OF assms(2) len assms(3)]
    by (simp add: s4_def s3_def s1_def)
  moreover have "main_step\<^sup>*\<^sup>* s4 (s4\<lparr>oring := q\<rparr>)"
    using solo_put_work(2) [OF assms(2) len assms(3)]
    by (intro lift_parts(2)) (simp_all add: s4_def q_def)
  moreover have "producer q = P_idle" using solo_put_last [OF len assms(3)] by (simp add: q_def)
  then have "main_step (s4\<lparr>oring := q\<rparr>) (s4\<lparr>oring := q, main_at := M_top\<rparr>)"
    using m_end [of "s4\<lparr>oring := q\<rparr>"] by (simp add: s4_def)
  moreover have "s4\<lparr>oring := q, main_at := M_top\<rparr> = main_whole t s"
    by (simp add: s4_def s3_def s1_def main_whole_def p_def q_def xs_def assms(1) Let_def)
  ultimately show ?thesis by (metis (no_types) rtranclp.rtrancl_into_rtrancl rtranclp_trans r_into_rtranclp)
qed

lemma rt_whole_run:
  assumes "rt_at s = T_top" and "wr (io s) = W_idle"
    and "consumer (oring s) = C_idle \<or> consumer (oring s) = C_done"
    and "unat (curqoutidx (oring s)) < length (slots (oring s))"
  shows "rt_step\<^sup>*\<^sup>* s (rt_whole fr s)"
proof -
  define p where "p = (case fr of None \<Rightarrow> io s | Some d \<Rightarrow> last (solo_write d (io s)))"
  define q where "q = last (solo_take (oring s))"
  define s2 where "s2 = s\<lparr>io := p, rt_at := T_load\<rparr>"
  define s3 where "s3 = s2\<lparr>rt_at := T_write, oring := take_begin (oring s)\<rparr>"
  have "rt_step\<^sup>*\<^sup>* s s2"
  proof (cases fr)
    case None
    then show ?thesis using t_skip [OF assms(1)] by (simp add: s2_def p_def r_into_rtranclp)
  next
    case (Some d)
    define s1 where "s1 = s\<lparr>rt_at := T_read, io := write_start d (io s)\<rparr>"
    have "rt_step s s1" unfolding s1_def
      using assms(1) solo_write_work(1) [OF assms(2)] by (rule t_begin)
    moreover have "rt_step\<^sup>*\<^sup>* s1 (s1\<lparr>io := p\<rparr>)"
      using solo_write_work(2) [OF assms(2), of d] by (intro lift_parts(3)) (simp_all add: s1_def p_def Some)
    moreover have "wr p = W_idle" by (simp add: p_def Some solo_write_last)
    then have "rt_step (s1\<lparr>io := p\<rparr>) s2"
      using t_read_end [of "s1\<lparr>io := p\<rparr>"] by (simp add: s2_def s1_def)
    ultimately show ?thesis by (metis (no_types) rtranclp.rtrancl_into_rtrancl converse_rtranclp_into_rtranclp)
  qed
  moreover have "rt_step s2 s3" unfolding s3_def
    using t_load [of s2 "take_begin (oring s)"] solo_take_work(1) [OF assms(3,4)] by (simp add: s2_def)
  moreover have "rt_step\<^sup>*\<^sup>* s3 (s3\<lparr>oring := q\<rparr>)"
    using solo_take_work(2) [OF assms(3,4)] by (intro lift_parts(4)) (simp_all add: s3_def q_def)
  moreover have "consumer q = C_done" by (simp add: q_def solo_take_last)
  then have "rt_step (s3\<lparr>oring := q\<rparr>) (s3\<lparr>oring := q, rt_at := T_top,
      sent := sent s @ [(load_msgs q, clean_copy q, copied q)]\<rparr>)"
    using t_sent [of "s3\<lparr>oring := q\<rparr>"] by (simp add: s3_def s2_def)
  moreover have "s3\<lparr>oring := q, rt_at := T_top, sent := sent s @ [(load_msgs q, clean_copy q, copied q)]\<rparr> =
      rt_whole fr s"
    by (simp add: s3_def s2_def rt_whole_def p_def q_def assms(1) Let_def)
  ultimately show ?thesis by (metis (no_types) rtranclp.rtrancl_into_rtrancl rtranclp_trans)
qed

subsection \<open>The state after whole rounds\<close>

lemma solo_history:
  "load_frames (last (solo_read p)) = length (frames p)" "load_ticks (last (solo_read p)) = ticks p"
  "done_ticks (last (solo_read p)) = ticks p" "ticks (last (solo_read p)) = ticks p"
  "load_msgs (last (solo_take q)) = length (msgs q)" "done_begun (last (solo_take q)) = begun q"
  "skew (last (solo_take q)) = skew q" "begun (last (solo_take q)) = begun q"
  "msgs (last (solo_take q)) = msgs q" "curqidx (last (solo_take q)) = curqidx q"
  "curqoutidx (last (solo_take q)) = curqoutidx q"
  "begun (last (solo_put xs q)) = Suc (begun q)" "skew (last (solo_put xs q)) = skew q"
  by (simp_all add: solo_read_def solo_take_def solo_put_def solo_defs ring_moves Let_def)

lemma clean_solo:
  "clean_read c (last (solo_read p)) \<longleftrightarrow> even (unat c)"
  "clean_copy (last (solo_take q)) \<longleftrightarrow> skew q < length (msgs q) \<and> begun q < length (msgs q) + QINSize"
  by (simp_all add: clean_read_def clean_copy_def solo_history)

lemma main_whole_simps:
  "rt_at (main_whole t s) = rt_at s" "main_at (main_whole t s) = main_at s" "sent (main_whole t s) = sent s"
  "next_count (main_whole t s) = next_count s + 1"
  "oring (main_whole t s) = last (solo_put [t div 1000000, next_count s, 1, 2] (oring s))"
  "taken (main_whole t s) = taken s @ [(length (frames (io s)), even (unat (counter (io s))), shared_buf (io s))]"
  "wr (io (main_whole t s)) = wr (io s)" "counter (io (main_whole t s)) = counter (io s)"
  "shared_buf (io (main_whole t s)) = shared_buf (io s)" "frames (io (main_whole t s)) = frames (io s)"
  "rd (io (main_whole t s)) = R_done (counter (io s))"
  by (simp_all add: main_whole_def Let_def solo_read_last solo_history clean_solo)

lemma rt_whole_simps:
  "rt_at (rt_whole fr s) = rt_at s" "main_at (rt_whole fr s) = main_at s" "taken (rt_whole fr s) = taken s"
  "next_count (rt_whole fr s) = next_count s" "oring (rt_whole fr s) = last (solo_take (oring s))"
  "sent (rt_whole fr s) = sent s @ [(length (msgs (oring s)), clean_copy (last (solo_take (oring s))),
      slots (oring s) ! unat (curqoutidx (oring s)))]"
  "wr (io s) = W_idle \<Longrightarrow> wr (io (rt_whole fr s)) = W_idle" "rd (io (rt_whole fr s)) = rd (io s)"
  "counter (io (rt_whole fr s)) = counter (io s) + (case fr of None \<Rightarrow> 0 | Some d \<Rightarrow> 2)"
  "shared_buf (io (rt_whole fr s)) = (case fr of None \<Rightarrow> shared_buf (io s) | Some d \<Rightarrow> d)"
  "frames (io (rt_whole fr s)) = frames (io s) @ (case fr of None \<Rightarrow> [] | Some d \<Rightarrow> [d])"
  by (simp_all add: rt_whole_def Let_def solo_take_last solo_write_last solo_history split: option.split)

definition conc_start :: conc where
  "conc_start = \<lparr>io = seq_start, oring = ring_fresh, main_at = M_top, rt_at = T_top, next_count = 0,
     taken = [], sent = [], waits = 0\<rparr>"

lemma conc_start_init: "conc_init conc_start"
  by (simp add: conc_start_def conc_init_def seq_init_start ring_fresh_start)

subsection \<open>The rounds of the model are such rounds\<close>

definition agrees :: "'f main_state \<times> 'w machine \<Rightarrow> conc \<Rightarrow> bool" where
  "agrees sm s \<longleftrightarrow> (let st = fst sm; ob = ETHB st in
     main_inv st \<and> conc_inv s \<and> main_at s = M_top \<and> rt_at s = T_top \<and> next_count s = loop_counter st \<and>
     counter (io s) = m_atomiccounter ob \<and> shared_buf (io s) = m_BufferOutEthToSlaveBuffer ob \<and>
     slots (oring s) = fromSlaveBufferIn ob \<and> curqidx (oring s) = m_curqidx ob \<and>
     curqoutidx (oring s) = m_curqoutidx ob \<and>
     (taken s \<noteq> [] \<longrightarrow> snd (snd (last (taken s))) = BufferfromEthCAT st))"

text \<open>A run of one thread with what it shows on the bus: the copies that it sent and the frames that
  it published.\<close>

definition conc_turn :: "turn \<Rightarrow> conc \<Rightarrow> action list \<Rightarrow> conc \<Rightarrow> bool" where
  "conc_turn p s as t \<longleftrightarrow> (conc_step p)\<^sup>*\<^sup>* s t \<and>
     (\<exists>ss. sent t = sent s @ ss \<and> fifo_outputs as = map (\<lambda>(l, clean, b). le_bytes 32 b) ss) \<and>
     (\<exists>ds. frames (io t) = frames (io s) @ ds \<and> fifo_inputs as = map (le_bytes 32) ds)"

lemma conc_turn_any: "(conc_step p)\<^sup>*\<^sup>* s t \<Longrightarrow> any_step\<^sup>*\<^sup>* s t"
  using lift_steps [of "conc_step p" any_step "\<lambda>x. x"] by (auto simp: any_step_def)

lemma conc_turn_steps: "conc_step Main_turn = main_step" "conc_step Rt_turn = rt_step"
  by (simp_all add: conc_step_def fun_eq_iff)

lemma conc_inv_top:
  assumes "conc_inv s" and "main_at s = M_top" and "rt_at s = T_top"
  shows "producer (oring s) = P_idle" and "wr (io s) = W_idle"
    and "consumer (oring s) = C_idle \<or> consumer (oring s) = C_done"
    and "unat (curqidx (oring s)) < length (slots (oring s))"
    and "unat (curqoutidx (oring s)) < length (slots (oring s))"
proof -
  from assms have p: "producer (oring s) = P_idle" "wr (io s) = W_idle"
    "\<forall>i k. consumer (oring s) \<noteq> C_copy i k" "producer_inv (oring s)"
    by (simp_all add: conc_inv_def main_place_def rt_place_def part_inv_def)
  then show "producer (oring s) = P_idle" "wr (io s) = W_idle"
    "unat (curqidx (oring s)) < length (slots (oring s))"
    "unat (curqoutidx (oring s)) < length (slots (oring s))"
    by (simp_all add: producer_inv_def)
  from p(3) show "consumer (oring s) = C_idle \<or> consumer (oring s) = C_done"
    by (cases "consumer (oring s)") simp_all
qed

lemma bashoutput_ring:
  assumes "same_but_text ob ob'"
  shows "m_atomiccounter ob' = m_atomiccounter ob" and "fromSlaveBufferIn ob' = fromSlaveBufferIn ob"
    and "m_curqidx ob' = m_curqidx ob" and "m_curqoutidx ob' = m_curqoutidx ob"
proof -
  obtain out n where "ob' = ob\<lparr>outbuffer := out, numeric := n\<rparr>"
    using assms unfolding same_but_text_def by blast
  then show "m_atomiccounter ob' = m_atomiccounter ob" "fromSlaveBufferIn ob' = fromSlaveBufferIn ob"
    "m_curqidx ob' = m_curqidx ob" "m_curqoutidx ob' = m_curqoutidx ob" by simp_all
qed

lemma main_turn_conc:
  assumes "agrees (st, m) s" and "main_round E fmt st m = Some (st', m')" and "emits m m' as"
    and "main_inv st'"
  shows "\<exists>t. conc_turn Main_turn s as t \<and> agrees (st', m') t"
proof -
  from assms(1) have inv: "main_inv st" "conc_inv s" "main_at s = M_top" "rt_at s = T_top"
    by (simp_all add: agrees_def Let_def)
  then have b: "ring_bounds (ETHB st)" by (simp add: main_inv_def)
  from main_round_log [OF assms(2) inv(1)] obtain sec ns r ob1 ob2 l where
    e: "emits m m' [Clock sec ns, Ext (Nanosleep 0 100000000) r]"
    and s: "send_output (round_words (ns_of sec ns) st) (ETHB st) = Some ob1"
    and p: "bashoutput fmt ob1 = Some (ob2, l)"
    and st': "st' = \<lparr>ETHB = ob2, BufferfromEthCAT = m_BufferOutEthToSlaveBuffer (ETHB st),
       inputbuffer = round_words (ns_of sec ns) st, loop_counter = loop_counter st + 1\<rparr>"
    by blast
  note as = emits_unique [OF assms(3) e]
  let ?u = "ns_of sec ns"
  define t where "t = main_whole ?u s"
  have run: "main_step\<^sup>*\<^sup>* s t" unfolding t_def using conc_inv_top [OF inv(2-4)] inv(3) by (intro main_whole_run)
  then have ci: "conc_inv t" using conc.steps_Inv any_steps(1) inv(2) by blast
  have x: "[?u div 1000000, loop_counter st, 1, 2] = round_words ?u st" "length (round_words ?u st) = 4"
    by (simp_all add: round_words_def)
  have idx: "unat (curqidx (oring s)) < length (slots (oring s))" using conc_inv_top(4) inv(2-4) .
  note q = solo_put_last [OF x(2) idx]
  have ob1: "ob1 = (ETHB st)\<lparr>
      fromSlaveBufferIn := (fromSlaveBufferIn (ETHB st))[unat (m_curqidx (ETHB st)) := pack (round_words ?u st)],
      m_curqoutidx := m_curqidx (ETHB st),
      m_curqidx := (if of_nat QINSize \<le> m_curqidx (ETHB st) + 1 then 0 else m_curqidx (ETHB st) + 1)\<rparr>"
    using s send_output_eq [OF b x(2)] by simp
  have "agrees (st', m') t"
    using assms(1,4) ci q bashoutput_ring [OF bashoutput_frame [OF p]]
      same_but_text_ring(5) [OF bashoutput_frame [OF p]]
    by (simp add: agrees_def Let_def t_def main_whole_simps x(1) st' ob1)
  moreover have "conc_turn Main_turn s as t"
    using run by (simp add: conc_turn_def conc_turn_steps as fifo_outputs_def fifo_inputs_def t_def main_whole_simps)
  ultimately show ?thesis by blast
qed

lemma cycle_as_whole:
  assumes "cycle_spec ob as code ob'"
  shows "\<exists>fr out. cur_output ob = Some out \<and> fifo_outputs as = [le_bytes 32 out] \<and>
     fifo_inputs as = (case fr of None \<Rightarrow> [] | Some d \<Rightarrow> [le_bytes 32 d]) \<and>
     m_atomiccounter ob' = m_atomiccounter ob + (case fr of None \<Rightarrow> 0 | Some d \<Rightarrow> 2) \<and>
     m_BufferOutEthToSlaveBuffer ob' = (case fr of None \<Rightarrow> m_BufferOutEthToSlaveBuffer ob | Some d \<Rightarrow> d) \<and>
     fromSlaveBufferIn ob' = fromSlaveBufferIn ob \<and> m_curqidx ob' = m_curqidx ob \<and>
     m_curqoutidx ob' = m_curqoutidx ob"
  using assms
proof (cases rule: cycle_spec.cases)
  case (operational wd al out ws1 ws2 ws3 ws4 b)
  then show ?thesis by (intro exI [of _ "Some b"] exI [of _ out]) (simp add: fifo_append fifo_cycle_parts)
next
  case (safe wd al out ws1 ws2 ws4)
  then show ?thesis by (intro exI [of _ None] exI [of _ out]) (simp add: fifo_append fifo_cycle_parts)
qed

lemma record_times_ring:
  "fromSlaveBufferIn (record_times F a b ob) = fromSlaveBufferIn ob"
  "m_curqidx (record_times F a b ob) = m_curqidx ob"
  "m_curqoutidx (record_times F a b ob) = m_curqoutidx ob"
  by (simp_all add: record_times_def Let_def)

lemma rt_turn_conc:
  assumes "agrees (st, m) s" and "execute_round E F (ETHB st) m = Some (ob', m')" and "emits m m' as"
    and "main_inv (st\<lparr>ETHB := ob'\<rparr>)"
  shows "\<exists>t. conc_turn Rt_turn s as t \<and> agrees (st\<lparr>ETHB := ob'\<rparr>, m') t"
proof -
  from assms(1) have inv: "conc_inv s" "main_at s = M_top" "rt_at s = T_top"
    by (simp_all add: agrees_def Let_def)
  from execute_round_emits [OF assms(2)] obtain r bs code ob1 t0 t1 r1 r2 where
    c: "cycle_spec (ETHB st) bs code ob1"
    and e: "emits m m' (round_actions (m_devhndl (ETHB st)) r bs t0 t1 r1 r2)"
    and ob': "ob' = record_times F (ns_of (fst t0) (snd t0)) (ns_of (fst t1) (snd t1)) ob1"
    by blast
  note as = emits_unique [OF assms(3) e]
  from cycle_as_whole [OF c] obtain fr out where
    out: "cur_output (ETHB st) = Some out" "fifo_outputs bs = [le_bytes 32 out]"
    and ins: "fifo_inputs bs = (case fr of None \<Rightarrow> [] | Some d \<Rightarrow> [le_bytes 32 d])"
    and ob1: "m_atomiccounter ob1 = m_atomiccounter (ETHB st) + (case fr of None \<Rightarrow> 0 | Some d \<Rightarrow> 2)"
      "m_BufferOutEthToSlaveBuffer ob1 =
         (case fr of None \<Rightarrow> m_BufferOutEthToSlaveBuffer (ETHB st) | Some d \<Rightarrow> d)"
      "fromSlaveBufferIn ob1 = fromSlaveBufferIn (ETHB st)" "m_curqidx ob1 = m_curqidx (ETHB st)"
      "m_curqoutidx ob1 = m_curqoutidx (ETHB st)"
    by blast
  define t where "t = rt_whole fr s"
  have run: "rt_step\<^sup>*\<^sup>* s t" unfolding t_def using conc_inv_top [OF inv] inv(3) by (intro rt_whole_run)
  then have ci: "conc_inv t" using conc.steps_Inv any_steps(2) inv(1) by blast
  have "agrees (st\<lparr>ETHB := ob'\<rparr>, m') t"
    using assms(1,4) ci
    by (simp add: agrees_def Let_def t_def rt_whole_simps solo_take_last solo_history ob' ob1
        record_times_frame record_times_ring split: option.split)
  moreover have "slots (oring s) ! unat (curqoutidx (oring s)) = out"
    using assms(1) out(1) by (simp add: agrees_def Let_def cur_output_def slot_def split: if_splits)
  then have "conc_turn Rt_turn s as t"
    using run out(2) ins
    by (simp add: conc_turn_def conc_turn_steps as fifo_round t_def rt_whole_simps split: option.split)
  ultimately show ?thesis by blast
qed

interpretation overlap: simulation "turn_step E F fmt" conc_turn agrees for E F fmt
proof unfold_locales
  fix s a t as s'
  assume a: "agrees s a" and st: "turn_step E F fmt t s as s'"
  obtain st m where s: "s = (st, m)" by (cases s)
  obtain st' m' where s': "s' = (st', m')" by (cases s')
  from a have "main_inv (fst s)" by (simp add: agrees_def Let_def)
  moreover from st have "run_turn E F fmt t s = Some s'" by (simp add: turn_step_def)
  ultimately have inv: "main_inv (fst s')" using run_turn_emits by blast
  show "\<exists>a'. conc_turn t a as a' \<and> agrees s' a'"
  proof (cases t)
    case Main_turn
    with st main_turn_conc a inv show ?thesis
      unfolding s s' by (fastforce simp: turn_step_def run_turn_def)
  next
    case Rt_turn
    with st obtain ob where "execute_round E F (ETHB st) m = Some (ob, m')" "st' = st\<lparr>ETHB := ob\<rparr>"
      "emits m m' as"
      unfolding s s' by (auto simp: turn_step_def run_turn_def bind_Some_iff)
    with rt_turn_conc a inv show ?thesis unfolding s s' Rt_turn by simp
  qed
qed

lemma conc_turns:
  "steps conc_turn ps s as t \<Longrightarrow> any_step\<^sup>*\<^sup>* s t \<and>
     (\<exists>ss. sent t = sent s @ ss \<and> fifo_outputs as = map (\<lambda>(l, clean, b). le_bytes 32 b) ss) \<and>
     (\<exists>ds. frames (io t) = frames (io s) @ ds \<and> fifo_inputs as = map (le_bytes 32) ds)"
proof (induction ps arbitrary: s as)
  case Nil
  then show ?case by (simp add: fifo_outputs_def fifo_inputs_def)
next
  case (Cons p ps)
  from Cons.prems obtain as1 s1 as2 where 1: "conc_turn p s as1 s1" and 2: "steps conc_turn ps s1 as2 t"
    and as: "as = as1 @ as2" by auto
  from 1 have "any_step\<^sup>*\<^sup>* s s1" using conc_turn_any unfolding conc_turn_def by blast
  with 1 Cons.IH [OF 2] show ?case
    unfolding as fifo_append conc_turn_def by (fastforce intro: rtranclp_trans)
qed

text \<open>The state of the threads that fits the program before its first round.\<close>

definition conc_of :: "'f main_state \<Rightarrow> conc" where
  "conc_of st = (let ob = ETHB st; q = fromSlaveBufferIn ob; i = (unat (m_curqidx ob) + 9) mod QINSize in
     conc_start\<lparr>
       io := seq_start\<lparr>shared_buf := m_BufferOutEthToSlaveBuffer ob,
          frames := [m_BufferOutEthToSlaveBuffer ob]\<rparr>,
       oring := ring_fresh\<lparr>slots := q, curqidx := m_curqidx ob, curqoutidx := m_curqoutidx ob,
          msgs := [q ! i], base := i, skew := (if unat (m_curqoutidx ob) = i then 0 else 1)\<rparr>\<rparr>)"

lemma conc_of_agrees:
  assumes "main_inv st" and "m_atomiccounter (ETHB st) = 0" and "loop_counter st = 0"
  shows "conc_init (conc_of st)" and "agrees (st, m) (conc_of st)"
proof -
  show i: "conc_init (conc_of st)"
    using assms(1)
    by (simp add: conc_init_def conc_of_def conc_start_def seq_init_def seq_start_def ring_start_def
        ring_fresh_def main_inv_def ring_bounds_def wf_object_def Let_def)
  from conc.Inv_init [OF this] assms show "agrees (st, m) (conc_of st)"
    by (simp add: agrees_def Let_def conc_of_def conc_start_def seq_start_def)
qed

subsection \<open>Properties\<close>

text \<open>C2: In every interleaving of the two threads, word by word and from the start of the program,
  what the application takes from the master and what it sends to it comes in order and never goes
  back: each clean call of \<open>receive_input\<close> gives the frame that was the newest complete one when it
  began, and each clean copy of \<open>SPIWriteProcRamFifo\<close> is the message that was the newest one then and
  carries its number.\<close>

theorem concurrent_in_order:
  assumes "reach conc_init any_step s"
  shows "sorted (map fst (taken s)) \<and> sorted (map fst (sent s)) \<and>
    (\<forall>(l, clean, b) \<in> set (taken s). clean \<longrightarrow>
       0 < l \<and> l \<le> length (frames (io s)) \<and> b = frames (io s) ! (l - 1)) \<and>
    (\<forall>(l, clean, b) \<in> set (sent s). clean \<longrightarrow>
       0 < l \<and> l \<le> length (msgs (oring s)) \<and> b = msgs (oring s) ! (l - 1) \<and>
       (1 < l \<longrightarrow> ul b 1 = of_nat (l - 2)))"
proof -
  from conc.reach_Inv [OF assms] have i: "takes_inv s" "sends_inv s" "count_inv s"
    by (simp_all add: conc_inv_def)
  have number: "ul (msgs (oring s) ! (l - 1)) 1 = of_nat (l - 2)"
    if "1 < l" "l \<le> length (msgs (oring s))" for l
  proof -
    from that have "Suc (l - 2) = l - 1" "Suc (l - 2) < length (msgs (oring s))" by simp_all
    with i(3) show ?thesis unfolding count_inv_def Let_def by metis
  qed
  show ?thesis
    using i(1,2) number by (fastforce simp: takes_inv_def sends_inv_def follows_def)
qed

theorem concurrent_in_order_witness:
  "\<exists>s. reach conc_init any_step s \<and>
     taken s = [(1, True, 0), (2, True, pack [7, 7, 7, 7])] \<and>
     sent s = [(2, True, pack [5, 0, 1, 2])] \<and> sorted (map fst (taken s)) \<and>
     (\<forall>(l, clean, b) \<in> set (sent s). clean \<longrightarrow> b = msgs (oring s) ! (l - 1) \<and> (1 < l \<longrightarrow> ul b 1 = of_nat (l - 2)))"
proof -
  let ?d = "pack [7, 7, 7, 7]" and ?xs = "[5, 0, 1, 2 :: u64]"
  define s1 where "s1 = main_whole 5000000 conc_start"
  define s2 where "s2 = rt_whole (Some ?d) s1"
  define s3 where "s3 = main_whole 6000000 s2"
  have up: "reach conc_init any_step b" if "main_step\<^sup>*\<^sup>* a b \<or> rt_step\<^sup>*\<^sup>* a b" "reach conc_init any_step a" for a b
    using that any_steps by (intro reach_steps [OF _ that(2)]) blast
  have 0: "reach conc_init any_step conc_start" using conc_start_init by (rule reach_init)
  have f: "begun ring_fresh = 1" "skew ring_fresh = 1" by (simp_all add: ring_fresh_def)
  have "main_step\<^sup>*\<^sup>* conc_start s1" unfolding s1_def
    by (rule main_whole_run) (simp_all add: conc_start_def)
  with up 0 have 1: "reach conc_init any_step s1" by blast
  have o1: "oring s1 = last (solo_put ?xs ring_fresh)" "taken s1 = [(1, True, 0)]" "sent s1 = []"
    "rt_at s1 = T_top" "main_at s1 = M_top" "wr (io s1) = W_idle" "next_count s1 = 1"
    "frames (io s1) = [0]" "counter (io s1) = 0"
    unfolding s1_def main_whole_simps by (simp_all add: conc_start_def seq_start_def)
  note put = solo_put_last [of ?xs ring_fresh] solo_history(12,13) [of ?xs ring_fresh]
  have "rt_step\<^sup>*\<^sup>* s1 s2" unfolding s2_def
    by (rule rt_whole_run) (simp_all add: o1 put)
  with up 1 have 2: "reach conc_init any_step s2" by blast
  have o2: "oring s2 = last (solo_take (oring s1))" "taken s2 = [(1, True, 0)]" "sent s2 = [(2, True, pack ?xs)]"
    "rt_at s2 = T_top" "main_at s2 = M_top" "next_count s2 = 1"
    "frames (io s2) = [0, ?d]" "counter (io s2) = 2" "shared_buf (io s2) = ?d"
    unfolding s2_def rt_whole_simps by (simp_all add: o1 put f clean_solo)
  have "main_step\<^sup>*\<^sup>* s2 s3" unfolding s3_def
    by (rule main_whole_run) (simp_all add: o2 o1 put solo_take_last solo_history)
  with up 2 have 3: "reach conc_init any_step s3" by blast
  have "taken s3 = [(1, True, 0), (2, True, ?d)]" "sent s3 = [(2, True, pack ?xs)]"
    unfolding s3_def main_whole_simps by (simp_all add: o2)
  with 3 concurrent_in_order [OF 3] show ?thesis by fastforce
qed

text \<open>C3: The rounds of the two threads, taken whole and in any order, are executions of the program
  word by word: from the state that fits the program before its first round a run of the two threads
  leads to one that agrees with the model on the shared data and on what the application has, and in
  which the copies that were sent and the frames that were published are what went through the FIFOs
  of the chip.\<close>

theorem turns_are_concurrent:
  assumes "fold_option (run_turn E F fmt) ts (st, m) = Some (st', m')" and "main_inv st"
    and "m_atomiccounter (ETHB st) = 0" and "loop_counter st = 0"
  shows "\<exists>as t. emits m m' as \<and> conc_init (conc_of st) \<and> any_step\<^sup>*\<^sup>* (conc_of st) t \<and>
     agrees (st', m') t \<and> fifo_outputs as = map (\<lambda>(l, clean, b). le_bytes 32 b) (sent t) \<and>
     fifo_inputs as = map (le_bytes 32) (tl (frames (io t)))"
proof -
  note i = conc_of_agrees [OF assms(2-4)]
  from turns_steps [OF assms(1)] assms(2) obtain as where
    as: "emits m m' as" "steps (turn_step E F fmt) ts (st, m) as (st', m')" by auto
  from overlap.steps_sim [OF i(2) as(2)] obtain t where
    t: "steps conc_turn ts (conc_of st) as t" "agrees (st', m') t" by blast
  have s: "sent (conc_of st) = []" "frames (io (conc_of st)) = [m_BufferOutEthToSlaveBuffer (ETHB st)]"
    by (simp_all add: conc_of_def conc_start_def Let_def)
  from conc_turns [OF t(1)] s i(1) as(1) t(2) show ?thesis by fastforce
qed

theorem turns_are_concurrent_witness:
  "\<exists>st' m' as t. fold_option (run_turn up_chip real_fpu (\<lambda>_. ''1'')) [Main_turn, Rt_turn, Main_turn]
       (main_init (raw_shield real_fpu), start ([], 0)) = Some (st', m') \<and> emits (start ([], 0)) m' as \<and>
     any_step\<^sup>*\<^sup>* (conc_of (main_init (raw_shield real_fpu))) t \<and> agrees (st', m') t \<and>
     fifo_outputs as = map (\<lambda>(l, clean, b). le_bytes 32 b) (sent t) \<and>
     fifo_inputs as = map (le_bytes 32) (tl (frames (io t)))"
proof -
  let ?fmt = "\<lambda>_. ''1''" and ?st = "main_init (raw_shield real_fpu)"
  have "short_numbers ?fmt" by (simp add: short_numbers_def)
  from turns_return [OF up_chip_responsive this _ TrueI, of "(?st, start ([], 0))" real_fpu "[Main_turn, Rt_turn, Main_turn]"]
  obtain st' m' where run: "fold_option (run_turn up_chip real_fpu ?fmt) [Main_turn, Rt_turn, Main_turn]
      (?st, start ([], 0)) = Some (st', m')"
    using main_init_inv [of real_fpu] by auto
  have c: "m_atomiccounter (ETHB ?st) = 0" "loop_counter ?st = 0"
    by (simp_all add: main_init_def raw_shield_def static_object_def rpi_base.defs)
  from run turns_are_concurrent [OF run main_init_inv c] show ?thesis by blast
qed

end
