(* ===== verification/Progress.thy ===== *)
theory Progress
  imports Concurrent
begin

section \<open>Progress of the two threads\<close>

text \<open>
  How long each thread of \<open>Concurrent\<close> may take, in steps of its own: the real-time thread ends a
  cycle whatever the other does, and only waits for the chip (\<open>MainTask\<close>) delay it; the main thread is
  sent back to the top of the loop of \<open>receive_input\<close> (\<open>rpi_base/src/rpi_base.cpp\<close>) only by
  increments of \<open>m_atomiccounter\<close>. No thread ever waits for the other.
\<close>

subsection \<open>Schedules\<close>

text \<open>The runs in which the threads make their steps in a given order.\<close>

fun sched :: "('p \<Rightarrow> 's \<Rightarrow> 's \<Rightarrow> bool) \<Rightarrow> 'p list \<Rightarrow> 's \<Rightarrow> 's \<Rightarrow> bool" where
  "sched step [] s t \<longleftrightarrow> t = s"
| "sched step (p # ps) s t \<longleftrightarrow> (\<exists>u. step p s u \<and> sched step ps u t)"

lemma sched_append: "sched step (ps @ qs) s t \<longleftrightarrow> (\<exists>u. sched step ps s u \<and> sched step qs u t)"
  by (induction ps arbitrary: s) auto

text \<open>
  A measure \<open>need\<close> of the steps that a thread still has to make until its \<open>score\<close> grows; the steps of
  others, and its own, may put it up, but no more than they put up \<open>cost\<close>.
\<close>

locale progress =
  fixes step :: "'p \<Rightarrow> 's \<Rightarrow> 's \<Rightarrow> bool" and own :: 'p and inv :: "'s \<Rightarrow> bool"
    and need :: "'s \<Rightarrow> nat" and cost :: "'s \<Rightarrow> nat" and score :: "'s \<Rightarrow> nat"
  assumes inv_step: "inv s \<Longrightarrow> step p s t \<Longrightarrow> inv t"
    and need_pos: "inv s \<Longrightarrow> 0 < need s"
    and score_step: "inv s \<Longrightarrow> step p s t \<Longrightarrow> score s \<le> score t"
    and own_step: "inv s \<Longrightarrow> step own s t \<Longrightarrow> score s = score t \<Longrightarrow> need t + cost s < need s + cost t"
    and other_step: "inv s \<Longrightarrow> step p s t \<Longrightarrow> p \<noteq> own \<Longrightarrow> score s = score t \<Longrightarrow>
      need t + cost s \<le> need s + cost t"
    and enabled: "inv s \<Longrightarrow> \<exists>t. step own s t"
begin

lemma sched_account:
  "sched step ps s t \<Longrightarrow> inv s \<Longrightarrow> inv t \<and> score s \<le> score t \<and>
     (score s = score t \<longrightarrow> need t + count_list ps own + cost s \<le> need s + cost t)"
proof (induction ps arbitrary: s)
  case Nil
  then show ?case by simp
next
  case (Cons p ps)
  from Cons.prems(1) obtain u where u: "step p s u" "sched step ps u t" by auto
  note first = score_step [OF Cons.prems(2) u(1)]
  note rest = Cons.IH [OF u(2) inv_step [OF Cons.prems(2) u(1)]]
  show ?case
  proof (cases "p = own")
    case True
    with rest first own_step [OF Cons.prems(2)] u(1) show ?thesis by fastforce
  next
    case False
    with rest first other_step [OF Cons.prems(2) u(1)] show ?thesis by fastforce
  qed
qed

lemma score_grows:
  assumes "sched step ps s t" and "inv s" and "need s + (cost t - cost s) \<le> count_list ps own"
  shows "score s < score t"
proof (rule ccontr)
  assume "\<not> score s < score t"
  with sched_account [OF assms(1,2)] need_pos [of t] assms(3) show False by auto
qed

lemma alone: "inv s \<Longrightarrow> \<exists>t. sched step (replicate n own) s t"
proof (induction n arbitrary: s)
  case 0
  show ?case by (intro exI [of _ s]) simp
next
  case (Suc n)
  from enabled [OF Suc.prems] obtain u where u: "step own s u" by blast
  from Suc.IH [OF inv_step [OF Suc.prems u]] u show ?case by auto
qed

end

subsection \<open>The steps to go\<close>

definition writer_left :: "seq_sys \<Rightarrow> nat" where
  "writer_left p = (case wr p of W_idle \<Rightarrow> 0 | W_copy d k \<Rightarrow> 5 - k)"

definition consumer_left :: "ring_sys \<Rightarrow> nat" where
  "consumer_left q = (case consumer q of C_copy i k \<Rightarrow> 5 - k | _ \<Rightarrow> 0)"

definition reader_left :: "seq_sys \<Rightarrow> nat" where
  "reader_left p = (case rd p of R_start \<Rightarrow> 6 | R_done c \<Rightarrow> 0
     | R_copy c k \<Rightarrow> (5 - k) + (if c = counter p then 0 else 6))"

definition producer_left :: "ring_sys \<Rightarrow> nat" where
  "producer_left q = (case producer q of P_idle \<Rightarrow> 0 | P_copy xs k \<Rightarrow> 6 - k | P_advance \<Rightarrow> 1)"

definition rt_need :: "conc \<Rightarrow> nat" where
  "rt_need s = (case rt_at s of T_top \<Rightarrow> 14 | T_read \<Rightarrow> writer_left (io s) + 8 | T_load \<Rightarrow> 7
     | T_write \<Rightarrow> consumer_left (oring s) + 1)"

definition main_need :: "conc \<Rightarrow> nat" where
  "main_need s = (case main_at s of M_top \<Rightarrow> 8 | M_receive t \<Rightarrow> reader_left (io s) + 1 | M_send xs \<Rightarrow> 16
     | M_put \<Rightarrow> producer_left (oring s) + 9)"

lemma writer_move_left: "wr p \<noteq> W_idle \<Longrightarrow> writer_move p q \<Longrightarrow> writer_left q < writer_left p"
  by (auto simp: writer_left_def writer_move_def elim!: seq_stepE)

lemma consumer_move_left:
  "consumer_move p q \<Longrightarrow> (\<exists>i k. consumer p = C_copy i k) \<Longrightarrow> consumer_left q < consumer_left p"
  by (auto simp: consumer_left_def consumer_move_def elim!: ring_stepE)

lemma reader_move_left: "\<not> read_over p \<Longrightarrow> reader_move p q \<Longrightarrow> reader_left q < reader_left p"
  by (auto simp: reader_left_def reader_move_def elim!: seq_stepE)

lemma producer_move_left: "producer p \<noteq> P_idle \<Longrightarrow> producer_move p q \<Longrightarrow> producer_left q < producer_left p"
  by (auto simp: producer_left_def producer_move_def elim!: ring_stepE)

subsection \<open>Neither thread is ever blocked by the other\<close>

lemma writer_can_move:
  assumes "writer_inv p" and "wr p \<noteq> W_idle"
  shows "\<exists>q. writer_move p q"
proof -
  obtain d k where "wr p = W_copy d k" "k \<le> 4"
    using assms by (cases "wr p") (simp_all add: writer_inv_def)
  then have "writer_move p (if k = 4 then write_end d p else write_word d k p)"
    by (simp add: writer_move_def solo_steps)
  then show ?thesis ..
qed

lemma reader_can_move:
  assumes "reader_inv p" and "\<not> read_over p"
  shows "\<exists>q. reader_move p q"
proof (cases "rd p")
  case R_start
  then have "reader_move p (read_start p)" by (simp add: reader_move_def solo_steps)
  then show ?thesis ..
next
  case (R_copy c k)
  then have "k \<le> 4" using assms(1) by (simp add: reader_inv_def)
  then show ?thesis
    using R_copy solo_steps(2,3) [of p] r_retry [of p c]
    by (cases "k = 4"; cases "c = counter p") (fastforce simp: reader_move_def)+
qed (use assms(2) in simp)

lemma producer_can_move:
  assumes "producer_inv q" and "producer q \<noteq> P_idle"
  shows "\<exists>r. producer_move q r"
proof (cases "producer q")
  case (P_copy xs k)
  then have "k \<le> 4" "unat (curqidx q) < length (slots q)" using assms(1) by (simp_all add: producer_inv_def)
  then have "producer_move q (if k = 4 then put_publish xs q else put_word xs k q)"
    using P_copy by (simp add: producer_move_def ring_move_steps)
  then show ?thesis ..
next
  case P_advance
  then have "producer_move q (put_advance q)" by (simp add: producer_move_def ring_move_steps)
  then show ?thesis ..
qed (use assms(2) in simp)

lemma consumer_can_move:
  assumes "consumer_inv q" and "producer_inv q"
  shows "\<exists>r. consumer_move q r"
proof -
  have len: "length (slots q) = 10" "unat (curqoutidx q) < 10"
    using assms(2) by (simp_all add: producer_inv_def)
  show ?thesis
  proof (cases "consumer q")
    case (C_copy i k)
    then have "k \<le> 4" "unat i < 10" using assms(1) by (simp_all add: consumer_inv_def)
    then have "consumer_move q (if k = 4 then take_end q else take_word i k q)"
      using C_copy by (simp add: consumer_move_def ring_move_steps len)
    then show ?thesis ..
  qed (use solo_take_work(1) [of q] len in auto)
qed

text \<open>There is even a step that is no wait.\<close>

lemma rt_can_move:
  assumes "conc_inv s"
  shows "\<exists>t. rt_step s t \<and> waits t = waits s"
proof -
  from assms have i: "writer_inv (io s)" "consumer_inv (oring s)" "producer_inv (oring s)"
    by (simp_all add: conc_inv_def part_inv_def)
  show ?thesis
  proof (cases "rt_at s")
    case T_top
    then show ?thesis using t_skip [of s] by (intro exI) auto
  next
    case T_read
    show ?thesis
    proof (cases "wr (io s) = W_idle")
      case True
      with T_read t_read_end [of s] show ?thesis by (intro exI) auto
    next
      case False
      then obtain q where "writer_move (io s) q" using writer_can_move [OF i(1)] by blast
      with T_read False t_read [of s q] show ?thesis by (intro exI) auto
    qed
  next
    case T_load
    obtain q where "consumer_move (oring s) q" using consumer_can_move [OF i(2,3)] by blast
    with T_load t_load [of s q] show ?thesis by (intro exI) auto
  next
    case T_write
    show ?thesis
    proof (cases "consumer (oring s) = C_done")
      case True
      with T_write t_sent [of s] show ?thesis by (intro exI) auto
    next
      case False
      obtain q where "consumer_move (oring s) q" using consumer_can_move [OF i(2,3)] by blast
      with T_write False t_write [of s q] show ?thesis by (intro exI) auto
    qed
  qed
qed

lemma rt_enabled: "conc_inv s \<Longrightarrow> \<exists>t. conc_step Rt_turn s t"
  using rt_can_move by (auto simp: conc_turn_steps)

lemma main_enabled:
  assumes "conc_inv s"
  shows "\<exists>t. conc_step Main_turn s t"
proof -
  from assms have i: "reader_inv (io s)" "producer_inv (oring s)" and place: "main_place s"
    by (simp_all add: conc_inv_def part_inv_def)
  have "\<exists>t. main_step s t"
  proof (cases "main_at s")
    case M_top
    then show ?thesis using m_time by blast
  next
    case (M_receive u)
    then show ?thesis using m_read m_taken reader_can_move [OF i(1)] read_over_cases by metis
  next
    case (M_send xs)
    then have p: "producer (oring s) = P_idle" "length xs = 4" using place by (simp_all add: main_place_def)
    then have "unat (curqidx (oring s)) < length (slots (oring s))" using i(2) by (simp add: producer_inv_def)
    from solo_put_work(1) [OF p this] M_send show ?thesis
      using m_begin [of s xs "put_begin xs (oring s)"] by auto
  next
    case M_put
    then show ?thesis using m_put m_end producer_can_move [OF i(2)] by metis
  qed
  then show ?thesis by (simp add: conc_turn_steps)
qed

subsection \<open>The measures\<close>

lemma conc_step_inv: "conc_inv s \<Longrightarrow> conc_step p s t \<Longrightarrow> conc_inv t"
  using conc.Inv_step any_step_def by blast

lemma conc_step_scores:
  assumes "conc_step p s t"
  shows "length (sent s) \<le> length (sent t)" and "length (taken s) \<le> length (taken t)"
  using assms by (auto simp: conc_step_def elim!: main_stepE rt_stepE split: turn.splits)

text \<open>A step of the real-time thread brings it nearer to its next message, or is a wait that is counted.\<close>

lemma rt_step_need:
  assumes "rt_step s t" and "conc_inv s" and "length (sent s) = length (sent t)"
  shows "rt_need t + waits s < rt_need s + waits t"
  using assms(1)
proof (cases rule: rt_step.cases)
  case t_wait
  then show ?thesis by (simp add: rt_need_def split: rt_pc.split)
next
  case (t_begin q)
  then have "writer_left q \<le> 5" by (auto simp: writer_left_def split: writer.split)
  with t_begin show ?thesis by (simp add: rt_need_def)
next
  case (t_read q)
  then show ?thesis using writer_move_left [OF t_read(3,4)] by (simp add: rt_need_def)
next
  case (t_load q)
  then have "consumer_left q \<le> 5" by (auto simp: consumer_left_def split: consumer.split)
  with t_load show ?thesis by (simp add: rt_need_def)
next
  case (t_write q)
  then have "\<exists>i k. consumer (oring s) = C_copy i k"
    using assms(2) by (cases "consumer (oring s)") (simp_all add: conc_inv_def rt_place_def)
  with t_write consumer_move_left show ?thesis by (simp add: rt_need_def)
qed (use assms(3) in \<open>simp_all add: rt_need_def\<close>)

lemma rt_step_leaves: "main_step s t \<Longrightarrow> rt_need t = rt_need s \<and> waits t = waits s"
  by (auto simp: rt_need_def writer_left_def consumer_left_def reader_move_def producer_move_def
      elim!: main_stepE split: rt_pc.split)

lemma main_step_need:
  assumes "main_step s t" and "length (taken s) = length (taken t)"
  shows "main_need t < main_need s" and "ticks (io t) = ticks (io s)"
proof -
  show "main_need t < main_need s"
    using assms(1)
  proof (cases rule: main_step.cases)
    case (m_read u q)
    then show ?thesis using reader_move_left [OF m_read(3,4)] by (simp add: main_need_def)
  next
    case (m_put q)
    then show ?thesis using producer_move_left [OF m_put(3,4)] by (simp add: main_need_def)
  qed (use assms(2) in \<open>simp_all add: main_need_def reader_left_def producer_left_def\<close>)
  show "ticks (io t) = ticks (io s)"
    using assms(1) by (auto elim!: main_stepE dest: reader_move_frame)
qed

text \<open>An increment of the counter sends the reader back at most once.\<close>

lemma main_step_costs:
  assumes "rt_step s t"
  shows "main_need t + 6 * ticks (io s) \<le> main_need s + 6 * ticks (io t)"
proof -
  have w: "reader_left q + 6 * ticks p \<le> reader_left p + 6 * ticks q" "ticks p \<le> ticks q"
    if "writer_move p q" for p q
  proof -
    have t: "ticks q = ticks p \<and> counter q = counter p \<or> ticks q = Suc (ticks p)"
      using that unfolding writer_move_def by (auto elim!: seq_stepE)
    then show "ticks p \<le> ticks q" by auto
    have "reader_left q = reader_left p" if "counter q = counter p"
      using that writer_move_frame(1) [OF \<open>writer_move p q\<close>]
      by (simp add: reader_left_def split: reader.split)
    moreover have "reader_left q \<le> reader_left p + 6"
      using writer_move_frame(1) [OF that] by (simp add: reader_left_def split: reader.split)
    ultimately show "reader_left q + 6 * ticks p \<le> reader_left p + 6 * ticks q"
      using t by fastforce
  qed
  have m: "main_at t = main_at s" "producer_left (oring t) = producer_left (oring s)"
    using assms by (auto elim!: rt_stepE dest: consumer_move_frame simp: producer_left_def)
  have "io t = io s \<or> writer_move (io s) (io t)" using assms by (auto elim!: rt_stepE)
  then have "reader_left (io t) + 6 * ticks (io s) \<le> reader_left (io s) + 6 * ticks (io t)"
    "ticks (io s) \<le> ticks (io t)"
    using w by auto
  with m show ?thesis by (simp add: main_need_def split: main_pc.split)
qed

interpretation rt: progress conc_step Rt_turn conc_inv rt_need waits "\<lambda>s. length (sent s)"
proof unfold_locales
  fix s assume "conc_inv s"
  then show "0 < rt_need s" by (simp add: rt_need_def split: rt_pc.split)
next
  fix s t assume "conc_inv s" "conc_step Rt_turn s t" "length (sent s) = length (sent t)"
  then show "rt_need t + waits s < rt_need s + waits t" using rt_step_need by (simp add: conc_turn_steps)
next
  fix s p t assume "conc_step p s t" "p \<noteq> Rt_turn"
  then have "main_step s t" by (cases p) (simp_all add: conc_turn_steps)
  then show "rt_need t + waits s \<le> rt_need s + waits t" using rt_step_leaves by auto
qed (auto intro: conc_step_inv conc_step_scores rt_enabled)

interpretation reading: progress conc_step Main_turn conc_inv main_need "\<lambda>s. 6 * ticks (io s)"
  "\<lambda>s. length (taken s)"
proof unfold_locales
  fix s assume "conc_inv s"
  then show "0 < main_need s" by (simp add: main_need_def split: main_pc.split)
next
  fix s t assume "conc_step Main_turn s t" "length (taken s) = length (taken t)"
  then show "main_need t + 6 * ticks (io s) < main_need s + 6 * ticks (io t)"
    using main_step_need by (simp add: conc_turn_steps)
next
  fix s p t assume "conc_step p s t" "p \<noteq> Main_turn"
  then have "rt_step s t" by (cases p) (simp_all add: conc_turn_steps)
  then show "main_need t + 6 * ticks (io s) \<le> main_need s + 6 * ticks (io t)" by (rule main_step_costs)
qed (auto intro: conc_step_inv conc_step_scores main_enabled)

lemma need_bounds: "rt_need s \<le> 14" "main_need s \<le> 16"
proof -
  have "writer_left (io s) \<le> 5" "consumer_left (oring s) \<le> 5"
    by (simp_all add: writer_left_def consumer_left_def split: writer.split consumer.split)
  then show "rt_need s \<le> 14" by (simp add: rt_need_def split: rt_pc.split)
  have "reader_left (io s) \<le> 11" "producer_left (oring s) \<le> 6"
    by (auto simp: reader_left_def producer_left_def split: reader.split producer.split)
  then show "main_need s \<le> 16" by (simp add: main_need_def split: main_pc.split)
qed

lemma count_replicate: "count_list (replicate n p) p = n"
  by (induction n) simp_all

subsection \<open>The delay has no bound of its own\<close>

text \<open>The real-time thread alone ends its cycle.\<close>

lemma rt_to_top:
  "conc_inv s \<Longrightarrow> \<exists>n t. sched conc_step (replicate n Rt_turn) s t \<and> rt_at t = T_top \<and> conc_inv t \<and>
     main_at t = main_at s \<and> rd (io t) = rd (io s) \<and> taken t = taken s"
proof (induction "rt_need s" arbitrary: s rule: less_induct)
  case less
  show ?case
  proof (cases "rt_at s = T_top")
    case True
    with less.prems show ?thesis by (intro exI [of _ 0] exI [of _ s]) simp
  next
    case False
    obtain u where u: "rt_step s u" "waits u = waits s" using rt_can_move [OF less.prems] by blast
    then have inv: "conc_inv u" using conc_step_inv [OF less.prems, of Rt_turn] by (simp add: conc_turn_steps)
    have same: "main_at u = main_at s" "rd (io u) = rd (io s)" "taken u = taken s"
      using u(1) by (auto elim!: rt_stepE dest: writer_move_frame)
    have sched: "sched conc_step (replicate (Suc n) Rt_turn) s t"
      if "sched conc_step (replicate n Rt_turn) u t" for n t
      using that u by (auto simp: conc_turn_steps)
    show ?thesis
    proof (cases "rt_at u = T_top")
      case True
      with inv same sched [of 0 u] show ?thesis by (intro exI [of _ "Suc 0"] exI [of _ u]) simp
    next
      case down: False
      then have "sent u = sent s" using u(1) by (auto elim!: rt_stepE)
      then have "rt_need u < rt_need s" using rt_step_need [OF u(1) less.prems] u(2) by simp
      from less.hyps [OF this inv] same sched show ?thesis by metis
    qed
  qed
qed

text \<open>A state in which the reader is at the top of its loop and the writer between two cycles. A
  publication that begins during the copy sends the reader back to such a state.\<close>

definition at_loop_top :: "conc \<Rightarrow> bool" where
  "at_loop_top s \<longleftrightarrow> conc_inv s \<and> (\<exists>u. main_at s = M_receive u) \<and> rd (io s) = R_start \<and> rt_at s = T_top"

text \<open>Five steps of a reader that nobody disturbs: the counter and the four words.\<close>

definition copied :: "seq_sys \<Rightarrow> seq_sys" where
  "copied p = (let c = counter p in read_word c 3 (read_word c 2 (read_word c 1 (read_word c 0 (read_start p)))))"

lemma five_reads:
  assumes "main_at s = M_receive u" and "rd (io s) = R_start"
  shows "sched conc_step (replicate 5 Main_turn) s (s\<lparr>io := copied (io s)\<rparr>)"
proof -
  define c where "c = counter (io s)"
  define q0 where "q0 = read_start (io s)"
  define q4 where "q4 = read_word c 3 (read_word c 2 (read_word c 1 (read_word c 0 q0)))"
  define s4 where "s4 = s\<lparr>io := q4\<rparr>"
  have read: "conc_step Main_turn (s\<lparr>io := p\<rparr>) (s\<lparr>io := q\<rparr>)" if "read_work p q" for p q
    using that assms(1) m_read [of "s\<lparr>io := p\<rparr>" u q] by (simp add: conc_turn_steps read_work_def)
  have steps: "read_work (io s) q0" "read_work q0 (read_word c 0 q0)"
    "read_work (read_word c 0 q0) (read_word c 1 (read_word c 0 q0))"
    "read_work (read_word c 1 (read_word c 0 q0)) (read_word c 2 (read_word c 1 (read_word c 0 q0)))"
    "read_work (read_word c 2 (read_word c 1 (read_word c 0 q0))) q4"
    using assms(2) by (simp_all add: read_work_def reader_move_def solo_steps q4_def q0_def c_def)
  note steps [THEN read]
  then have "sched conc_step (replicate 5 Main_turn) s s4" by (simp add: numeral_eq_Suc s4_def) blast
  then show ?thesis by (simp add: s4_def q4_def q0_def c_def copied_def Let_def)
qed

lemma thwarted_attempt:
  assumes "at_loop_top s"
  shows "\<exists>ps t. sched conc_step ps s t \<and> 1 \<le> count_list ps Main_turn \<and> taken t = taken s \<and> at_loop_top t"
proof -
  from assms obtain u where s: "conc_inv s" "main_at s = M_receive u" "rd (io s) = R_start" "rt_at s = T_top"
    by (auto simp: at_loop_top_def)
  then have w: "wr (io s) = W_idle" by (simp add: conc_inv_def rt_place_def)
  define c where "c = counter (io s)"
  define q0 where "q0 = read_start (io s)"
  define q4 where "q4 = read_word c 3 (read_word c 2 (read_word c 1 (read_word c 0 q0)))"
  define s4 where "s4 = s\<lparr>io := q4\<rparr>"
  define s5 where "s5 = s4\<lparr>rt_at := T_read, io := write_start 0 q4\<rparr>"
  define s6 where "s6 = s5\<lparr>io := (write_start 0 q4)\<lparr>rd := R_start\<rparr>\<rparr>"
  have copy: "sched conc_step (replicate 5 Main_turn) s s4"
    using five_reads [OF s(2,3)] by (simp add: s4_def q4_def q0_def c_def copied_def Let_def)
  have "rt_step s4 s5" unfolding s5_def
    using t_begin [of s4 "write_start 0 q4"] w s(4)
    by (simp add: s4_def writer_move_def solo_steps q4_def q0_def)
  then have pub: "sched conc_step [Rt_turn] s4 s5" by (simp add: conc_turn_steps)
  have "seq_step (write_start 0 q4) ((write_start 0 q4)\<lparr>rd := R_start\<rparr>)"
    by (rule r_retry [of _ c]) (simp_all add: q4_def q0_def c_def)
  then have "reader_move (io s5) ((write_start 0 q4)\<lparr>rd := R_start\<rparr>)"
    by (simp add: reader_move_def s5_def)
  then have "main_step s5 s6"
    using m_read [of s5 u "(write_start 0 q4)\<lparr>rd := R_start\<rparr>"] s(2)
    by (simp add: s6_def s5_def s4_def q4_def)
  then have retry: "sched conc_step [Main_turn] s5 s6" by (simp add: conc_turn_steps)
  have run: "sched conc_step (replicate 5 Main_turn @ [Rt_turn] @ [Main_turn]) s s6"
    using copy pub retry unfolding sched_append by blast
  from reading.sched_account [OF this s(1)] have "conc_inv s6" by blast
  moreover have s6: "main_at s6 = M_receive u" "rd (io s6) = R_start" "taken s6 = taken s"
    using s(2) by (simp_all add: s6_def s5_def s4_def)
  ultimately obtain n t where t: "sched conc_step (replicate n Rt_turn) s6 t" "at_loop_top t" "taken t = taken s"
    using rt_to_top [of s6] by (auto simp: at_loop_top_def)
  have "sched conc_step (replicate 5 Main_turn @ [Rt_turn] @ [Main_turn] @ replicate n Rt_turn) s t"
    using run t(1) unfolding sched_append by blast
  moreover have "1 \<le> count_list (replicate 5 Main_turn @ [Rt_turn] @ [Main_turn] @ replicate n Rt_turn) Main_turn"
    by simp
  ultimately show ?thesis using t(2,3) by blast
qed

text \<open>So there is no number of its own steps after which \<open>receive_input\<close> must have returned.\<close>

lemma receive_input_not_wait_free:
  "at_loop_top s \<Longrightarrow> \<exists>ps t. sched conc_step ps s t \<and> n \<le> count_list ps Main_turn \<and> taken t = taken s \<and> at_loop_top t"
proof (induction n)
  case 0
  then show ?case by (intro exI [of _ "[]"] exI [of _ s]) simp
next
  case (Suc n)
  then obtain ps t where t: "sched conc_step ps s t" "n \<le> count_list ps Main_turn" "taken t = taken s" "at_loop_top t"
    by blast
  from thwarted_attempt [OF t(4)] obtain qs v where
    v: "sched conc_step qs t v" "1 \<le> count_list qs Main_turn" "taken v = taken t" "at_loop_top v" by blast
  from t v have "sched conc_step (ps @ qs) s v" unfolding sched_append by blast
  with t v show ?case by (intro exI [of _ "ps @ qs"] exI [of _ v]) simp
qed

subsection \<open>Properties\<close>

text \<open>The waits do happen: before a cycle there may be any number of them.\<close>

lemma waits_unbounded:
  "rt_at s = T_top \<Longrightarrow> sched conc_step (replicate n Rt_turn) s (s\<lparr>waits := waits s + n\<rparr>)"
proof (induction n arbitrary: s)
  case 0
  show ?case by simp
next
  case (Suc n)
  have "rt_step s (s\<lparr>waits := Suc (waits s)\<rparr>)" using Suc.prems by (intro t_wait) (simp add: may_wait_def)
  moreover from Suc.IH [of "s\<lparr>waits := Suc (waits s)\<rparr>"] Suc.prems
  have "sched conc_step (replicate n Rt_turn) (s\<lparr>waits := Suc (waits s)\<rparr>) (s\<lparr>waits := waits s + Suc n\<rparr>)"
    by simp
  ultimately show ?case by (auto simp: conc_turn_steps)
qed

lemma moves_without_waits:
  "conc_inv s \<Longrightarrow> \<exists>t. sched conc_step (replicate n Rt_turn) s t \<and> waits t = waits s"
proof (induction n arbitrary: s)
  case 0
  show ?case by (intro exI [of _ s]) simp
next
  case (Suc n)
  from rt_can_move [OF Suc.prems] obtain u where u: "conc_step Rt_turn s u" "waits u = waits s"
    by (auto simp: conc_turn_steps)
  from Suc.IH [OF conc_step_inv [OF Suc.prems u(1)]] u show ?case by auto
qed

text \<open>C10: The real-time thread never waits for the main thread, only for the chip: in every state that
  the two threads can reach it has a next step that is not a wait, and in every interleaving it has sent a
  message when it has made 14 steps of its own and one for each of its waits in the same time (a reading of a
  status register that shows busy, a look for an interrupt that has not come), however many steps the main
  thread has made and wherever it stopped. How often the chip makes it wait has no bound here.\<close>

theorem real_time_thread_waits_only_for_chip:
  assumes "reach conc_init any_step s"
  shows "(\<exists>t. conc_step Rt_turn s t \<and> waits t = waits s) \<and>
    (\<forall>ps t. sched conc_step ps s t \<and> 14 + (waits t - waits s) \<le> count_list ps Rt_turn \<longrightarrow>
       length (sent s) < length (sent t))"
proof -
  from conc.reach_Inv [OF assms] have i: "conc_inv s" .
  moreover have "length (sent s) < length (sent t)"
    if "sched conc_step ps s t" "14 + (waits t - waits s) \<le> count_list ps Rt_turn" for ps t
    using rt.score_grows [OF that(1) i] that(2) need_bounds(1) [of s] by simp
  ultimately show ?thesis using rt_can_move by (auto simp: conc_turn_steps)
qed

theorem real_time_thread_waits_only_for_chip_witness:
  "\<exists>s t u. reach conc_init any_step s \<and> rd (io s) = R_start \<and> main_at s = M_receive 7 \<and>
     sched conc_step (replicate 5 Rt_turn) s t \<and> waits t = waits s + 5 \<and>
     sched conc_step (replicate 14 Rt_turn) t u \<and> waits u = waits t \<and> length (sent s) < length (sent u)"
proof -
  let ?s = "conc_start\<lparr>main_at := M_receive 7, io := (io conc_start)\<lparr>rd := R_start\<rparr>\<rparr>"
  let ?t = "?s\<lparr>waits := waits ?s + 5\<rparr>"
  have "main_step conc_start ?s" by (rule m_time) (simp add: conc_start_def)
  then have r: "reach conc_init any_step ?s"
    using reach_step [OF reach_init [of conc_init, OF conc_start_init]] by (simp add: any_step_cases)
  have five: "sched conc_step (replicate 5 Rt_turn) ?s ?t"
    by (rule waits_unbounded) (simp add: conc_start_def)
  then have "conc_inv ?t" using rt.sched_account conc.reach_Inv [OF r] by blast
  from moves_without_waits [OF this] obtain u where
    u: "sched conc_step (replicate 14 Rt_turn) ?t u" "waits u = waits ?t" by blast
  have "sched conc_step (replicate 5 Rt_turn @ replicate 14 Rt_turn) ?s u"
    unfolding sched_append using five u(1) by blast
  moreover have "count_list (replicate 5 Rt_turn @ replicate 14 Rt_turn) Rt_turn = 19"
    unfolding count_list_append count_replicate by simp
  moreover have "waits u = waits ?s + 5" using u(2) by simp
  ultimately have "length (sent ?s) < length (sent u)"
    using real_time_thread_waits_only_for_chip [OF r] by fastforce
  with r five u show ?thesis by (intro exI [of _ ?s] exI [of _ ?t] exI [of _ u]) simp
qed

text \<open>C11: The main thread is never blocked, and only the increments of the counter delay its input:
  in every interleaving a call of \<open>receive_input\<close> has returned when the main thread has made 16 steps
  and 6 for every increment that the real-time thread has made in the same time.\<close>

theorem receive_input_delayed_by_increments:
  assumes "reach conc_init any_step s" and "sched conc_step ps s t"
    and "16 + 6 * (ticks (io t) - ticks (io s)) \<le> count_list ps Main_turn"
  shows "(\<exists>u. conc_step Main_turn s u) \<and> length (taken s) < length (taken t)"
proof -
  from conc.reach_Inv [OF assms(1)] have i: "conc_inv s" .
  with reading.score_grows [OF assms(2) i] assms(3) need_bounds(2) [of s] main_enabled [OF i]
  show ?thesis by (simp add: diff_mult_distrib2)
qed

theorem receive_input_delayed_by_increments_witness:
  "\<exists>t. reach conc_init any_step conc_start \<and> sched conc_step (replicate 16 Main_turn) conc_start t \<and>
     length (taken conc_start) < length (taken t)"
proof -
  have r: "reach conc_init any_step conc_start" using conc_start_init by (rule reach_init)
  from reading.alone [OF conc.reach_Inv [OF r]] obtain t where
    t: "sched conc_step (replicate 16 Main_turn) conc_start t" by blast
  have "ticks (io v) = ticks (io u)" if "sched conc_step (replicate n Main_turn) u v" for n u v
    using that
  proof (induction n arbitrary: u)
    case (Suc n)
    then obtain w where "main_step u w" "sched conc_step (replicate n Main_turn) w v"
      by (auto simp: conc_turn_steps)
    with Suc.IH show ?case by (auto elim!: main_stepE dest: reader_move_frame)
  qed simp
  with t have "ticks (io t) = ticks (io conc_start)" by blast
  then have "16 + 6 * (ticks (io t) - ticks (io conc_start)) \<le> count_list (replicate 16 Main_turn) Main_turn"
    unfolding count_replicate by simp
  with receive_input_delayed_by_increments [OF r t] r t show ?thesis by blast
qed

end
