(* ===== verification/Shield_Object.thy ===== *)
theory Shield_Object
  imports Slave_System Board
begin

section \<open>The shield as an object\<close>

text \<open>
  The public operations of \<open>etherberry_9252\<close> and of its base class that act on the object
  (\<open>include/shield_9252/shield_9252.h\<close>, \<open>include/rpi_base/rpi_base.h\<close>), in any order, between its
  constructor and its destructor. The static keyboard functions are in \<open>Console\<close>.
\<close>

subsection \<open>The interface of an object\<close>

text \<open>Calls that, when they are well-typed, always return and keep the invariant of the class; each
  adds its \<open>weight\<close> to a \<open>tally\<close>.\<close>

locale object_calls =
  fixes run :: "'c \<Rightarrow> 's \<Rightarrow> 's option" and ok :: "'c \<Rightarrow> bool" and inv :: "'s \<Rightarrow> bool"
    and tally :: "'s \<Rightarrow> 'n::comm_monoid_add" and weight :: "'c \<Rightarrow> 'n"
  assumes call_total: "ok c \<Longrightarrow> inv s \<Longrightarrow>
    \<exists>s'. run c s = Some s' \<and> inv s' \<and> tally s' = tally s + weight c"
begin

lemma calls_total:
  "\<forall>c \<in> set cs. ok c \<Longrightarrow> inv s \<Longrightarrow>
   \<exists>s'. fold_option run cs s = Some s' \<and> inv s' \<and> tally s' = tally s + sum_list (map weight cs)"
proof (induction cs arbitrary: s)
  case Nil
  then show ?case by simp
next
  case (Cons c cs)
  then obtain s1 where s1: "run c s = Some s1" "inv s1" "tally s1 = tally s + weight c"
    using call_total [of c s] by auto
  with Cons.IH [of s1] Cons.prems(1) show ?case by (auto simp: add.assoc)
qed

end

subsection \<open>The calls\<close>

datatype shield_call = Call_init | Call_send "u64 list" | Call_receive | Call_bashoutput
  | Call_milisleep int | Call_execute nat

text \<open>\<open>execute_fromthread\<close> never returns; \<open>Call_execute n\<close> stands for \<open>n\<close> of its rounds.\<close>

definition run_call :: "'w platform \<Rightarrow> 'f fpu \<Rightarrow> ('f \<Rightarrow> string) \<Rightarrow> shield_call \<Rightarrow>
    'f etherberry_9252 \<times> 'w machine \<Rightarrow> ('f etherberry_9252 \<times> 'w machine) option" where
  "run_call E F fmt c = (\<lambda>(ob, m). case c of
     Call_init \<Rightarrow> do { (status, ob, m) \<leftarrow> init E ob m; Some (ob, m) }
   | Call_send source \<Rightarrow> do { ob \<leftarrow> send_output source ob; Some (ob, m) }
   | Call_receive \<Rightarrow> do { b \<leftarrow> receive_input ob; Some (ob, m) }
   | Call_bashoutput \<Rightarrow> do { (ob, line) \<leftarrow> bashoutput fmt ob; Some (ob, m) }
   | Call_milisleep miliseconds \<Rightarrow> (let (r, m) = milisleep E miliseconds m in Some (ob, m))
   | Call_execute n \<Rightarrow> execute_fromthread n E F ob m)"

text \<open>The type of a call: \<open>send_output\<close> reads four words behind its pointer.\<close>

definition call_ok :: "shield_call \<Rightarrow> bool" where
  "call_ok c = (case c of Call_send source \<Rightarrow> 4 \<le> length source | _ \<Rightarrow> True)"

fun call_rounds :: "shield_call \<Rightarrow> nat" where
  "call_rounds (Call_execute n) = n"
| "call_rounds c = 0"

text \<open>The invariant of the class: the arrays have their sizes, the indices are in range and no
  publication is open.\<close>

definition shield_ok :: "('f, 'x) rpi_base_scheme \<Rightarrow> bool" where
  "shield_ok ob \<longleftrightarrow> ring_bounds ob \<and> length (outbuffer ob) = 256 \<and> length (numeric ob) = 64 \<and>
     even (unat (m_atomiccounter ob))"

subsection \<open>Each call\<close>

lemma send_loop_take:
  "send_loop i n xs ob = send_loop i n (take n xs) ob"
  by (induction i n xs ob rule: send_loop.induct) (auto split: bind_splits)

lemma send_output_take: "send_output xs ob = send_output (take 4 xs) ob"
  unfolding send_output_def using send_loop_take [of 0 4 xs ob] by simp

lemma send_output_ok:
  assumes "shield_ok ob" and "4 \<le> length xs"
  shows "\<exists>ob'. send_output xs ob = Some ob' \<and> shield_ok ob' \<and> m_count ob' = m_count ob"
proof -
  from assms have b: "ring_bounds ob" "length (take 4 xs) = 4" by (simp_all add: shield_ok_def)
  from send_output_ring [OF b] obtain ob' where
    "send_output (take 4 xs) ob = Some ob'" "ring_inv ob'" by blast
  with send_output_eq [OF b] assms(1) show ?thesis
    by (auto simp: send_output_take [of xs] shield_ok_def ring_inv_def)
qed

lemma bashoutput_ok:
  assumes "shield_ok ob" and "short_numbers fmt"
  shows "\<exists>ob' line. bashoutput fmt ob = Some (ob', line) \<and> shield_ok ob' \<and> m_count ob' = m_count ob"
proof -
  obtain ob' line where run: "bashoutput fmt ob = Some (ob', line)"
    using bashoutput_outcome [of ob fmt] status_text_short [OF assms(2), of ob] assms
    by (auto simp: short_numbers_def shield_ok_def)
  from bashoutput_frame [OF this] obtain out n where "ob' = ob\<lparr>outbuffer := out, numeric := n\<rparr>"
    "length out = length (outbuffer ob)" "length n = length (numeric ob)"
    unfolding same_but_text_def by blast
  with run assms(1) show ?thesis by (simp add: shield_ok_def ring_bounds_def wf_object_def)
qed

lemma init_ok:
  assumes "shield_ok ob" and "init E ob m = Some (status, ob', m')"
  shows "shield_ok ob' \<and> m_count ob' = m_count ob"
proof -
  obtain h where "ob' = (case h of None \<Rightarrow> ob | Some x \<Rightarrow> ob\<lparr>m_devhndl := x\<rparr>)"
    using init_emits [OF assms(2)] by blast
  with assms(1) show ?thesis
    by (cases h) (simp_all add: shield_ok_def ring_bounds_def wf_object_def)
qed

lemma even_plus_2: "even (unat (w + 2 :: u32)) = even (unat w)"
  by (simp add: unat_word_ariths dvd_mod_iff)

lemma round_ok:
  assumes "shield_ok ob" and "execute_round E F ob m = Some (ob', m')"
  shows "shield_ok ob' \<and> m_count ob' = m_count ob + 1"
proof -
  from execute_round_emits [OF assms(2)] obtain as code ob1 a b where c: "cycle_spec ob as code ob1"
    and ob': "ob' = record_times F a b ob1" by blast
  have "m_atomiccounter ob1 = m_atomiccounter ob \<or> m_atomiccounter ob1 = m_atomiccounter ob + 2"
    "m_count ob1 = m_count ob"
    using c by (auto elim!: cycle_specE)
  then show ?thesis
    using assms(1) cycle_spec_ring(1) [OF c] cycle_spec_text [OF c]
    by (auto simp: shield_ok_def ob' record_times_frame even_plus_2) (simp_all add: record_times_def Let_def)
qed

lemma rounds_ok:
  assumes "responsive E P"
  shows "shield_ok ob \<Longrightarrow> P (env m) \<Longrightarrow>
     \<exists>ob' m'. execute_fromthread n E F ob m = Some (ob', m') \<and> shield_ok ob' \<and> P (env m') \<and>
     m_count ob' = m_count ob + of_nat n"
proof (induction n arbitrary: ob m)
  case 0
  then show ?case by simp
next
  case (Suc n)
  from Suc.prems have "ring_bounds ob" by (simp add: shield_ok_def)
  from execute_round_returns [OF assms Suc.prems(2) this] obtain ob1 m1 where
    r: "execute_round E F ob m = Some (ob1, m1)" "P (env m1)" by blast
  with Suc.IH [of ob1 m1] round_ok [OF Suc.prems(1) r(1)] show ?case by auto
qed

text \<open>Between two calls the object is in its invariant and the chip at rest.\<close>

definition call_inv :: "'w platform \<Rightarrow> ('w \<Rightarrow> bool) \<Rightarrow> ('f \<Rightarrow> string) \<Rightarrow>
    'f etherberry_9252 \<times> 'w machine \<Rightarrow> bool" where
  "call_inv E P fmt s \<longleftrightarrow>
     shield_ok (fst s) \<and> P (env (snd s)) \<and> responsive E P \<and> short_numbers fmt"

lemma run_call_ok:
  assumes "call_ok c" and s: "call_inv E P fmt s"
  shows "\<exists>s'. run_call E F fmt c s = Some s' \<and> call_inv E P fmt s' \<and>
     m_count (fst s') = m_count (fst s) + of_nat (call_rounds c)"
proof -
  obtain ob m where eq: "s = (ob, m)" by (cases s)
  with s have o: "shield_ok ob" "responsive E P" "short_numbers fmt" "P (env m)"
    by (simp_all add: call_inv_def)
  note calm = responsive_undisturbed [OF o(2)]
  have "\<exists>ob' m'. run_call E F fmt c (ob, m) = Some (ob', m') \<and> shield_ok ob' \<and> P (env m') \<and>
      m_count ob' = m_count ob + of_nat (call_rounds c)"
  proof (cases c)
    case Call_init
    note set = spi_init_undisturbed [OF calm o(4)]
    from init_returns_if [OF o(2) set] set obtain st ob1 m1 where
      i: "init E ob m = Some (st, ob1, m1)" "P (env m1)" by blast
    with init_ok [OF o(1) i(1)] Call_init show ?thesis by (simp add: run_call_def)
  next
    case (Call_send xs)
    with send_output_ok [OF o(1), of xs] assms(1) o(4) show ?thesis by (auto simp: run_call_def call_ok_def)
  next
    case Call_receive
    with o(1,4) show ?thesis by (simp add: run_call_def receive_input_eq)
  next
    case Call_bashoutput
    with bashoutput_ok [OF o(1,3)] o(4) show ?thesis by (auto simp: run_call_def)
  next
    case (Call_milisleep n)
    obtain r m1 where n: "milisleep E n m = (r, m1)" by fastforce
    with Call_milisleep o(1) milisleep_undisturbed [OF calm n o(4)] show ?thesis by (simp add: run_call_def)
  next
    case (Call_execute n)
    with rounds_ok [OF o(2,1,4), of n F] show ?thesis by (auto simp: run_call_def)
  qed
  with s show ?thesis by (auto simp: eq call_inv_def)
qed

interpretation shield: object_calls "run_call E F fmt" call_ok "call_inv E P fmt" "\<lambda>s. m_count (fst s)"
  "\<lambda>c. of_nat (call_rounds c)" for E P F fmt
  by unfold_locales (rule run_call_ok)

lemma sum_rounds:
  "sum_list (map (\<lambda>c. of_nat (call_rounds c)) cs) = (of_nat (sum_list (map call_rounds cs)) :: u64)"
  by (induction cs) simp_all

text \<open>A call that is not well-typed leaves its array.\<close>

lemma send_loop_short: "length xs < n \<Longrightarrow> send_loop i n xs ob = None"
  by (induction i n xs ob rule: send_loop.induct) (auto split: bind_splits)

lemma run_call_typed:
  assumes "run_call E F fmt c s = Some s'"
  shows "call_ok c"
proof (rule ccontr)
  assume "\<not> call_ok c"
  then obtain xs where "c = Call_send xs" "length xs < 4" by (cases c) (simp_all add: call_ok_def)
  then have "run_call E F fmt c s = None"
    by (simp add: run_call_def send_output_def send_loop_short split: prod.split)
  with assms show False by simp
qed

lemma calls_typed: "fold_option (run_call E F fmt) cs s = Some s' \<Longrightarrow> \<forall>c \<in> set cs. call_ok c"
  by (induction cs arbitrary: s) (auto simp: bind_Some_iff dest: run_call_typed)

subsection \<open>Properties\<close>



end
