(* ===== verification/Stat_Race.thy ===== *)
theory Stat_Race
  imports Console
begin

section \<open>The status line while the statistics change\<close>

text \<open>
  \<open>bashoutput\<close> (main thread, \<open>rpi_base/src/rpi_base.cpp\<close>) prints five members of a statistic one after
  the other while \<open>stattool::calc\<close> (real-time thread, \<open>rt_utilities/src/rt_utilities.cpp\<close>) may be
  changing them, without a lock. Here the two run interleaved, a statement of \<open>calc\<close> or a printed
  member at a time. \<open>measured\<close> (the measurements whose call of \<open>calc\<close> has returned), \<open>seen\<close> (how many they were when the
  line began) are history and are not read by any step.
\<close>

subsection \<open>The two programs\<close>

text \<open>The statements of \<open>calc\<close>; each stores at most one member.\<close>

definition calc_steps :: "'f fpu \<Rightarrow> 'f \<Rightarrow> ('f STATBUFFER \<Rightarrow> 'f STATBUFFER) list" where
  "calc_steps F value =
     [\<lambda>s. s\<lparr>cur := value\<rparr>,
      \<lambda>s. if count s = 0 then s\<lparr>vmin := value\<rparr> else if fless F (vmax s) value then s\<lparr>vmax := value\<rparr> else s,
      \<lambda>s. if count s = 0 then s\<lparr>vmax := value\<rparr> else if fless F value (vmin s) then s\<lparr>vmin := value\<rparr> else s,
      \<lambda>s. s\<lparr>vrange := fsub F (vmax s) (vmin s)\<rparr>,
      \<lambda>s. s\<lparr>ic_sum := fadd F (ic_sum s) value\<rparr>,
      \<lambda>s. s\<lparr>ic_sum2 := fadd F (ic_sum2 s) (fmul F value value)\<rparr>,
      \<lambda>s. s\<lparr>count := count s + 1\<rparr>,
      \<lambda>s. s\<lparr>vmean := fdiv F (ic_sum s) (of_ull F (count s))\<rparr>,
      \<lambda>s. s\<lparr>vstddev := fzero F\<rparr>,
      \<lambda>s. let sqrtval = fdiv F (fsub F (ic_sum2 s)
                  (fdiv F (fmul F (ic_sum s) (ic_sum s)) (of_ull F (count s)))) (of_ull F (count s - 1))
          in if 1 < count s \<and> fless F (fzero F) sqrtval then s\<lparr>vstddev := fsqrt F sqrtval\<rparr> else s]"

definition partial_calc :: "'f fpu \<Rightarrow> 'f \<Rightarrow> nat \<Rightarrow> 'f STATBUFFER \<Rightarrow> 'f STATBUFFER" where
  "partial_calc F value k s = fold (\<lambda>f. f) (take k (calc_steps F value)) s"

text \<open>The members that the status line shows, in its order.\<close>

definition stat_fields :: "('f STATBUFFER \<Rightarrow> 'f) list" where
  "stat_fields = [vmean, vrange, vstddev, vmax, vmin]"

text \<open>\<open>calc_at\<close> is the measurement of the call in work and the number of its statements that have run.\<close>

record 'f stat_sys =
  sbuf :: "'f STATBUFFER"
  calc_at :: "('f \<times> nat) option"
  line :: "'f list"
  measured :: "'f list"
  seen :: nat

inductive stat_step :: "'f fpu \<Rightarrow> 'f stat_sys \<Rightarrow> 'f stat_sys \<Rightarrow> bool" for F where
  s_call: "calc_at s = None \<Longrightarrow> stat_step F s (s\<lparr>calc_at := Some (v, 0)\<rparr>)"
| s_statement: "calc_at s = Some (v, k) \<Longrightarrow> k < 10 \<Longrightarrow>
    stat_step F s (s\<lparr>sbuf := (calc_steps F v ! k) (sbuf s), calc_at := Some (v, Suc k)\<rparr>)"
| s_return: "calc_at s = Some (v, 10) \<Longrightarrow> stat_step F s (s\<lparr>calc_at := None, measured := measured s @ [v]\<rparr>)"
| s_line: "stat_step F s (s\<lparr>line := [], seen := length (measured s)\<rparr>)"
| s_print: "length (line s) < 5 \<Longrightarrow>
    stat_step F s (s\<lparr>line := line s @ [(stat_fields ! length (line s)) (sbuf s)]\<rparr>)"

inductive_cases stat_stepE: "stat_step F s t"

definition stat_init :: "'f fpu \<Rightarrow> 'f stat_sys \<Rightarrow> bool" where
  "stat_init F s \<longleftrightarrow> sbuf s = reset F \<and> calc_at s = None \<and> line s = [] \<and> measured s = [] \<and> seen s = 0"

text \<open>The statements make up \<open>calc\<close>, and the line of \<open>bashoutput\<close> shows these members of both statistics.\<close>

lemma length_calc_steps: "length (calc_steps F v) = 10"
  by (simp add: calc_steps_def)

lemma partial_calc_all: "partial_calc F v 10 s = calc F v s"
  by (simp add: partial_calc_def calc_steps_def calc_def calc_extremes_def calc_sums_def calc_stddev_def Let_def)

lemma partial_calc_Suc: "k < 10 \<Longrightarrow> partial_calc F v (Suc k) s = (calc_steps F v ! k) (partial_calc F v k s)"
  by (simp add: partial_calc_def take_Suc_conv_app_nth length_calc_steps)

lemma bashoutput_shows_fields:
  "vmean (m_period ob) # map snd (more_fields ob) =
     map (\<lambda>f. f (m_period ob)) stat_fields @ map (\<lambda>f. f (m_runtime ob)) stat_fields"
  by (simp add: more_fields_def stat_fields_def)

subsection \<open>A member while \<open>calc\<close> is at work\<close>

lemma upto_10:
  assumes "k \<le> (10 :: nat)"
  obtains "k = 0" | "k = 1" | "k = 2" | "k = 3" | "k = 4" | "k = 5" | "k = 6" | "k = 7" | "k = 8" | "k = 9" | "k = 10"
proof -
  from assms have "k = 0 \<or> k = 1 \<or> k = 2 \<or> k = 3 \<or> k = 4 \<or> k = 5 \<or> k = 6 \<or> k = 7 \<or> k = 8 \<or> k = 9 \<or> k = 10"
    by presburger
  then show thesis using that by blast
qed

text \<open>Every member but the deviation is stored once.\<close>

lemma partial_members:
  assumes "k \<le> 10"
  shows "vmean (partial_calc F v k s) \<in> {vmean s, vmean (calc F v s)}"
    and "vrange (partial_calc F v k s) \<in> {vrange s, vrange (calc F v s)}"
    and "vstddev (partial_calc F v k s) \<in> {vstddev s, vstddev (calc F v s), fzero F}"
    and "vmax (partial_calc F v k s) \<in> {vmax s, vmax (calc F v s)}"
    and "vmin (partial_calc F v k s) \<in> {vmin s, vmin (calc F v s)}"
  using assms unfolding partial_calc_all [symmetric]
  by (cases rule: upto_10; simp add: partial_calc_def calc_steps_def Let_def)+

lemma partial_member:
  assumes "k \<le> 10" and "i < 5"
  shows "(stat_fields ! i) (partial_calc F v k s) \<in> {(stat_fields ! i) s, (stat_fields ! i) (calc F v s)} \<or>
     i = 2 \<and> (stat_fields ! i) (partial_calc F v k s) = fzero F"
proof -
  from assms(2) consider "i = 0" | "i = 1" | "i = 2" | "i = 3" | "i = 4" by linarith
  then show ?thesis using partial_members [OF assms(1), of F v s] by cases (auto simp: stat_fields_def)
qed

subsection \<open>The invariant\<close>

text \<open>A printed number is that of a time not before the line began, or the zero of the deviation.\<close>

definition shown_at :: "'f fpu \<Rightarrow> 'f list \<Rightarrow> nat \<Rightarrow> nat \<Rightarrow> 'f \<Rightarrow> bool" where
  "shown_at F xs n i x \<longleftrightarrow>
     (\<exists>j. n \<le> j \<and> j \<le> length xs \<and> x = (stat_fields ! i) (stat_run F (take j xs))) \<or> i = 2 \<and> x = fzero F"

definition in_work :: "'f stat_sys \<Rightarrow> 'f list" where
  "in_work s = (case calc_at s of None \<Rightarrow> [] | Some (v, k) \<Rightarrow> [v])"

definition stat_inv :: "'f fpu \<Rightarrow> 'f stat_sys \<Rightarrow> bool" where
  "stat_inv F s \<longleftrightarrow>
     sbuf s = (case calc_at s of None \<Rightarrow> stat_run F (measured s)
       | Some (v, k) \<Rightarrow> partial_calc F v k (stat_run F (measured s))) \<and>
     (\<forall>v k. calc_at s = Some (v, k) \<longrightarrow> k \<le> 10) \<and> length (line s) \<le> 5 \<and> seen s \<le> length (measured s) \<and>
     (\<forall>i < length (line s). shown_at F (measured s @ in_work s) (seen s) i (line s ! i))"

lemma shown_at_more: "shown_at F xs n i x \<Longrightarrow> shown_at F (xs @ ys) n i x"
  unfolding shown_at_def by (metis le_add1 le_trans length_append take_append diff_is_0_eq append_Nil2 take0)

lemma member_shown:
  assumes "stat_inv F s" and "i < 5"
  shows "shown_at F (measured s @ in_work s) (seen s) i ((stat_fields ! i) (sbuf s))"
proof (cases "calc_at s")
  case None
  with assms(1) have "sbuf s = stat_run F (take (length (measured s)) (measured s @ in_work s))"
    "seen s \<le> length (measured s)" by (simp_all add: stat_inv_def)
  then show ?thesis unfolding shown_at_def by (metis le_add1 length_append)
next
  case (Some c)
  obtain v k where c: "calc_at s = Some (v, k)" using Some by (cases c) simp
  with assms(1) have b: "sbuf s = partial_calc F v k (stat_run F (measured s))" "k \<le> 10"
    "seen s \<le> length (measured s)" "in_work s = [v]" by (auto simp: stat_inv_def in_work_def)
  let ?n = "length (measured s)" and ?xs = "measured s @ in_work s"
  have old: "shown_at F ?xs (seen s) i ((stat_fields ! i) (stat_run F (measured s)))"
    unfolding shown_at_def using b(3) by (intro disjI1 exI [of _ ?n]) simp
  have new: "shown_at F ?xs (seen s) i ((stat_fields ! i) (calc F v (stat_run F (measured s))))"
    unfolding shown_at_def using b(3,4) by (intro disjI1 exI [of _ "Suc ?n"]) simp
  show ?thesis
    using partial_member [OF b(2) assms(2), of F v "stat_run F (measured s)"] old new
    unfolding b(1) by (auto simp: shown_at_def)
qed

interpretation stat: step_invariant "stat_init F" "stat_step F" "stat_inv F" for F
proof unfold_locales
  fix s assume "stat_init F s"
  then show "stat_inv F s" by (simp add: stat_init_def stat_inv_def)
next
  fix s t assume inv: "stat_inv F s" and "stat_step F s t"
  from this(2) show "stat_inv F t"
  proof (cases rule: stat_step.cases)
    case (s_call v)
    with inv show ?thesis by (simp add: stat_inv_def in_work_def shown_at_more partial_calc_def)
  next
    case (s_statement v k)
    with inv show ?thesis by (simp add: stat_inv_def in_work_def partial_calc_Suc)
  next
    case (s_return v)
    with inv show ?thesis by (simp add: stat_inv_def in_work_def partial_calc_all)
  next
    case s_line
    with inv show ?thesis by (simp add: stat_inv_def split: option.splits)
  next
    case s_print
    with inv member_shown [OF inv s_print(2)] show ?thesis
      by (auto simp: stat_inv_def in_work_def nth_append less_Suc_eq split: option.splits)
  qed
qed

subsection \<open>Runs\<close>

lemma calc_so_far:
  assumes "reach (stat_init F) (stat_step F) s" and "calc_at s = None"
  shows "k \<le> 10 \<Longrightarrow> reach (stat_init F) (stat_step F) (s\<lparr>sbuf := partial_calc F v k (sbuf s), calc_at := Some (v, k)\<rparr>)"
proof (induction k)
  case 0
  have "s\<lparr>sbuf := partial_calc F v 0 (sbuf s), calc_at := Some (v, 0)\<rparr> = s\<lparr>calc_at := Some (v, 0)\<rparr>"
    by (simp add: partial_calc_def)
  with reach_step [OF assms(1) s_call [OF assms(2)]] show ?case by simp
next
  case (Suc k)
  let ?s = "s\<lparr>sbuf := partial_calc F v k (sbuf s), calc_at := Some (v, k)\<rparr>"
  have "stat_step F ?s (?s\<lparr>sbuf := (calc_steps F v ! k) (sbuf ?s), calc_at := Some (v, Suc k)\<rparr>)"
    using Suc.prems by (intro s_statement) simp_all
  moreover have "?s\<lparr>sbuf := (calc_steps F v ! k) (sbuf ?s), calc_at := Some (v, Suc k)\<rparr> =
      s\<lparr>sbuf := partial_calc F v (Suc k) (sbuf s), calc_at := Some (v, Suc k)\<rparr>"
    using Suc.prems by (simp add: partial_calc_Suc)
  ultimately show ?case using Suc reach_step [of "stat_init F" "stat_step F" ?s] by simp
qed

lemma whole_calc:
  assumes "reach (stat_init F) (stat_step F) s" and "calc_at s = None"
  shows "reach (stat_init F) (stat_step F) (s\<lparr>sbuf := calc F v (sbuf s), measured := measured s @ [v]\<rparr>)"
proof -
  let ?s = "s\<lparr>sbuf := partial_calc F v 10 (sbuf s), calc_at := Some (v, 10)\<rparr>"
  have "stat_step F ?s (?s\<lparr>calc_at := None, measured := measured ?s @ [v]\<rparr>)" by (rule s_return) simp
  with reach_step [OF calc_so_far [OF assms, of 10 v]]
  have "reach (stat_init F) (stat_step F) (?s\<lparr>calc_at := None, measured := measured ?s @ [v]\<rparr>)" by simp
  moreover have "?s\<lparr>calc_at := None, measured := measured ?s @ [v]\<rparr> =
      s\<lparr>sbuf := calc F v (sbuf s), measured := measured s @ [v]\<rparr>"
    using assms(2) by (simp add: partial_calc_all)
  ultimately show ?thesis by simp
qed

text \<open>Two measurements, then two members of a line; the third measurement has come as far as the
  statement that clears the deviation.\<close>

definition two_measured :: "real stat_sys" where
  "two_measured = \<lparr>sbuf = stat_run real_fpu [1, 3], calc_at = None,
     line = map (\<lambda>f. f (stat_run real_fpu [1, 3])) [vmean, vrange], measured = [1, 3], seen = 2\<rparr>"

definition third_at_work :: "real stat_sys" where
  "third_at_work = two_measured\<lparr>sbuf := partial_calc real_fpu 2 9 (stat_run real_fpu [1, 3]), calc_at := Some (2, 9)\<rparr>"

lemma stat_runs:
  "reach (stat_init real_fpu) (stat_step real_fpu) two_measured"
  "reach (stat_init real_fpu) (stat_step real_fpu) third_at_work"
proof -
  let ?reach = "reach (stat_init real_fpu) (stat_step real_fpu)"
  define s0 :: "real stat_sys" where
    "s0 = \<lparr>sbuf = reset real_fpu, calc_at = None, line = [], measured = [], seen = 0\<rparr>"
  define s1 where "s1 = s0\<lparr>sbuf := calc real_fpu 1 (sbuf s0), measured := [1]\<rparr>"
  define s2 where "s2 = s1\<lparr>sbuf := calc real_fpu 3 (sbuf s1), measured := [1, 3]\<rparr>"
  define s3 where "s3 = s2\<lparr>line := [], seen := length (measured s2)\<rparr>"
  have "?reach s0" by (rule reach_init) (simp add: stat_init_def s0_def)
  from whole_calc [OF this, of 1] have "?reach s1" by (simp add: s1_def s0_def)
  from whole_calc [OF this, of 3] have "?reach s2" by (simp add: s2_def s1_def s0_def)
  from reach_step [OF this s_line] have r3: "?reach s3" by (simp add: s3_def)
  have "stat_step real_fpu s3 (s3\<lparr>line := [vmean (sbuf s3)]\<rparr>)"
    using s_print [of s3 real_fpu] by (simp add: s3_def stat_fields_def)
  from reach_step [OF r3 this] have r4: "?reach (s3\<lparr>line := [vmean (sbuf s3)]\<rparr>)" .
  have "stat_step real_fpu (s3\<lparr>line := [vmean (sbuf s3)]\<rparr>) (s3\<lparr>line := [vmean (sbuf s3), vrange (sbuf s3)]\<rparr>)"
    using s_print [of "s3\<lparr>line := [vmean (sbuf s3)]\<rparr>" real_fpu] by (simp add: stat_fields_def)
  from reach_step [OF r4 this] have "?reach (s3\<lparr>line := [vmean (sbuf s3), vrange (sbuf s3)]\<rparr>)" .
  moreover have "s3\<lparr>line := [vmean (sbuf s3), vrange (sbuf s3)]\<rparr> = two_measured"
    by (simp add: s3_def s2_def s1_def s0_def two_measured_def stat_run_def)
  ultimately show "?reach two_measured" by simp
  from calc_so_far [OF this, of 9 2] show "?reach third_at_work"
    by (simp add: third_at_work_def two_measured_def)
qed

lemma third_deviation: "vstddev (sbuf third_at_work) = 0"
  by (simp add: third_at_work_def partial_calc_def calc_steps_def)

lemma deviations_positive:
  "0 < vstddev (stat_run real_fpu [1, 3])" "0 < vstddev (stat_run real_fpu [1, 3, 2])"
  by (simp_all add: stat_run_def calc_def calc_extremes_def calc_sums_def calc_stddev_def reset_def Let_def)

text \<open>\<open>calc\<close> stores a zero in the deviation before it computes it, so the line may show a deviation
  of zero that was right at no time since it began.\<close>

lemma status_line_shows_zero:
  "\<exists>s. reach (stat_init real_fpu) (stat_step real_fpu) s \<and> length (line s) = 3 \<and> line s ! 2 = 0 \<and>
     (\<forall>j. seen s \<le> j \<longrightarrow> 0 < vstddev (stat_run real_fpu (take j (measured s @ in_work s))))"
proof -
  let ?s = "third_at_work\<lparr>line := line third_at_work @ [0]\<rparr>"
  have l: "length (line third_at_work) = 2" by (simp add: third_at_work_def two_measured_def)
  then have "stat_step real_fpu third_at_work ?s"
    using s_print [of third_at_work real_fpu] third_deviation by (simp add: stat_fields_def)
  with stat_runs(2) have "reach (stat_init real_fpu) (stat_step real_fpu) ?s" by (rule reach_step)
  moreover have "0 < vstddev (stat_run real_fpu (take j (measured ?s @ in_work ?s)))" if "seen ?s \<le> j" for j
  proof -
    have m: "measured ?s @ in_work ?s = [1, 3, 2]" "seen ?s = 2"
      by (simp_all add: in_work_def third_at_work_def two_measured_def)
    with that have "take j (measured ?s @ in_work ?s) = [1, 3] \<or> take j (measured ?s @ in_work ?s) = [1, 3, 2]"
      by (cases "j = 2") (simp_all add: take_Cons split: nat.split)
    with deviations_positive show ?thesis by auto
  qed
  ultimately show ?thesis using l by (intro exI [of _ ?s]) (simp add: nth_append)
qed

subsection \<open>Properties\<close>

text \<open>C33: What the status line shows while the statistics change: in every interleaving each of its
  numbers is the value of its member after some number of measurements that is not smaller than it
  was when the line began, so no number is older than the line or made up; only the deviation may
  be shown as zero instead.\<close>

theorem status_line_is_current:
  assumes "reach (stat_init F) (stat_step F) s" and "i < length (line s)"
  shows "length (line s) \<le> 5 \<and>
    ((\<exists>j. seen s \<le> j \<and> j \<le> length (measured s @ in_work s) \<and>
         line s ! i = (stat_fields ! i) (stat_run F (take j (measured s @ in_work s)))) \<or>
     i = 2 \<and> line s ! i = fzero F)"
  using stat.reach_Inv [OF assms(1)] assms(2) by (simp add: stat_inv_def shown_at_def)

theorem status_line_is_current_witness:
  "reach (stat_init real_fpu) (stat_step real_fpu) two_measured \<and> 0 < length (line two_measured) \<and>
   line two_measured ! 0 = 2 \<and> (\<exists>j. 2 \<le> j \<and> j \<le> 2 \<and> line two_measured ! 0 =
     vmean (stat_run real_fpu (take j [1, 3])))"
proof -
  have l: "0 < length (line two_measured)" "seen two_measured = 2" "measured two_measured = [1, 3]"
    "in_work two_measured = []"
    by (simp_all add: two_measured_def in_work_def)
  have "line two_measured ! 0 = 2"
    by (simp add: two_measured_def stat_run_def calc_def calc_extremes_def calc_sums_def calc_stddev_def reset_def Let_def)
  with stat_runs(1) status_line_is_current [OF stat_runs(1) l(1)] l show ?thesis
    by (auto simp: stat_fields_def)
qed

end
