(* ===== verification/Driver_Files.thy ===== *)
theory Driver_Files
  imports Gpioirq
begin

section \<open>The driver with several open files\<close>

text \<open>
  Any number of processes open, use and close the device of \<open>gpioirq_kdriver/gpioirq.c\<close>, and
  interrupts arrive at any time. Every open file has a context of its own, but there is one GPIO line.
  \<open>driver_open\<close> is taken in two parts: it registers the handler (\<open>driver_open_request\<close>) before it
  initialises the semaphore that the handler uses (\<open>driver_open_finish\<close>), and other calls and
  interrupts may come in between. The kernel calls \<open>driver_close\<close> only for a file whose
  \<open>driver_open\<close> succeeded.
\<close>

subsection \<open>The system\<close>

datatype phase = Opening | Opened

record drv_sys =
  drv :: drv
  files :: "nat \<Rightarrow> (phase \<times> open_file) option"

datatype file_op = F_request nat bool open_answers | F_finish nat | F_irq int | F_close nat

definition run_file_op :: "file_op \<Rightarrow> drv_sys \<Rightarrow> drv_sys option" where
  "run_file_op op s = (case op of
     F_request n writing A \<Rightarrow> do {
       (r, f, d) \<leftarrow> driver_open_request A \<lparr>write_mode = writing, private_data = None\<rparr> (drv s);
       Some (s\<lparr>drv := d, files := (if r = 0 then (files s)(n \<mapsto> (Opening, f)) else files s)\<rparr>)
     }
   | F_finish n \<Rightarrow> (case files s n of
       Some (Opening, f) \<Rightarrow> do {
         d \<leftarrow> driver_open_finish f (drv s);
         Some (s\<lparr>drv := d, files := (files s)(n \<mapsto> (Opened, f))\<rparr>)
       }
     | _ \<Rightarrow> Some s)
   | F_irq irq \<Rightarrow> do {
       d \<leftarrow> interrupt irq (drv s);
       Some (s\<lparr>drv := d\<rparr>)
     }
   | F_close n \<Rightarrow> (case files s n of
       Some (Opened, f) \<Rightarrow> do {
         (r, f, d) \<leftarrow> driver_close f (drv s);
         Some (s\<lparr>drv := d, files := (files s)(n := None)\<rparr>)
       }
     | _ \<Rightarrow> Some s))"

text \<open>The two parts are \<open>driver_open\<close>.\<close>

lemma open_parts:
  assumes "files s n = None"
  shows "fold_option run_file_op [F_request n writing A, F_finish n] s =
    do { (r, f, d) \<leftarrow> driver_open A \<lparr>write_mode = writing, private_data = None\<rparr> (drv s);
         Some (s\<lparr>drv := d, files := (if r = 0 then (files s)(n \<mapsto> (Opened, f)) else files s)\<rparr>) }"
proof (cases "driver_open_request A \<lparr>write_mode = writing, private_data = None\<rparr> (drv s)")
  case None
  then show ?thesis by (simp add: run_file_op_def driver_open_def)
next
  case (Some r)
  obtain e f d where r: "r = (e, f, d)" by (cases r)
  with Some assms show ?thesis
    by (cases "driver_open_finish f d") (simp_all add: run_file_op_def driver_open_def)
qed

text \<open>
  What the kernel may answer: memory that is not in use, or none; a line that was requested is not
  given again; an interrupt with a handler is not given again (the driver does not share it).
\<close>

definition kernel_allows :: "file_op \<Rightarrow> drv_sys \<Rightarrow> bool" where
  "kernel_allows op s \<longleftrightarrow> (case op of
     F_request n writing A \<Rightarrow> files s n = None \<and>
       (\<forall>md. ans_kzalloc A = Some md \<longrightarrow> contexts (drv s) md = None) \<and>
       (gpio_owned (drv s) \<longrightarrow> ans_gpio_request A \<noteq> 0) \<and>
       (handlers (drv s) (opened_irq A) \<noteq> None \<longrightarrow> ans_request_irq A \<noteq> 0)
   | _ \<Rightarrow> True)"

definition file_step :: "drv_sys \<Rightarrow> drv_sys \<Rightarrow> bool" where
  "file_step s t \<longleftrightarrow> (\<exists>op. kernel_allows op s \<and> run_file_op op s = Some t)"

definition files_init :: "drv_sys \<Rightarrow> bool" where
  "files_init s \<longleftrightarrow> files s = Map.empty \<and> handlers (drv s) = Map.empty"

text \<open>The two ways to crash: the memory of an open is not there, or an interrupt comes for a file that is
  being opened and has no semaphore yet.\<close>

definition crashes :: "file_op \<Rightarrow> drv_sys \<Rightarrow> bool" where
  "crashes op s \<longleftrightarrow> (case op of
     F_request n writing A \<Rightarrow> ans_kzalloc A = None
   | F_irq irq \<Rightarrow> (\<exists>n f md. files s n = Some (Opening, f) \<and> private_data f = Some md \<and>
       handlers (drv s) irq = Some md)
   | _ \<Rightarrow> False)"

subsection \<open>The invariant\<close>

text \<open>File \<open>n\<close> has the context at \<open>md\<close>, which is registered for the interrupt \<open>irq\<close>; its semaphore is
  initialised when the open has ended.\<close>

definition owns :: "drv_sys \<Rightarrow> nat \<Rightarrow> ptr \<Rightarrow> int \<Rightarrow> bool" where
  "owns s n md irq \<longleftrightarrow> (\<exists>ph f c. files s n = Some (ph, f) \<and> private_data f = Some md \<and>
     contexts (drv s) md = Some c \<and> irq_number c = irq \<and> (irq_lsigsema c = None \<longleftrightarrow> ph = Opening) \<and>
     handlers (drv s) irq = Some md)"

definition files_inv :: "drv_sys \<Rightarrow> bool" where
  "files_inv s \<longleftrightarrow>
     (\<forall>n. files s n \<noteq> None \<longrightarrow> (\<exists>md irq. owns s n md irq)) \<and>
     (\<forall>irq md. handlers (drv s) irq = Some md \<longrightarrow> (\<exists>n. owns s n md irq)) \<and>
     (\<forall>n m md i j. owns s n md i \<and> owns s m md j \<longrightarrow> n = m)"

lemma owns_unique: "owns s n md irq \<Longrightarrow> owns s n md' irq' \<Longrightarrow> md' = md \<and> irq' = irq"
  by (auto simp: owns_def)

lemma owns_handler: "owns s n md irq \<Longrightarrow> handlers (drv s) irq = Some md"
  by (auto simp: owns_def)

lemma fresh_not_owned: "contexts (drv s) md = None \<Longrightarrow> \<not> owns s n md irq"
  by (simp add: owns_def)

lemma file_owner:
  assumes "files_inv s" and "files s n = Some (ph, f)" and "private_data f = Some md"
  shows "\<exists>irq. owns s n md irq"
proof -
  obtain md' irq where o: "owns s n md' irq" using assms(1,2) unfolding files_inv_def by blast
  with assms(2,3) have "md' = md" by (auto simp: owns_def)
  with o show ?thesis by blast
qed

text \<open>The steps that change no owner.\<close>

lemma files_inv_same:
  assumes "files_inv s" and "\<And>n md irq. owns t n md irq = owns s n md irq"
    and "files t = files s" and "handlers (drv t) = handlers (drv s)"
  shows "files_inv t"
  using assms by (simp add: files_inv_def)

text \<open>An open that fails leaves a context that nobody owns.\<close>

lemma open_failed_inv:
  assumes "files_inv s" and "contexts (drv s) md = None"
  shows "files_inv (s\<lparr>drv := (drv s)\<lparr>contexts := (contexts (drv s))(md \<mapsto> c), gpio_owned := g\<rparr>\<rparr>)"
proof (rule files_inv_same [OF assms(1)])
  fix n md' irq
  have "handlers (drv s) irq \<noteq> Some md"
    using assms fresh_not_owned [OF assms(2)] unfolding files_inv_def by blast
  then show "owns (s\<lparr>drv := (drv s)\<lparr>contexts := (contexts (drv s))(md \<mapsto> c), gpio_owned := g\<rparr>\<rparr>) n md' irq =
      owns s n md' irq"
    using assms(2) by (auto simp: owns_def)
qed simp_all

text \<open>A registration adds an owner.\<close>

lemma request_inv:
  assumes "files_inv s" and "contexts (drv s) md = None" and "files s n = None"
    and "handlers (drv s) irq = None" and "irq_number c = irq" and "irq_lsigsema c = None"
    and "private_data f = Some md"
  shows "files_inv (s\<lparr>drv := (drv s)\<lparr>contexts := (contexts (drv s))(md \<mapsto> c), gpio_owned := g,
      handlers := (handlers (drv s))(irq \<mapsto> md)\<rparr>, files := (files s)(n \<mapsto> (Opening, f))\<rparr>)" (is "files_inv ?t")
proof -
  have o: "owns ?t m md' i \<longleftrightarrow> m = n \<and> md' = md \<and> i = irq \<or> owns s m md' i" for m md' i
  proof -
    have "private_data g \<noteq> Some md" if "files s k = Some (ph, g)" for k ph g
      using file_owner [OF assms(1) that] fresh_not_owned [OF assms(2)] by blast
    with assms(2-7) show ?thesis by (auto simp: owns_def)
  qed
  have "\<exists>md i. owns ?t m md i" if "files ?t m \<noteq> None" for m
    using that assms(1) by (cases "m = n") (auto simp: o files_inv_def)
  moreover have "\<exists>m. owns ?t m md' i" if "handlers (drv ?t) i = Some md'" for i md'
  proof (cases "i = irq")
    case True
    with that have "owns ?t n md' i" unfolding o by simp
    then show ?thesis ..
  next
    case False
    with that assms(1) show ?thesis unfolding o by (auto simp: files_inv_def)
  qed
  moreover have "m = k" if "owns ?t m md' i" "owns ?t k md' j" for m k md' i j
    using that assms(1) fresh_not_owned [OF assms(2)] unfolding o files_inv_def by blast
  ultimately show ?thesis unfolding files_inv_def by blast
qed

text \<open>The end of an open keeps the owner.\<close>

lemma finish_inv:
  assumes "files_inv s" and "files s n = Some (ph, f)" and "owns s n md irq"
    and "contexts (drv s) md = Some c" and "irq_number c' = irq_number c" and "irq_lsigsema c' \<noteq> None"
  shows "files_inv (s\<lparr>drv := (drv s)\<lparr>contexts := (contexts (drv s))(md \<mapsto> c')\<rparr>,
      files := (files s)(n \<mapsto> (Opened, f))\<rparr>)" (is "files_inv ?t")
proof -
  have f: "private_data f = Some md" "irq_number c = irq" using assms(2-4) by (auto simp: owns_def)
  have "owns ?t m md' i \<longleftrightarrow> owns s m md' i" for m md' i
  proof (cases "m = n")
    case True
    have "owns s n md' i \<longleftrightarrow> md' = md \<and> i = irq" using assms(3) owns_unique by blast
    moreover have "owns ?t n md' i \<longleftrightarrow> md' = md \<and> i = irq"
      using f assms(5,6) owns_handler [OF assms(3)] by (auto simp: owns_def)
    ultimately show ?thesis using True by simp
  next
    case False
    show ?thesis
    proof (cases "md' = md")
      case True
      have no: "\<not> owns s m md j" for j using assms(1,3) False unfolding files_inv_def by blast
      have "\<not> owns ?t m md i"
      proof
        assume "owns ?t m md i"
        then obtain ph g where "files s m = Some (ph, g)" "private_data g = Some md"
          using False by (auto simp: owns_def)
        from file_owner [OF assms(1) this] no show False by blast
      qed
      with no True show ?thesis by blast
    next
      case md: False
      with False show ?thesis by (simp add: owns_def)
    qed
  qed
  with assms(1,2) show ?thesis by (auto simp: files_inv_def)
qed

text \<open>A close takes the owner away.\<close>

lemma close_inv:
  assumes "files_inv s" and "owns s n md irq"
  shows "files_inv (s\<lparr>drv := (drv s)\<lparr>handlers := (handlers (drv s))(irq := None), gpio_owned := g,
      contexts := (contexts (drv s))(md := None)\<rparr>, files := (files s)(n := None)\<rparr>)" (is "files_inv ?t")
proof -
  have o: "owns ?t m md' i \<longleftrightarrow> m \<noteq> n \<and> owns s m md' i" for m md' i
  proof -
    have "md' \<noteq> md \<and> i \<noteq> irq" if "m \<noteq> n" "owns s m md' i"
      using assms that owns_handler [OF assms(2)] owns_handler [OF that(2)]
      unfolding files_inv_def by (metis option.inject)
    then show ?thesis by (auto simp: owns_def)
  qed
  have "\<exists>md i. owns ?t m md i" if "files ?t m \<noteq> None" for m
    using that assms(1) by (cases "m = n") (auto simp: o files_inv_def)
  moreover have "\<exists>m. owns ?t m md' i" if "handlers (drv ?t) i = Some md'" for i md'
  proof -
    from that have "i \<noteq> irq" "handlers (drv s) i = Some md'" by (auto split: if_splits)
    then obtain m where "owns s m md' i" using assms(1) unfolding files_inv_def by blast
    moreover have "m \<noteq> n" using \<open>i \<noteq> irq\<close> owns_unique [OF assms(2)] calculation by blast
    ultimately show ?thesis using o by blast
  qed
  moreover have "m = k" if "owns ?t m md' i" "owns ?t k md' j" for m k md' i j
    using that assms(1) unfolding o files_inv_def by blast
  ultimately show ?thesis unfolding files_inv_def by blast
qed

subsection \<open>Every operation\<close>

lemma request_outcome:
  assumes "files_inv s" and "kernel_allows (F_request n writing A) s"
  shows "if ans_kzalloc A = None then run_file_op (F_request n writing A) s = None
    else \<exists>t. run_file_op (F_request n writing A) s = Some t \<and> files_inv t"
proof (cases "ans_kzalloc A")
  case None
  then show ?thesis by (simp add: run_file_op_def driver_open_request_def)
next
  case (Some md)
  with assms(2) have A: "contexts (drv s) md = None" "files s n = None"
    "handlers (drv s) (opened_irq A) \<noteq> None \<longrightarrow> ans_request_irq A \<noteq> 0"
    by (auto simp: kernel_allows_def)
  note eq = driver_open_request_eq [OF Some, of "\<lparr>write_mode = writing, private_data = None\<rparr>" "drv s"]
  have c: "irq_number (named_context A) = opened_irq A" "irq_lsigsema (named_context A) = None"
    by (simp_all add: named_context_def zeroed_context_def)
  show ?thesis
  proof (cases "ans_request_irq A = 0")
    case True
    with A(3) have "handlers (drv s) (opened_irq A) = None" by blast
    from request_inv [OF assms(1) A(1,2) this c] True eq Some show ?thesis
      by (simp add: run_file_op_def Let_def)
  next
    case False
    with open_failed_inv [OF assms(1) A(1)] eq Some show ?thesis by (simp add: run_file_op_def Let_def)
  qed
qed

lemma finish_total:
  assumes "files_inv s"
  shows "\<exists>t. run_file_op (F_finish n) s = Some t \<and> files_inv t"
proof (cases "\<exists>f. files s n = Some (Opening, f)")
  case True
  then obtain f md irq where f: "files s n = Some (Opening, f)" and o: "owns s n md irq"
    using assms unfolding files_inv_def by blast
  then obtain c where c: "private_data f = Some md" "contexts (drv s) md = Some c" by (auto simp: owns_def)
  let ?c = "c\<lparr>wOpen := (if write_mode f then 1 else 0), irq_lsigsema := Some 0\<rparr>"
  have "run_file_op (F_finish n) s = Some (s\<lparr>drv := (drv s)\<lparr>contexts := (contexts (drv s))(md \<mapsto> ?c)\<rparr>,
      files := (files s)(n \<mapsto> (Opened, f))\<rparr>)"
    using f c by (simp add: run_file_op_def driver_open_finish_def upd_context_def)
  with finish_inv [OF assms f o c(2), of ?c] show ?thesis by simp
next
  case False
  with assms show ?thesis by (auto simp: run_file_op_def split: option.split phase.split)
qed

lemma interrupt_outcome:
  assumes "files_inv s"
  shows "if crashes (F_irq irq) s then run_file_op (F_irq irq) s = None
    else \<exists>t. run_file_op (F_irq irq) s = Some t \<and> files_inv t"
proof (cases "handlers (drv s) irq")
  case None
  with assms(1) show ?thesis by (simp add: run_file_op_def interrupt_def crashes_def)
next
  case (Some md)
  then obtain n where o: "owns s n md irq" using assms(1) unfolding files_inv_def by blast
  then obtain ph f c where c: "files s n = Some (ph, f)" "private_data f = Some md" "contexts (drv s) md = Some c"
    "irq_lsigsema c = None \<longleftrightarrow> ph = Opening"
    by (auto simp: owns_def)
  have "crashes (F_irq irq) s \<longleftrightarrow> ph = Opening"
  proof
    assume "crashes (F_irq irq) s"
    then obtain m g where g: "files s m = Some (Opening, g)" "private_data g = Some md"
      using Some by (auto simp: crashes_def)
    then have "m = n" using file_owner [OF assms] o assms unfolding files_inv_def by blast
    with g(1) c(1) show "ph = Opening" by simp
  qed (use c Some in \<open>auto simp: crashes_def\<close>)
  moreover have "run_file_op (F_irq irq) s = None" if "ph = Opening"
    using that c(3,4) Some by (simp add: run_file_op_def interrupt_def r_irq_handler_def)
  moreover have "\<exists>t. run_file_op (F_irq irq) s = Some t \<and> files_inv t" if "ph \<noteq> Opening"
  proof -
    from that c(4) obtain v where v: "irq_lsigsema c = Some v" by auto
    let ?t = "s\<lparr>drv := (drv s)\<lparr>contexts := (contexts (drv s))(md \<mapsto> c\<lparr>irq_lsigsema := Some (v + 1)\<rparr>)\<rparr>\<rparr>"
    have "files_inv ?t" by (rule files_inv_same [OF assms(1)]) (use c(3) v in \<open>auto simp: owns_def\<close>)
    moreover have "run_file_op (F_irq irq) s = Some ?t"
      using Some c(3) v by (simp add: run_file_op_def interrupt_def r_irq_handler_def upd_context_def)
    ultimately show ?thesis by blast
  qed
  ultimately show ?thesis by simp
qed

lemma close_total:
  assumes "files_inv s"
  shows "\<exists>t. run_file_op (F_close n) s = Some t \<and> files_inv t"
proof (cases "\<exists>f. files s n = Some (Opened, f)")
  case True
  then obtain f md irq where f: "files s n = Some (Opened, f)" and o: "owns s n md irq"
    using assms unfolding files_inv_def by blast
  then obtain c where c: "private_data f = Some md" "contexts (drv s) md = Some c" "irq_number c = irq"
    by (auto simp: owns_def)
  from close_inv [OF assms(1) o] driver_close_eq [OF c(1,2)] f c(3)
  show ?thesis by (simp add: run_file_op_def)
next
  case False
  with assms show ?thesis by (auto simp: run_file_op_def split: option.split phase.split)
qed

lemma file_op_outcome:
  assumes "files_inv s" and "kernel_allows op s"
  shows "if crashes op s then run_file_op op s = None else \<exists>t. run_file_op op s = Some t \<and> files_inv t"
proof (cases op)
  case (F_request n writing A)
  with request_outcome assms show ?thesis by (simp add: crashes_def)
next
  case (F_finish n)
  with finish_total [OF assms(1)] show ?thesis by (simp add: crashes_def)
next
  case (F_irq irq)
  with interrupt_outcome [OF assms(1)] show ?thesis by simp
next
  case (F_close n)
  with close_total [OF assms(1)] show ?thesis by (simp add: crashes_def)
qed

interpretation device: step_invariant files_init file_step files_inv
proof unfold_locales
  fix s assume "files_init s"
  then show "files_inv s" by (simp add: files_init_def files_inv_def owns_def)
next
  fix s t assume "files_inv s" "file_step s t"
  then obtain op where "kernel_allows op s" "run_file_op op s = Some t" by (auto simp: file_step_def)
  with file_op_outcome [OF \<open>files_inv s\<close>, of op] show "files_inv t" by (simp split: if_splits)
qed

subsection \<open>A first and a second file\<close>

definition no_files :: drv_sys where
  "no_files = \<lparr>drv = idle_drv, files = Map.empty\<rparr>"

text \<open>What the kernel answers to a second open: other memory, no line, and interrupt 0 is granted.\<close>

definition second_answers :: open_answers where
  "second_answers = \<lparr>ans_kzalloc = Some 16, ans_gpio_request = - 16, ans_gpio_to_irq = 61, ans_request_irq = 0\<rparr>"

lemma no_files_init: "files_init no_files"
  by (simp add: files_init_def no_files_def idle_drv_def)

lemma good_facts:
  "ans_kzalloc good_answers = Some 8" "ans_request_irq good_answers = 0" "opened_irq good_answers = 61"
  "ans_gpio_request good_answers = 0"
  by (simp_all add: good_answers_def opened_irq_def)

text \<open>A first file that is being opened, and one that is open.\<close>

definition opening_file :: drv_sys where
  "opening_file = \<lparr>drv = idle_drv\<lparr>contexts := [8 \<mapsto> named_context good_answers], gpio_owned := True,
       handlers := [61 \<mapsto> 8]\<rparr>, files = [1 \<mapsto> (Opening, \<lparr>write_mode = True, private_data = Some 8\<rparr>)]\<rparr>"

lemma opening_file_reached:
  "run_file_op (F_request 1 True good_answers) no_files = Some opening_file" "reach files_init file_step opening_file"
proof -
  show r: "run_file_op (F_request 1 True good_answers) no_files = Some opening_file"
    using driver_open_request_eq [OF good_facts(1), of "\<lparr>write_mode = True, private_data = None\<rparr>" idle_drv]
    by (simp add: run_file_op_def no_files_def opening_file_def good_facts Let_def idle_drv_def)
  have "kernel_allows (F_request 1 True good_answers) no_files"
    by (simp add: kernel_allows_def no_files_def idle_drv_def good_facts)
  with r have "file_step no_files opening_file" unfolding file_step_def by blast
  then show "reach files_init file_step opening_file"
    by (rule reach_step [OF reach_init [of files_init, OF no_files_init]])
qed

lemma opening_file_owner: "owns opening_file 1 8 61"
  by (simp add: owns_def opening_file_def named_context_def good_facts zeroed_context_def)

lemma first_file:
  obtains s where "reach files_init file_step s" "owns s 1 8 61" "gpio_owned (drv s)"
    "files s 1 = Some (Opened, \<lparr>write_mode = True, private_data = Some 8\<rparr>)"
    "kernel_allows (F_request 2 True second_answers) s"
proof -
  let ?c = "(named_context good_answers)\<lparr>wOpen := 1, irq_lsigsema := Some 0\<rparr>"
  let ?f = "\<lparr>write_mode = True, private_data = Some 8\<rparr>"
  define s where "s = opening_file\<lparr>drv := (drv opening_file)\<lparr>contexts := [8 \<mapsto> ?c]\<rparr>, files := [1 \<mapsto> (Opened, ?f)]\<rparr>"
  have "run_file_op (F_finish 1) opening_file = Some s"
    by (simp add: run_file_op_def s_def opening_file_def driver_open_finish_def upd_context_def)
  then have "file_step opening_file s" 
    unfolding file_step_def by (intro exI [of _ "F_finish 1"]) (simp add: kernel_allows_def)
  with reach_step [OF opening_file_reached(2)] have "reach files_init file_step s" by blast
  then show thesis
    by (rule that)
      (simp_all add: s_def opening_file_def owns_def named_context_def good_facts kernel_allows_def
        second_answers_def opened_irq_def idle_drv_def good_answers_def)
qed

subsection \<open>Properties\<close>

text \<open>C20: When the driver touches memory that is not there, and when not. In every state that processes,
  opening and closing the device in any order, and interrupts can lead to without a crash, each registered
  handler has the context of a file that is open, with an initialised semaphore, or that is being opened, with
  none yet. Whatever comes next as the kernel allows it, it crashes in exactly two cases: an open that gets no
  memory from \<open>kzalloc\<close> (its answer is not checked), and an interrupt for a file whose \<open>driver_open\<close> has registered
  the handler but not yet initialised the semaphore. Otherwise it is safe.\<close>

theorem driver_crashes_iff:
  assumes "reach files_init file_step s" and "kernel_allows op s"
  shows "(run_file_op op s = None \<longleftrightarrow>
      (\<exists>n writing A. op = F_request n writing A \<and> ans_kzalloc A = None) \<or>
      (\<exists>irq n f md. op = F_irq irq \<and> handlers (drv s) irq = Some md \<and> files s n = Some (Opening, f) \<and>
         private_data f = Some md)) \<and>
    (\<forall>irq md. handlers (drv s) irq = Some md \<longrightarrow>
       (\<exists>n ph f c. files s n = Some (ph, f) \<and> private_data f = Some md \<and> contexts (drv s) md = Some c \<and>
          irq_number c = irq \<and> (irq_lsigsema c = None \<longleftrightarrow> ph = Opening)))"
proof -
  from device.reach_Inv [OF assms(1)] have i: "files_inv s" .
  from file_op_outcome [OF i assms(2)] have "run_file_op op s = None \<longleftrightarrow> crashes op s"
    by (simp split: if_splits) (metis option.distinct(1))
  also have "\<dots> \<longleftrightarrow> (\<exists>n writing A. op = F_request n writing A \<and> ans_kzalloc A = None) \<or>
      (\<exists>irq n f md. op = F_irq irq \<and> handlers (drv s) irq = Some md \<and> files s n = Some (Opening, f) \<and>
         private_data f = Some md)"
    by (cases op) (auto simp: crashes_def)
  finally have c: "run_file_op op s = None \<longleftrightarrow> \<dots>" .
  have "\<exists>n ph f c. files s n = Some (ph, f) \<and> private_data f = Some md \<and> contexts (drv s) md = Some c \<and>
      irq_number c = irq \<and> (irq_lsigsema c = None \<longleftrightarrow> ph = Opening)" if "handlers (drv s) irq = Some md" for irq md
    using that i unfolding files_inv_def owns_def by meson
  with c show ?thesis by blast
qed

text \<open>An interrupt is safe for an open file, and not for one that is being opened.\<close>

theorem driver_crashes_iff_witness:
  "\<exists>s. reach files_init file_step s \<and> handlers (drv s) 61 = Some 8 \<and> run_file_op (F_irq 61) s \<noteq> None \<and>
     reach files_init file_step opening_file \<and> run_file_op (F_irq 61) opening_file = None"
proof -
  obtain s where s: "reach files_init file_step s" "owns s 1 8 61"
    "files s 1 = Some (Opened, \<lparr>write_mode = True, private_data = Some 8\<rparr>)"
    by (rule first_file)
  have ok: "kernel_allows (F_irq 61) u" for u by (simp add: kernel_allows_def)
  note h = owns_handler [OF s(2)] and h' = owns_handler [OF opening_file_owner]
  have "files opening_file 1 = Some (Opening, \<lparr>write_mode = True, private_data = Some 8\<rparr>)"
    by (simp add: opening_file_def)
  then have crash: "run_file_op (F_irq 61) opening_file = None"
    using driver_crashes_iff [OF opening_file_reached(2) ok] h' by fastforce
  have "m = 1" if "files s m = Some (Opening, f)" "private_data f = Some 8" for m f
    using file_owner [OF device.reach_Inv [OF s(1)] that] s(2) device.reach_Inv [OF s(1)]
    unfolding files_inv_def by blast
  then have "run_file_op (F_irq 61) s \<noteq> None"
    using driver_crashes_iff [OF s(1) ok] h s(3) by fastforce
  with s(1) h crash opening_file_reached(2) show ?thesis by blast
qed

text \<open>C39: A second file breaks the first one, if the kernel grants it interrupt 0. \<open>r_int_config\<close> gives up
  when the line is in use, but \<open>driver_open\<close> goes on with the interrupt number 0 of the cleared memory. When
  the kernel registers a handler for that number (Linux counts it as invalid: then the second open fails and
  nothing is freed, see \<open>second_open_refused\<close>), \<open>driver_close\<close> later frees a line that its file never got: after
  the second file was opened and closed the first file is still there and registered, but the GPIO line is
  free.\<close>

theorem second_file_frees_line:
  assumes "reach files_init file_step s" and "owns s n md irq" and "gpio_owned (drv s)"
    and "kernel_allows (F_request k writing A) s" and "ans_kzalloc A \<noteq> None" and "ans_request_irq A = 0"
  shows "\<exists>t u md'. fold_option run_file_op [F_request k writing A, F_finish k] s = Some t \<and> owns t k md' 0 \<and>
    run_file_op (F_close k) t = Some u \<and> owns u n md irq \<and> \<not> gpio_owned (drv u)"
proof -
  from assms(3-6) obtain md' where A: "ans_kzalloc A = Some md'" "contexts (drv s) md' = None" "files s k = None"
    "ans_gpio_request A \<noteq> 0" "handlers (drv s) (opened_irq A) = None"
    by (auto simp: kernel_allows_def)
  from A(4,5) have z: "opened_irq A = 0" "handlers (drv s) 0 = None" by (simp_all add: opened_irq_def)
  with owns_handler [OF assms(2)] have "irq \<noteq> 0" by auto
  from assms(2) A(2) have "md \<noteq> md'" by (auto simp: owns_def)
  from assms(2) A(3) have "n \<noteq> k" by (auto simp: owns_def)
  obtain t where t: "fold_option run_file_op [F_request k writing A, F_finish k] s = Some t"
    "drv t = (drv s)\<lparr>contexts := (contexts (drv s))(md' \<mapsto> (named_context A)\<lparr>wOpen := (if writing then 1 else 0),
        irq_lsigsema := Some 0\<rparr>), gpio_owned := True, handlers := (handlers (drv s))(0 \<mapsto> md')\<rparr>"
    "files t = (files s)(k \<mapsto> (Opened, \<lparr>write_mode = writing, private_data = Some md'\<rparr>))"
    using driver_open_eq [OF A(1) assms(6), of "\<lparr>write_mode = writing, private_data = None\<rparr>" "drv s"] A(4) assms(3) z(1)
      open_parts [OF A(3), of writing A]
    by (simp del: fold_option.simps) (metis drv_sys.select_convs)
  then have o: "owns t k md' 0" by (simp add: owns_def named_context_def z)
  have "run_file_op (F_close k) t = Some (t\<lparr>drv := (drv t)\<lparr>handlers := (handlers (drv t))(0 := None), gpio_owned := False,
      contexts := (contexts (drv t))(md' := None)\<rparr>, files := (files t)(k := None)\<rparr>)" (is "_ = Some ?u")
    using driver_close_eq [of "\<lparr>write_mode = writing, private_data = Some md'\<rparr>" md' "drv t"]
    by (simp add: run_file_op_def t(2,3) named_context_def z)
  moreover have "owns ?u n md irq"
    using assms(2) \<open>irq \<noteq> 0\<close> \<open>md \<noteq> md'\<close> \<open>n \<noteq> k\<close> by (simp add: owns_def t(2,3))
  ultimately show ?thesis using t(1) o by (intro exI [of _ t] exI [of _ ?u] exI [of _ md']) simp
qed

theorem second_file_frees_line_witness:
  "\<exists>s t u. reach files_init file_step s \<and> owns s 1 8 61 \<and>
     fold_option run_file_op [F_request 2 True second_answers, F_finish 2] s = Some t \<and>
     run_file_op (F_close 2) t = Some u \<and> owns u 1 8 61 \<and> \<not> gpio_owned (drv u)"
proof -
  obtain s where s: "reach files_init file_step s" "owns s 1 8 61" "gpio_owned (drv s)"
    "kernel_allows (F_request 2 True second_answers) s" by (rule first_file)
  have "ans_kzalloc second_answers \<noteq> None" "ans_request_irq second_answers = 0" by (simp_all add: second_answers_def)
  from second_file_frees_line [OF s this] s(1,2) show ?thesis by blast
qed

text \<open>When the kernel refuses interrupt 0 the second open fails, and its context and nothing else remains.\<close>

lemma second_open_refused:
  assumes "gpio_owned (drv s)" and "kernel_allows (F_request k writing A) s" and "ans_kzalloc A = Some md'"
    and "ans_request_irq A \<noteq> 0"
  shows "run_file_op (F_request k writing A) s =
    Some (s\<lparr>drv := (drv s)\<lparr>contexts := (contexts (drv s))(md' \<mapsto> named_context A)\<rparr>\<rparr>)"
proof -
  from assms(1,2) have "ans_gpio_request A \<noteq> 0" by (simp add: kernel_allows_def)
  with driver_open_request_eq [OF assms(3), of "\<lparr>write_mode = writing, private_data = None\<rparr>" "drv s"] assms(1,4)
  show ?thesis by (simp add: run_file_op_def Let_def)
qed

end
