(* ===== verification/Spec2Isabelle.thy ===== *)
theory Spec2Isabelle
  imports Chip_System Start_Protocol Named_Mutex Cycle_Rate Progress Shield_Object Stat_Race Driver_Files
begin

text \<open>
  A Raspberry Pi with a LAN9252 EtherCAT shield as an EtherCAT slave. The program has three parts
  that run at the same time. The main program (\<open>slave_test/src/slave_test.cpp\<close>) makes a message of
  four 64-bit words every 100 ms, and takes the process data of the master. A real-time thread
  (\<open>thread/src/thread.cpp\<close>, \<open>shield_9252/src/shield_9252.cpp\<close>) waits for the interrupt of the chip
  and then exchanges process data with it over SPI (\<open>rpi_base/src/rpi_base.cpp\<close>). A kernel driver
  (\<open>gpioirq_kdriver/gpioirq.c\<close>) counts the interrupts in a semaphore and gives them out by \<open>ioctl\<close>.
  The threads share one object of class \<open>etherberry_9252\<close>, without a lock: a sequence counter
  protects the data from the master, a ring of ten slots the data to it.

  \<^bold>\<open>How the program is modelled.\<close> Objects are records with the member names of the classes, enumerated
  types are datatypes, \<open>unsigned\<close> members are words of their width (the target has 64-bit
  \<open>unsigned long\<close>), operations are functions with explicit state. A result \<open>None\<close> stands for a run
  without a result: a loop that never ends, or an access outside its memory. Everything that is
  not code of the repository (bcm2835, C library, pthread, kernel, clock, FPU) is a parameter, a
  record of functions that the definitions take as an argument. Every call goes into a log, which
  no definition reads; the log's meaning on the SPI bus is given by \<open>actions\<close> in \<open>Platform\<close>.

  \<^bold>\<open>The theories.\<close>
  \<^item> \<open>Prelude\<close>: word slices, the \<open>union\<close> types seen as arrays of bytes and of words, reachability and
    runs, the locales \<open>union_view\<close>, \<open>snapshot_ring\<close>, \<open>step_invariant\<close> and \<open>simulation\<close>, which are interpreted on the
    models of the components below.
  \<^item> \<open>Platform\<close>, \<open>Bench\<close>: the calls, the log and the SPI frames; concrete platforms, on which the
    theorems are applied.
  \<^item> \<open>Spi_Regs\<close>: \<open>Read_Reg\<close>, \<open>Write_Reg\<close>, \<open>Read_Reg_Wait\<close>, \<open>Write_Reg_Wait\<close>. The lemmas say which frames they
    put on the bus, and when the polling ends.
  \<^item> \<open>C_String\<close>, \<open>Realtime\<close>, \<open>Console\<close>: character arrays; \<open>isrealtime\<close>; \<open>bashoutput\<close>, \<open>milisleep\<close> and the
    keyboard. The lemmas are about the bounds of the arrays.
  \<^item> \<open>Rt_Utilities\<close>: \<open>stattool\<close>, over any arithmetic, with the mean and the deviation over the reals.
  \<^item> \<open>Process_Data\<close>: the data members of \<open>rpi_base\<close>, \<open>send_output\<close>, \<open>receive_input\<close>, the two FIFO transfers and
    \<open>MainTask\<close>, which is shown to follow the specification \<open>cycle_spec\<close> of one cycle.
  \<^item> \<open>Seqlock\<close>, \<open>Out_Ring\<close>: \<open>receive_input\<close> against \<open>SPIReadProcRamFifo\<close>, and \<open>send_output\<close> against the slot
    copy of \<open>SPIWriteProcRamFifo\<close>, as step relations that interleave the two threads word by word, with
    their invariants. The sequential functions are shown to be runs of these relations.
  \<^item> \<open>Shield\<close>: start-up, against \<open>init_spec\<close>, and the rounds of the cyclic thread with their times.
  \<^item> \<open>Sched\<close>, \<open>Thread_Name\<close>, \<open>Threads\<close>, \<open>Start_Gate\<close>, \<open>Named_Mutex\<close>: the thread library. The lemmas are about
    attempts, joins, the start mutex and mutual exclusion, which an interrupted \<open>sem_wait\<close> breaks.
  \<^item> \<open>Start_Protocol\<close>: the calls of the thread classes, of \<open>__Start_thread\<close> and of the start of \<open>main\<close>,
    interleaved on threads and a mutex that behave as POSIX says; these runs are runs of \<open>Start_Gate\<close>.
  \<^item> \<open>Ioctl\<close>, \<open>Down_Timeout\<close>, \<open>Gpioirq\<close>: the driver: commands, timed wait, open, close and interrupts.
  \<^item> \<open>Driver_Files\<close>: any number of open files of the driver, with interrupts, in any order, also while an
    open is only half done. The lemmas say exactly when the driver crashes.
  \<^item> \<open>Driver_Link\<close>: the shield and the driver's test program on the driver.
  \<^item> \<open>Board\<close>: a concrete platform with a LAN9252 on it, which takes frames byte by byte, answers with a delay
    and follows the relation \<open>chip_run\<close> (\<open>board_documented\<close>). It is in the sense of \<open>Process_Data\<close> \<open>responsive\<close>
    (\<open>board_responsive\<close>); the theorems with that condition are applied to it.
  \<^item> \<open>Footprint\<close>: locales for what the operations of a round do to the world (\<open>footprint\<close>) and for a
    platform that contains a chip (\<open>embedded_board\<close>), interpreted in \<open>Cycle_Rate\<close>.
  \<^item> \<open>Irq_Count\<close>: the semaphore between the driver's handler and its waits: interrupts, units in it and
    units taken are in balance.
  \<^item> \<open>Cycle_Rate\<close>: the rounds of the real-time thread on the driver, next to a chip: what each interrupt
    and each timeout has to do with a round.
  \<^item> \<open>Slave_Test\<close>, \<open>Slave_System\<close>: \<open>main\<close>; its rounds and those of the real-time thread together, which
    simulate an abstract slave (\<open>slave_step\<close>). This theory states what follows end to end.
  \<^item> \<open>Concurrent\<close>: the loop of \<open>main\<close> and the cycles of the real-time thread, interleaved word by word over
    the states of \<open>Seqlock\<close> and \<open>Out_Ring\<close> together. Its invariant puts the two invariants together and
    adds what has been taken and sent so far; the whole rounds of \<open>Slave_System\<close> are shown to be runs of it.
  \<^item> \<open>Progress\<close>: how many steps of its own a thread needs, by the locale \<open>progress\<close>: a measure with an
    account of what may add to it. Only waits for the chip delay the real-time thread, and nothing bounds
    them (\<open>waits_unbounded\<close>); only increments of the counter delay \<open>receive_input\<close>, and nothing bounds those
    (\<open>receive_input_not_wait_free\<close>).
  \<^item> \<open>Stat_Race\<close>: the members of the statistics that \<open>bashoutput\<close> shows while \<open>calc\<close> changes them.
  \<^item> \<open>Shield_Object\<close>: the class invariant of the shield under any series of its public operations.
  \<^item> \<open>Lan9252\<close>, \<open>Chip_System\<close>: what the code does to a chip that behaves as its data sheet says. A run of
    the chip is a relation over the accesses in the log (\<open>chip_run\<close>), with registers, CSR commands in
    execution, FIFOs and the memory of the core as its state; the properties take it as a hypothesis.

  \<^bold>\<open>Loops and bounds.\<close> The polling loops, \<open>setscheduler\<close>, \<open>receive_input\<close> and the wait of the driver have no bound in
  the code and are \<open>partial_function\<close>s; that they end is proved where the platform allows it: for the polling
  loops where the chip is \<open>responsive\<close>, which asks only that a transfer or a command that was started
  from a state at rest is answered after some readings, and that the world is at rest again when its data
  are taken. The time of \<open>down_timeoutms\<close> is taken to be below \<open>2^62\<close> ns, which the code needs. The
  endless loops (\<open>execute_fromthread\<close>, \<open>main\<close>, the test program) are given as their body and as runs
  of any number of rounds. The sequence counter wraps at \<open>2^32\<close>; a read is taken to see fewer
  increments than that. A copy out of the ring is taken to overlap with fewer than ten messages.
  The step counts of \<open>Progress\<close> (14 for a cycle, 16 for an input and 6 for each increment) count the
  accesses to shared data and one step for each of the moves between the operations; each wait of the
  real-time thread (\<open>t_wait\<close>) is one more.

  \<^bold>\<open>Not modelled.\<close> Printed messages; the instants at which a thread is cancelled; weak memory (the
  interleavings are sequentially consistent, with 64-bit words as the unit of a copy); what the master
  writes to the chip while a run is followed (\<open>Lan9252\<close>); rounding
  in \<open>milisleep\<close>; the unused random numbers of \<open>slave_test.cpp\<close>; code in comments; headers that
  only include others, build files, udev rules and documentation.
\<close>

section \<open>Properties of the whole system\<close>

text \<open>C1: The program is the abstract slave. From any state that the slave \<open>a\<close> describes, a run of
  rounds of the main program and of the real-time thread, in any order, shows on the bus and in
  the calls what a run of the abstract slave over the same rounds shows, and ends in a state that
  its final slave describes: each cycle sends the newest message of the application, the
  application gets the input received last, and no message is lost or made up in between.\<close>

theorem slave_refines:
  assumes "fold_option (run_turn E F fmt) ts s = Some s'" and "slave_of s a"
  shows "\<exists>as a'. emits (snd s) (snd s') as \<and> steps slave_step ts a as a' \<and> slave_of s' a'"
  by (rule turns_slave [OF assms])

theorem slave_refines_witness:
  "\<exists>s' a. fold_option (run_turn up_chip real_fpu (\<lambda>x. ''0'')) [Main_turn, Rt_turn, Rt_turn, Main_turn]
        (main_init (raw_shield real_fpu), start ([], 0)) = Some s' \<and>
     slave_of (main_init (raw_shield real_fpu), start ([], 0) :: (u8 list \<times> u16) machine) a \<and>
     (\<exists>as a'. emits (start ([], 0)) (snd s') as \<and>
        steps slave_step [Main_turn, Rt_turn, Rt_turn, Main_turn] a as a' \<and> slave_of s' a')"
proof -
  let ?s = "(main_init (raw_shield real_fpu), start ([], 0) :: (u8 list \<times> u16) machine)"
  let ?ts = "[Main_turn, Rt_turn, Rt_turn, Main_turn]"
  have inv: "main_inv (fst ?s)" by (simp add: main_init_inv)
  have short: "short_numbers (\<lambda>x :: real. ''0'')" by (simp add: short_numbers_def)
  obtain s' where run: "fold_option (run_turn up_chip real_fpu (\<lambda>x. ''0'')) ?ts ?s = Some s'"
    using turns_return [OF up_chip_responsive short inv TrueI] by blast
  obtain a where a: "slave_of ?s a" using slave_of_exists [OF inv] by blast
  show ?thesis using run a slave_refines [OF run a] unfolding snd_conv by blast
qed

text \<open>C4: The application's data reach the master: after a round of the main program every cycle of
  the real-time thread writes, as its only process data, the 32 bytes of the four words that the
  round has made of the clock and its counter, least significant byte first.\<close>

theorem outputs_reach_master:
  assumes "fold_option (run_turn E F fmt) (Main_turn # replicate n Rt_turn) s = Some s'"
    and "main_inv (fst s)"
  shows "\<exists>as sec ns. emits (snd s) (snd s') as \<and> hd as = Clock sec ns \<and>
     fifo_outputs as = replicate n (concat (map (le_bytes 8)
       [ns_of sec ns div 1000000, loop_counter (fst s), 1, 2]))"
proof -
  obtain a where a: "slave_of s a" "sl_count a = loop_counter (fst s)"
    using slave_of_exists [OF assms(2)] by blast
  from turns_slave [OF assms(1) a(1)] obtain as1 a1 as2 a' where
    e: "emits (snd s) (snd s') (as1 @ as2)" and s1: "slave_step Main_turn a as1 a1"
    and s2: "steps slave_step (replicate n Rt_turn) a1 as2 a'"
    by auto
  from s1 obtain sec ns r where as1: "as1 = [Clock sec ns, Ext (Nanosleep 0 100000000) r]"
    and out: "sl_out a1 = pack [ns_of sec ns div 1000000, loop_counter (fst s), 1, 2]"
    using a(2) by (auto elim!: main_turnE)
  have "fifo_outputs (as1 @ as2) = replicate n (concat (map (le_bytes 8)
       [ns_of sec ns div 1000000, loop_counter (fst s), 1, 2]))"
    using slave_outputs [OF s2] by (simp add: fifo_append as1 fifo_outputs_def out pack_layout)
  with e show ?thesis using as1 by (intro exI [of _ "as1 @ as2"] exI [of _ sec] exI [of _ ns]) simp
qed

theorem outputs_reach_master_witness:
  "\<exists>s'. fold_option (run_turn up_chip real_fpu (\<lambda>x. ''0'')) (Main_turn # replicate 2 Rt_turn)
        (main_init (raw_shield real_fpu), start ([], 0)) = Some s' \<and>
     main_inv (main_init (raw_shield real_fpu)) \<and>
     (\<exists>as sec ns. emits (start ([], 0)) (snd s') as \<and> hd as = Clock sec ns \<and>
        fifo_outputs as = replicate 2 (concat (map (le_bytes 8) [ns_of sec ns div 1000000, 0, 1, 2])))"
proof -
  let ?s = "(main_init (raw_shield real_fpu), start ([], 0) :: (u8 list \<times> u16) machine)"
  have inv: "main_inv (fst ?s)" by (simp add: main_init_inv)
  have short: "short_numbers (\<lambda>x :: real. ''0'')" by (simp add: short_numbers_def)
  have cnt: "loop_counter (main_init (raw_shield real_fpu)) = 0" by (simp add: main_init_def)
  obtain s' where run: "fold_option (run_turn up_chip real_fpu (\<lambda>x. ''0''))
      (Main_turn # replicate 2 Rt_turn) ?s = Some s'"
    using turns_return [OF up_chip_responsive short inv TrueI] by blast
  show ?thesis
    using run inv outputs_reach_master [OF run inv] unfolding snd_conv fst_conv cnt by blast
qed

text \<open>C5: The master's data reach the application, and only in operational state: after any rounds,
  a round of the main program gives the application the bytes that were read last from the chip
  while the watchdog and AL status registers, as last read over the CSR port, said that the watchdog is
  served and the state is OP (\<open>operational_inputs\<close>), or what was in the buffer before when there was no
  such cycle; and nothing is read from the input FIFO in any other state.\<close>

theorem inputs_reach_application:
  assumes "fold_option (run_turn E F fmt) (ts @ [Main_turn]) s = Some s'" and "main_inv (fst s)"
  shows "\<exists>as. emits (snd s) (snd s') as \<and>
     le_bytes 32 (BufferfromEthCAT (fst s')) =
       last (le_bytes 32 (m_BufferOutEthToSlaveBuffer (ETHB (fst s))) # operational_inputs nothing_seen as) \<and>
     fifo_inputs as = operational_inputs nothing_seen as"
proof -
  obtain a where a: "slave_of s a" "sl_in a = m_BufferOutEthToSlaveBuffer (ETHB (fst s))"
    using slave_of_exists [OF assms(2)] by blast
  from turns_slave [OF assms(1) a(1)] obtain as1 a1 as2 a' where
    e: "emits (snd s) (snd s') (as1 @ as2)" and s1: "steps slave_step ts a as1 a1"
    and s2: "slave_step Main_turn a1 as2 a'" and a': "slave_of s' a'"
    by (auto simp: steps_append)
  from s2 have "fifo_inputs as2 = []" "sl_app a' = sl_in a1"
    by (auto elim!: main_turnE simp: fifo_inputs_def)
  with slave_inputs [OF s1] a' a(2) e turns_operational [OF assms e, of nothing_seen] show ?thesis
    by (intro exI [of _ "as1 @ as2"]) (simp add: fifo_append slave_of_def Let_def)
qed

theorem inputs_reach_application_witness:
  "\<exists>s' as. fold_option (run_turn up_chip real_fpu (\<lambda>x. ''0'')) ([Rt_turn] @ [Main_turn])
        (main_init (raw_shield real_fpu), start ([], 0)) = Some s' \<and>
     main_inv (main_init (raw_shield real_fpu)) \<and> emits (start ([], 0)) (snd s') as \<and>
     operational_inputs nothing_seen as \<noteq> [] \<and>
     le_bytes 32 (BufferfromEthCAT (fst s')) = last (operational_inputs nothing_seen as)"
proof -
  let ?s = "(main_init (raw_shield real_fpu), start ([], 0) :: (u8 list \<times> u16) machine)"
  have inv: "main_inv (fst ?s)" by (simp add: main_init_inv)
  obtain s' as where run: "fold_option (run_turn up_chip real_fpu (\<lambda>x. ''0'')) ([Rt_turn] @ [Main_turn]) ?s = Some s'"
    and as: "emits (snd ?s) (snd s') as" "fifo_inputs as \<noteq> []"
    using up_chip_exchange [OF inv, of "\<lambda>x :: real. ''0''" real_fpu] by (auto simp: short_numbers_def)
  from inputs_reach_application [OF run inv] emits_unique [OF as(1)] as(2) have
    "operational_inputs nothing_seen as \<noteq> []"
    "le_bytes 32 (BufferfromEthCAT (fst s')) = last (operational_inputs nothing_seen as)" by auto
  with run inv as show ?thesis unfolding fst_conv snd_conv by blast
qed

text \<open>C6: The process data go through the chip. Let the chip that follows the accesses behave as
  documented, with no command in execution and no writes of the master during the run. After a round
  of the main program, one or more rounds of the real-time thread and another round of the main
  program, the 32 bytes at 0x1200 of the process RAM are the message of the first round, nothing else
  in the memory of the chip has changed, and when the watchdog is served and the state is OP the
  application has got the 32 bytes at 0x1000.\<close>

theorem exchange_through_chip:
  assumes "fold_option (run_turn E F fmt) (Main_turn # replicate (Suc n) Rt_turn @ [Main_turn]) s = Some s'"
    and "main_inv (fst s)" and "emits (snd s) (snd s') as" and "chip_run as c c'" and "csr_op c = None"
  shows "\<exists>sec ns. hd as = Clock sec ns \<and>
     esc_mem c' = store 0x1200 (concat (map (le_bytes 8)
       [ns_of sec ns div 1000000, loop_counter (fst s), 1, 2])) (esc_mem c) \<and>
     (chip_operational c \<longrightarrow> le_bytes 32 (BufferfromEthCAT (fst s')) = load 0x1000 32 (esc_mem c))"
  by (rule exchange_on_chip [OF assms])

theorem exchange_through_chip_witness:
  "\<exists>s' as c c' sec ns. fold_option (run_turn up_chip real_fpu (\<lambda>x. ''0'')) [Main_turn, Rt_turn, Main_turn]
        (main_init (raw_shield real_fpu), start ([], 0)) = Some s' \<and>
     emits (start ([], 0)) (snd s') as \<and> chip_run as c c' \<and> csr_op c = None \<and> chip_operational c \<and>
     load 0x1200 32 (esc_mem c') = concat (map (le_bytes 8) [ns_of sec ns div 1000000, 0, 1, 2]) \<and>
     le_bytes 32 (BufferfromEthCAT (fst s')) = load 0x1000 32 (esc_mem c)"
proof -
  let ?s = "(main_init (raw_shield real_fpu), start ([], 0) :: (u8 list \<times> u16) machine)"
  let ?ts = "Main_turn # replicate (Suc 0) Rt_turn @ [Main_turn]"
  have inv: "main_inv (fst ?s)" by (simp add: main_init_inv)
  have short: "short_numbers (\<lambda>x :: real. ''0'')" by (simp add: short_numbers_def)
  have cnt: "loop_counter (main_init (raw_shield real_fpu)) = 0" by (simp add: main_init_def)
  have ts: "?ts = [Main_turn, Rt_turn, Main_turn]" by simp
  obtain s' as c c' where run: "fold_option (run_turn up_chip real_fpu (\<lambda>x. ''0'')) ?ts ?s = Some s'"
    and as: "emits (snd ?s) (snd s') as" and c: "chip_run as c c'" "csr_op c = None" "chip_operational c"
    using up_chip_followed [OF inv short, of real_fpu] unfolding ts by blast
  from exchange_through_chip [OF run inv as c(1,2)] c(3) obtain sec ns where
    mem: "esc_mem c' = store 0x1200 (concat (map (le_bytes 8) [ns_of sec ns div 1000000, 0, 1, 2])) (esc_mem c)"
    and inp: "le_bytes 32 (BufferfromEthCAT (fst s')) = load 0x1000 32 (esc_mem c)"
    unfolding fst_conv cnt by blast
  have "length (concat (map (le_bytes 8) [ns_of sec ns div 1000000, 0, 1, 2])) = 32" by simp
  with load_store mem have
    "load 0x1200 32 (esc_mem c') = concat (map (le_bytes 8) [ns_of sec ns div 1000000, 0, 1, 2])"
    by metis
  with run as c inp show ?thesis unfolding ts snd_conv by blast
qed



end
